(* ===== verification/Prelude.thy ===== *)
theory Prelude
  imports Main "HOL-Library.Word"
begin

text \<open>
  What the components share: names for the machine types of the C++ sources, the rule
  collections of the development, C's truncating division, the little-endian byte image of
  an integer (what a \<open>memcpy\<close> of a scalar reads and writes on the x86 targets of the
  makefiles), and the generic lemmas on words and lists that the component proofs rewrite
  with.
\<close>

unbundle bit_operations_syntax

section \<open>Machine types\<close>

type_synonym u8 = "8 word"
type_synonym u16 = "16 word"
type_synonym u32 = "32 word"
type_synonym u64 = "64 word"
type_synonym bytes = "8 word list"

named_theorems byte_simps \<open>length and value of the byte image of an integer\<close>

section \<open>C's division on int\<close>

text \<open>C++11 rounds the quotient of two ints towards zero and gives the remainder the sign of
  the dividend.\<close>

definition c_div :: "int \<Rightarrow> int \<Rightarrow> int" where
  "c_div a b = sgn a * sgn b * (\<bar>a\<bar> div \<bar>b\<bar>)"

definition c_mod :: "int \<Rightarrow> int \<Rightarrow> int" where
  "c_mod a b = a - c_div a b * b"

lemma c_div_nonneg: "0 \<le> a \<Longrightarrow> 0 < b \<Longrightarrow> c_div a b = a div b"
  by (cases "a = 0") (simp_all add: c_div_def)

lemma c_mod_nonneg: "0 \<le> a \<Longrightarrow> 0 < b \<Longrightarrow> c_mod a b = a mod b"
  by (simp add: c_mod_def c_div_nonneg minus_div_mult_eq_mod)

lemma c_div_neg: "a < 0 \<Longrightarrow> 0 < b \<Longrightarrow> c_div a b = - ((- a) div b)"
  by (simp add: c_div_def)

lemma c_mod_neg: "a < 0 \<Longrightarrow> 0 < b \<Longrightarrow> c_mod a b = - ((- a) mod b)"
  by (simp add: c_mod_def c_div_neg minus_mult_div_eq_mod [symmetric] algebra_simps)

lemma c_mod_bounds:
  assumes "0 < b"
  shows "- b < c_mod a b" and "c_mod a b < b"
proof -
  have "0 \<le> a mod b \<and> a mod b < b" and "0 \<le> (- a) mod b \<and> (- a) mod b < b"
    using assms by simp_all
  then have "- b < c_mod a b \<and> c_mod a b < b"
    using assms c_mod_nonneg [of a b] c_mod_neg [of a b] by linarith
  then show "- b < c_mod a b" and "c_mod a b < b" by simp_all
qed

lemma c_div_mod_eq: "c_div a b * b + c_mod a b = a"
  by (simp add: c_mod_def)

section \<open>The byte image of an integer\<close>

fun le_bytes :: "nat \<Rightarrow> nat \<Rightarrow> bytes" where
  "le_bytes 0 v = []"
| "le_bytes (Suc n) v = word_of_nat (v mod 256) # le_bytes n (v div 256)"

fun le_val :: "bytes \<Rightarrow> nat" where
  "le_val [] = 0"
| "le_val (b # bs) = unat b + 256 * le_val bs"

lemma length_le_bytes [simp, byte_simps]: "length (le_bytes n v) = n"
  by (induction n arbitrary: v) auto

lemma unat_u8_less: "unat (b :: u8) < 256"
proof -
  have "unat b < 2 ^ LENGTH(8)" by (rule unsigned_less)
  then show ?thesis by simp
qed

lemma unat_byte [byte_simps]: "unat (word_of_nat (v mod 256) :: u8) = v mod 256"
  by (simp add: unat_of_nat)

lemma le_val_le_bytes [byte_simps]: "le_val (le_bytes n v) = v mod 256 ^ n"
proof (induction n arbitrary: v)
  case (Suc n)
  have "v mod (256 * 256 ^ n) = 256 * (v div 256 mod 256 ^ n) + v mod 256"
    by (rule mod_mult2_eq)
  then show ?case by (simp add: Suc.IH unat_byte)
qed simp

lemma le_val_less: "le_val bs < 256 ^ length bs"
proof (induction bs)
  case (Cons b bs)
  have "unat b < 256" by (rule unat_u8_less)
  then have "unat b + 256 * le_val bs < 256 * Suc (le_val bs)" by simp
  also have "\<dots> \<le> 256 * 256 ^ length bs"
    using Cons.IH by (intro mult_le_mono2) simp
  finally show ?case by simp
qed simp

lemma le_bytes_le_val [byte_simps]: "le_bytes (length bs) (le_val bs) = bs"
proof (induction bs)
  case (Cons b bs)
  have "unat b < 256" by (rule unat_u8_less)
  then show ?case by (simp add: Cons.IH)
qed simp

lemma le_bytes_inject:
  assumes "v < 256 ^ n" and "w < 256 ^ n"
  shows "le_bytes n v = le_bytes n w \<longleftrightarrow> v = w"
proof
  assume "le_bytes n v = le_bytes n w"
  then have "le_val (le_bytes n v) = le_val (le_bytes n w)" by simp
  then show "v = w" using assms by (simp add: le_val_le_bytes)
qed simp

section \<open>Words\<close>

lemma xor_cancel_right [simp]: "(a XOR b) XOR b = (a :: 'a::len word)"
  by (simp add: xor.assoc)

lemma xor_left_inject [simp]: "a XOR b = a XOR c \<longleftrightarrow> b = (c :: 'a::len word)"
  by (metis xor.left_commute xor.right_neutral xor_self_eq)

lemma xor_right_inject [simp]: "b XOR a = c XOR a \<longleftrightarrow> b = (c :: 'a::len word)"
  by (metis xor_cancel_right)

lemma bit_times_2 [bit_simps]:
  "bit (x * 2) i \<longleftrightarrow> 0 < i \<and> i < LENGTH('a) \<and> bit x (i - 1)" for x :: "'a::len word"
  using bit_double_iff [of x i] by (auto simp: mult.commute)

lemma nat_bit_less: "v < 2 ^ k \<Longrightarrow> bit v n \<Longrightarrow> n < k" for v :: nat
  by (metis bit_take_bit_iff take_bit_nat_eq_self)

lemma ucast_u8_down [simp]: "ucast (ucast b :: u32) = (b :: u8)"
  by (rule bit_word_eqI) (simp add: bit_simps)

lemma ucast_u8_u32_inject [simp]: "(ucast b :: u32) = ucast c \<longleftrightarrow> b = c" for b c :: u8
  by (metis ucast_u8_down)

lemma word_of_nat_byte_add:
  "(word_of_nat (unat b + 256 * v) :: u32) = ucast b XOR push_bit 8 (word_of_nat v)" for b :: u8
proof -
  have "(ucast b :: u32) AND push_bit 8 (word_of_nat v) = 0"
    by (rule bit_word_eqI) (use bit_imp_le_length [of b] in \<open>force simp: bit_simps\<close>)
  then have "ucast b XOR push_bit 8 (word_of_nat v :: u32) = ucast b + push_bit 8 (word_of_nat v)"
    by (simp add: disjunctive_add_eq_xor)
  then show ?thesis by (simp add: push_bit_eq_mult)
qed

subsection \<open>Invertible mixing steps\<close>

lemma inj_mult_odd:
  assumes "p * q = (1 :: 'a::len word)" and "x * p = y * p"
  shows "x = y"
proof -
  from assms(2) have "x * p * q = y * p * q" by simp
  then show ?thesis by (simp add: mult.assoc assms(1))
qed

lemma drop_bit_fixed_zero:
  assumes "0 < n" and "d = drop_bit n d"
  shows "d = (0 :: 'a::len word)"
proof -
  have step: "bit d i \<longleftrightarrow> bit d (n + i)" for i
    using arg_cong [OF assms(2), of "\<lambda>x. bit x i"] by (simp add: bit_simps)
  have "\<not> bit d i" for i
  proof (induction "LENGTH('a) - i" arbitrary: i rule: less_induct)
    case less
    show ?case
    proof (cases "i < LENGTH('a)")
      case True
      then have "\<not> bit d (n + i)" using assms(1) by (intro less) simp
      then show ?thesis using step by simp
    qed (auto dest: bit_imp_le_length)
  qed
  then show ?thesis by (intro bit_word_eqI) simp
qed

lemma push_bit_fixed_zero:
  assumes "0 < n" and "d = push_bit n d"
  shows "d = (0 :: 'a::len word)"
proof -
  have step: "bit d i \<Longrightarrow> n \<le> i \<and> bit d (i - n)" for i
    using arg_cong [OF assms(2), of "\<lambda>x. bit x i"] by (simp add: bit_simps)
  have "\<not> bit d i" for i
  proof (induction i rule: less_induct)
    case (less i)
    then show ?case using step [of i] assms(1) by auto
  qed
  then show ?thesis by (intro bit_word_eqI) simp
qed

lemma xor_swap: "a XOR b = c XOR d \<Longrightarrow> a XOR c = b XOR d" for a b c d :: "'a::len word"
proof (rule bit_word_eqI)
  fix i assume "a XOR b = c XOR d"
  from arg_cong [OF this, of "\<lambda>x. bit x i"] show "bit (a XOR c) i \<longleftrightarrow> bit (b XOR d) i"
    by (auto simp: bit_simps)
qed

lemma xor_zero_iff: "x XOR y = 0 \<longleftrightarrow> x = y" for x y :: "'a::len word"
  using xor_left_inject [of x y x] by auto

lemma xor_drop_bit_inj:
  assumes "0 < n" and "x XOR drop_bit n x = y XOR drop_bit n y"
  shows "x = (y :: 'a::len word)"
proof -
  have "x XOR y = drop_bit n (x XOR y)"
    unfolding drop_bit_xor by (rule xor_swap [OF assms(2)])
  then have "x XOR y = 0" by (rule drop_bit_fixed_zero [OF assms(1)])
  then show ?thesis by (simp add: xor_zero_iff)
qed

lemma xor_push_bit_inj:
  assumes "0 < n" and "x XOR push_bit n x = y XOR push_bit n y"
  shows "x = (y :: 'a::len word)"
proof -
  have "x XOR y = push_bit n (x XOR y)"
    unfolding push_bit_xor by (rule xor_swap [OF assms(2)])
  then have "x XOR y = 0" by (rule push_bit_fixed_zero [OF assms(1)])
  then show ?thesis by (simp add: xor_zero_iff)
qed

lemma scast_u8_down [simp]: "ucast (scast b :: u32) = (b :: u8)"
  by (rule bit_word_eqI) (simp add: bit_simps)

lemma scast_u8_u32_inject [simp]: "(scast b :: u32) = scast c \<longleftrightarrow> b = c" for b c :: u8
  by (metis scast_u8_down)

lemma unat_ucast_up:
  assumes "LENGTH('a::len) \<le> LENGTH('b::len)"
  shows "unat (ucast (w :: 'a word) :: 'b word) = unat w"
proof -
  have "unat w < 2 ^ LENGTH('a)" by (rule unsigned_less)
  also have "(2 :: nat) ^ LENGTH('a) \<le> 2 ^ LENGTH('b)" using assms by (intro power_increasing) auto
  finally show ?thesis by (simp add: unsigned_ucast_eq take_bit_nat_eq_self)
qed

lemma ucast_mult_down: "ucast (x * y) = (ucast x * ucast y :: u32)" for x y :: u64
proof (transfer, goal_cases)
  case (1 x y)
  have "take_bit 32 (take_bit 64 x * take_bit 64 y)
      = take_bit 32 (take_bit 32 (take_bit 64 x) * take_bit 32 (take_bit 64 y))"
    by (rule take_bit_mult [symmetric])
  then show ?case by (simp add: take_bit_mult)
qed

lemma add_push_bit_inj:
  assumes "(1 + 2 ^ n) * q = (1 :: 'a::len word)" and "x + push_bit n x = y + push_bit n y"
  shows "x = (y :: 'a word)"
proof -
  have "x + push_bit n x = x * (1 + 2 ^ n)" for x :: "'a word"
    by (simp add: push_bit_eq_mult algebra_simps)
  then have "x * (1 + 2 ^ n) = y * (1 + 2 ^ n)" using assms(2) by simp
  then show ?thesis by (rule inj_mult_odd [OF assms(1)])
qed

section \<open>Decimal notation\<close>

text \<open>The digits of a number, the way every printing routine of the C++ library writes it.\<close>

fun nat_digits :: "nat \<Rightarrow> string" where
  "nat_digits n =
     (if n < 10 then [char_of (48 + n)] else nat_digits (n div 10) @ [char_of (48 + n mod 10)])"

declare nat_digits.simps [simp del]

definition int_digits :: "int \<Rightarrow> string" where
  "int_digits i = (if i < 0 then ''-'' @ nat_digits (nat (- i)) else nat_digits (nat i))"

lemma nat_digits_small: "n < 10 \<Longrightarrow> nat_digits n = [char_of (48 + n)]"
  by (simp add: nat_digits.simps)

lemma nat_digits_rec: "10 \<le> n \<Longrightarrow> nat_digits n = nat_digits (n div 10) @ [char_of (48 + n mod 10)]"
  by (subst nat_digits.simps) simp

lemma length_nat_digits_pos [simp]: "0 < length (nat_digits n)"
  by (cases "n < 10") (simp_all add: nat_digits_small nat_digits_rec)

text \<open>A number has \<open>k + 1\<close> digits when it is below \<open>10 ^ (k + 1)\<close> and, unless \<open>k = 0\<close>, at least \<open>10 ^ k\<close>.\<close>

lemma length_nat_digits:
  "length (nat_digits n) = k + 1 \<longleftrightarrow> n < 10 ^ (k + 1) \<and> (k = 0 \<or> 10 ^ k \<le> n)"
proof (induction n arbitrary: k rule: nat_digits.induct)
  case (1 n)
  show ?case
  proof (cases "n < 10")
    case True
    show ?thesis
    proof (cases k)
      case (Suc j)
      have "(10 :: nat) * 1 \<le> 10 * 10 ^ j" by (intro mult_le_mono2) simp
      then have "n < 10 * 10 ^ j" using True by linarith
      then have "\<not> 10 ^ k \<le> n" using Suc by simp
      then show ?thesis using True Suc by (simp add: nat_digits_small)
    qed (use True in \<open>simp add: nat_digits_small\<close>)
  next
    case False
    show ?thesis
    proof (cases k)
      case 0
      then show ?thesis using False length_nat_digits_pos [of "n div 10"] by (simp add: nat_digits_rec)
    next
      case (Suc j)
      have e: "n < 10 ^ (k + 1) \<longleftrightarrow> n div 10 < 10 ^ (j + 1)" "10 ^ k \<le> n \<longleftrightarrow> 10 ^ j \<le> n div 10"
        unfolding Suc by (simp_all add: div_less_iff_less_mult less_eq_div_iff_mult_less_eq mult.commute)
      have "1 \<le> n div 10" using False by simp
      then have "j = 0 \<or> 10 ^ j \<le> n div 10 \<longleftrightarrow> 10 ^ j \<le> n div 10" by (cases j) simp_all
      moreover have "length (nat_digits n) = k + 1 \<longleftrightarrow> length (nat_digits (n div 10)) = j + 1"
        using False Suc by (simp add: nat_digits_rec)
      ultimately show ?thesis using 1 [OF False, of j] e Suc by blast
    qed
  qed
qed

section \<open>Errors\<close>

text \<open>Sequencing of operations that may throw: \<open>Inl\<close> is the exception.\<close>

definition sbind :: "'e + 'a \<Rightarrow> ('a \<Rightarrow> 'e + 'b) \<Rightarrow> 'e + 'b" where
  "sbind r f = (case r of Inl e \<Rightarrow> Inl e | Inr x \<Rightarrow> f x)"

lemma sbind_simps [simp]: "sbind (Inl e) f = Inl e" "sbind (Inr x) f = f x"
  by (simp_all add: sbind_def)

lemma sbind_Inr_iff: "sbind r f = Inr y \<longleftrightarrow> (\<exists>x. r = Inr x \<and> f x = Inr y)"
  by (cases r) simp_all

lemma case_sum_Inr_iff:
  "(case r of Inl e \<Rightarrow> Inl (f e) | Inr x \<Rightarrow> h x) = Inr y \<longleftrightarrow> (\<exists>x. r = Inr x \<and> h x = Inr y)"
  by (cases r) simp_all

lemma sbind_InrE:
  assumes "sbind r f = Inr y"
  obtains x where "r = Inr x" and "f x = Inr y"
  using assms by (auto simp: sbind_Inr_iff)

end
