(* ===== verification/ByteHash.thy ===== *)
theory ByteHash
  imports Prelude
begin

text \<open>
  The contract shared by the checksums and hash functions that consume a key byte by byte:
  a state is folded over the bytes and finished at the end. Where the step is injective in
  the state and in the byte, and the finish is injective, a change of one byte is always
  seen in the result. The hash functions of \<open>src/common\<close> interpret this locale.
\<close>

locale byte_fold =
  fixes step :: "'s \<Rightarrow> u8 \<Rightarrow> 's"
    and fin :: "'s \<Rightarrow> 'h"
  assumes step_state_inj: "step s b = step t b \<Longrightarrow> s = t"
    and fin_inj: "fin s = fin t \<Longrightarrow> s = t"
begin

lemma foldl_inj: "foldl step s bs = foldl step t bs \<Longrightarrow> s = t"
  by (induction bs arbitrary: s t) (auto dest: step_state_inj)

lemma same_suffix:
  "fin (foldl step s (xs @ zs)) = fin (foldl step s (ys @ zs)) \<longleftrightarrow>
     foldl step s xs = foldl step s ys"
  by (auto dest!: fin_inj foldl_inj)

end

locale byte_hash = byte_fold +
  assumes step_byte_inj: "step s b = step s c \<Longrightarrow> b = c"
begin

lemma one_byte_change:
  assumes "b \<noteq> c"
  shows "fin (foldl step s (xs @ b # zs)) \<noteq> fin (foldl step s (xs @ c # zs))"
proof -
  have "foldl step s (xs @ [b]) \<noteq> foldl step s (xs @ [c])"
    using assms by (auto dest: step_byte_inj)
  then show ?thesis
    using same_suffix [of s "xs @ [b]" zs "xs @ [c]"] by simp
qed

end

end
