(* ===== verification/Crc32.thy ===== *)
theory Crc32
  imports ByteHash
begin

text \<open>
  The CRC-32 checksum of \<open>src/common/crc32.hpp\<close> (the \<open>crc32\<close> tool of the repository): the
  table, the bit reflection, and the table-driven update with its initial and final values.
  The specification \<open>crc32_spec\<close> is the shift register that the header's parameters describe
  (width 32, polynomial 0x04c11db7, reflected input and output, all-ones initial value and
  final XOR), one bit at a time. The lemmas show that the table is the polynomial's, that the
  update computes the specification, that it may be split over consecutive buffers, and that
  every change confined to four consecutive bytes is seen in the checksum.
\<close>

section \<open>The code\<close>

definition crc_table :: "u32 list" where
  "crc_table = [
     0x00000000, 0x77073096, 0xee0e612c, 0x990951ba, 0x076dc419, 0x706af48f, 0xe963a535, 0x9e6495a3,
     0x0edb8832, 0x79dcb8a4, 0xe0d5e91e, 0x97d2d988, 0x09b64c2b, 0x7eb17cbd, 0xe7b82d07, 0x90bf1d91,
     0x1db71064, 0x6ab020f2, 0xf3b97148, 0x84be41de, 0x1adad47d, 0x6ddde4eb, 0xf4d4b551, 0x83d385c7,
     0x136c9856, 0x646ba8c0, 0xfd62f97a, 0x8a65c9ec, 0x14015c4f, 0x63066cd9, 0xfa0f3d63, 0x8d080df5,
     0x3b6e20c8, 0x4c69105e, 0xd56041e4, 0xa2677172, 0x3c03e4d1, 0x4b04d447, 0xd20d85fd, 0xa50ab56b,
     0x35b5a8fa, 0x42b2986c, 0xdbbbc9d6, 0xacbcf940, 0x32d86ce3, 0x45df5c75, 0xdcd60dcf, 0xabd13d59,
     0x26d930ac, 0x51de003a, 0xc8d75180, 0xbfd06116, 0x21b4f4b5, 0x56b3c423, 0xcfba9599, 0xb8bda50f,
     0x2802b89e, 0x5f058808, 0xc60cd9b2, 0xb10be924, 0x2f6f7c87, 0x58684c11, 0xc1611dab, 0xb6662d3d,
     0x76dc4190, 0x01db7106, 0x98d220bc, 0xefd5102a, 0x71b18589, 0x06b6b51f, 0x9fbfe4a5, 0xe8b8d433,
     0x7807c9a2, 0x0f00f934, 0x9609a88e, 0xe10e9818, 0x7f6a0dbb, 0x086d3d2d, 0x91646c97, 0xe6635c01,
     0x6b6b51f4, 0x1c6c6162, 0x856530d8, 0xf262004e, 0x6c0695ed, 0x1b01a57b, 0x8208f4c1, 0xf50fc457,
     0x65b0d9c6, 0x12b7e950, 0x8bbeb8ea, 0xfcb9887c, 0x62dd1ddf, 0x15da2d49, 0x8cd37cf3, 0xfbd44c65,
     0x4db26158, 0x3ab551ce, 0xa3bc0074, 0xd4bb30e2, 0x4adfa541, 0x3dd895d7, 0xa4d1c46d, 0xd3d6f4fb,
     0x4369e96a, 0x346ed9fc, 0xad678846, 0xda60b8d0, 0x44042d73, 0x33031de5, 0xaa0a4c5f, 0xdd0d7cc9,
     0x5005713c, 0x270241aa, 0xbe0b1010, 0xc90c2086, 0x5768b525, 0x206f85b3, 0xb966d409, 0xce61e49f,
     0x5edef90e, 0x29d9c998, 0xb0d09822, 0xc7d7a8b4, 0x59b33d17, 0x2eb40d81, 0xb7bd5c3b, 0xc0ba6cad,
     0xedb88320, 0x9abfb3b6, 0x03b6e20c, 0x74b1d29a, 0xead54739, 0x9dd277af, 0x04db2615, 0x73dc1683,
     0xe3630b12, 0x94643b84, 0x0d6d6a3e, 0x7a6a5aa8, 0xe40ecf0b, 0x9309ff9d, 0x0a00ae27, 0x7d079eb1,
     0xf00f9344, 0x8708a3d2, 0x1e01f268, 0x6906c2fe, 0xf762575d, 0x806567cb, 0x196c3671, 0x6e6b06e7,
     0xfed41b76, 0x89d32be0, 0x10da7a5a, 0x67dd4acc, 0xf9b9df6f, 0x8ebeeff9, 0x17b7be43, 0x60b08ed5,
     0xd6d6a3e8, 0xa1d1937e, 0x38d8c2c4, 0x4fdff252, 0xd1bb67f1, 0xa6bc5767, 0x3fb506dd, 0x48b2364b,
     0xd80d2bda, 0xaf0a1b4c, 0x36034af6, 0x41047a60, 0xdf60efc3, 0xa867df55, 0x316e8eef, 0x4669be79,
     0xcb61b38c, 0xbc66831a, 0x256fd2a0, 0x5268e236, 0xcc0c7795, 0xbb0b4703, 0x220216b9, 0x5505262f,
     0xc5ba3bbe, 0xb2bd0b28, 0x2bb45a92, 0x5cb36a04, 0xc2d7ffa7, 0xb5d0cf31, 0x2cd99e8b, 0x5bdeae1d,
     0x9b64c2b0, 0xec63f226, 0x756aa39c, 0x026d930a, 0x9c0906a9, 0xeb0e363f, 0x72076785, 0x05005713,
     0x95bf4a82, 0xe2b87a14, 0x7bb12bae, 0x0cb61b38, 0x92d28e9b, 0xe5d5be0d, 0x7cdcefb7, 0x0bdbdf21,
     0x86d3d2d4, 0xf1d4e242, 0x68ddb3f8, 0x1fda836e, 0x81be16cd, 0xf6b9265b, 0x6fb077e1, 0x18b74777,
     0x88085ae6, 0xff0f6a70, 0x66063bca, 0x11010b5c, 0x8f659eff, 0xf862ae69, 0x616bffd3, 0x166ccf45,
     0xa00ae278, 0xd70dd2ee, 0x4e048354, 0x3903b3c2, 0xa7672661, 0xd06016f7, 0x4969474d, 0x3e6e77db,
     0xaed16a4a, 0xd9d65adc, 0x40df0b66, 0x37d83bf0, 0xa9bcae53, 0xdebb9ec5, 0x47b2cf7f, 0x30b5ffe9,
     0xbdbdf21c, 0xcabac28a, 0x53b39330, 0x24b4a3a6, 0xbad03605, 0xcdd70693, 0x54de5729, 0x23d967bf,
     0xb3667a2e, 0xc4614ab8, 0x5d681b02, 0x2a6f2b94, 0xb40bbe37, 0xc30c8ea1, 0x5a05df1b, 0x2d02ef8d]"

fun crc32_reflect_loop :: "nat \<Rightarrow> u32 \<Rightarrow> u32 \<Rightarrow> u32" where
  "crc32_reflect_loop 0 data ret = ret"
| "crc32_reflect_loop (Suc n) data ret =
     (let data' = drop_bit 1 data
      in crc32_reflect_loop n data' (push_bit 1 ret OR (data' AND 1)))"

text \<open>The loop counter runs from 1 to \<open>data_len - 1\<close>.\<close>

definition crc32_reflect :: "u32 \<Rightarrow> nat \<Rightarrow> u32" where
  "crc32_reflect data data_len = crc32_reflect_loop (data_len - 1) data (data AND 1)"

definition crc32_init :: u32 where
  "crc32_init = 0xffffffff"

fun rd_crc32_update :: "u32 \<Rightarrow> bytes \<Rightarrow> u32" where
  "rd_crc32_update crc [] = crc AND 0xffffffff"
| "rd_crc32_update crc (d # data) =
     (let tbl_idx = (crc XOR ucast d) AND 0xff
      in rd_crc32_update ((crc_table ! unat tbl_idx XOR drop_bit 8 crc) AND 0xffffffff) data)"

definition rd_crc32_finalize :: "u32 \<Rightarrow> u32" where
  "rd_crc32_finalize crc = crc XOR 0xffffffff"

definition rd_crc32 :: "bytes \<Rightarrow> u32" where
  "rd_crc32 data = rd_crc32_finalize (rd_crc32_update crc32_init data)"

section \<open>The specification: a shift register\<close>

definition crc32_shift :: "u32 \<Rightarrow> u32" where
  "crc32_shift r = (if bit r 31 then push_bit 1 r XOR 0x04c11db7 else push_bit 1 r)"

definition crc32_spec_byte :: "u32 \<Rightarrow> u8 \<Rightarrow> u32" where
  "crc32_spec_byte r b = (crc32_shift ^^ 8) (r XOR push_bit 24 (crc32_reflect (ucast b) 8))"

definition crc32_spec :: "bytes \<Rightarrow> u32" where
  "crc32_spec data = crc32_reflect (foldl crc32_spec_byte 0xffffffff data) 32 XOR 0xffffffff"

section \<open>The reflected register and the table\<close>

definition crc32_bit :: "u32 \<Rightarrow> u32" where
  "crc32_bit c = (if c AND 1 = 1 then drop_bit 1 c XOR 0xedb88320 else drop_bit 1 c)"

lemma and_one_u32: "(c :: u32) AND 1 = 1 \<longleftrightarrow> bit c 0"
  by (simp add: and_one_eq bit_0 mod_2_eq_odd)

lemma and_all_ones [simp]: "(x :: u32) AND 0xffffffff = x"
  by (rule bit_word_eqI) (auto simp: bit_simps less_Suc_eq numeral_eq_Suc)

subsection \<open>Reflection\<close>

lemma bit_reflect_loop:
  "i < 32 \<Longrightarrow> k < 32 \<Longrightarrow>
   bit (crc32_reflect_loop k d r) i \<longleftrightarrow> (if i < k then bit d (k - i) else bit r (i - k))"
proof (induction k arbitrary: d r)
  case (Suc k)
  then show ?case
    by (auto simp: Let_def bit_simps and_one_u32 Suc_diff_le not_less le_Suc_eq)
qed simp

lemma bit_reflect:
  assumes "0 < n" and "n \<le> 32"
  shows "bit (crc32_reflect d n) i \<longleftrightarrow> i < n \<and> bit d (n - 1 - i)"
proof (cases "i < 32")
  case True
  then show ?thesis
    using assms bit_reflect_loop [of i "n - 1" d "d AND 1"]
    by (auto simp: crc32_reflect_def bit_simps)
next
  case False
  then show ?thesis using assms bit_imp_le_length [of "crc32_reflect d n" i] by auto
qed

lemmas bit_reflect32 = bit_reflect [of 32, simplified]

lemma reflect_reflect: "crc32_reflect (crc32_reflect x 32) 32 = x"
  by (rule bit_word_eqI) (auto simp: bit_reflect32)

lemma reflect_xor: "crc32_reflect (x XOR y) 32 = crc32_reflect x 32 XOR crc32_reflect y 32"
  by (rule bit_word_eqI) (auto simp: bit_reflect32 bit_simps)

lemma reflect_push: "crc32_reflect (push_bit 1 x) 32 = drop_bit 1 (crc32_reflect x 32)"
  by (rule bit_word_eqI) (auto simp: bit_reflect32 bit_simps)

lemma reflect_poly: "crc32_reflect 0x04c11db7 32 = 0xedb88320"
  by code_simp

lemma reflect_shift: "crc32_reflect (crc32_shift r) 32 = crc32_bit (crc32_reflect r 32)"
  by (simp add: crc32_shift_def crc32_bit_def and_one_u32 bit_reflect32 reflect_xor
      reflect_push [simplified] reflect_poly)

lemma reflect_shifts: "crc32_reflect ((crc32_shift ^^ n) r) 32 = (crc32_bit ^^ n) (crc32_reflect r 32)"
  by (induction n) (simp_all add: reflect_shift)

lemma reflect_byte:
  "crc32_reflect (push_bit 24 (crc32_reflect (ucast (b :: u8)) 8)) 32 = ucast b"
proof (rule bit_word_eqI)
  fix i assume "i < LENGTH(32)"
  then show "bit (crc32_reflect (push_bit 24 (crc32_reflect (ucast b) 8)) 32) i \<longleftrightarrow>
      bit (ucast b :: u32) i"
    using bit_imp_le_length [of b i]
    by (auto simp: bit_reflect32 bit_reflect [of 8] bit_simps)
qed

lemma reflect_spec_byte:
  "crc32_reflect (crc32_spec_byte r b) 32 = (crc32_bit ^^ 8) (crc32_reflect r 32 XOR ucast b)"
  by (simp add: crc32_spec_byte_def reflect_shifts reflect_xor reflect_byte)

subsection \<open>The register step is linear and injective\<close>

lemma crc32_bit_xor: "crc32_bit (x XOR y) = crc32_bit x XOR crc32_bit y"
  unfolding crc32_bit_def and_one_u32
  by (rule bit_word_eqI) (auto simp: bit_simps)

lemma crc32_bits_xor: "(crc32_bit ^^ n) (x XOR y) = (crc32_bit ^^ n) x XOR (crc32_bit ^^ n) y"
  by (induction n) (simp_all add: crc32_bit_xor)

lemma crc32_bits_zeros: "(\<And>i. i < n \<Longrightarrow> \<not> bit x i) \<Longrightarrow> (crc32_bit ^^ n) x = drop_bit n x"
proof (induction n arbitrary: x)
  case (Suc n)
  have "crc32_bit x = drop_bit 1 x"
    using Suc.prems [of 0] by (simp add: crc32_bit_def and_one_u32)
  moreover have "(crc32_bit ^^ n) (drop_bit 1 x) = drop_bit n (drop_bit 1 x)"
    using Suc.prems by (intro Suc.IH) (simp add: bit_simps)
  ultimately show ?case by (simp add: funpow_swap1)
qed simp

lemma crc32_bit_inj: "crc32_bit x = crc32_bit y \<Longrightarrow> x = y"
proof -
  assume eq: "crc32_bit x = crc32_bit y"
  have top: "bit (crc32_bit z) 31 \<longleftrightarrow> bit z 0" for z
    using bit_imp_le_length [of z 32] by (auto simp: crc32_bit_def and_one_u32 bit_simps)
  from eq top have b0: "bit x 0 = bit y 0" by metis
  with eq have d: "drop_bit 1 x = drop_bit 1 y"
    by (auto simp: crc32_bit_def and_one_u32 split: if_splits)
  show "x = y"
  proof (rule bit_word_eqI)
    fix i show "bit x i = bit y i"
    proof (cases i)
      case (Suc j)
      then show ?thesis using arg_cong [OF d, of "\<lambda>z. bit z j"] by (simp add: bit_simps)
    qed (simp add: b0)
  qed
qed

lemma crc32_bits_inj: "(crc32_bit ^^ n) x = (crc32_bit ^^ n) y \<Longrightarrow> x = y"
  by (induction n) (auto dest: crc32_bit_inj)


subsection \<open>The table\<close>

definition crc32_bits8 :: "u32 \<Rightarrow> u32" where
  "crc32_bits8 x = crc32_bit (crc32_bit (crc32_bit (crc32_bit
     (crc32_bit (crc32_bit (crc32_bit (crc32_bit x)))))))"

lemma crc32_bits8_funpow: "crc32_bits8 = crc32_bit ^^ 8"
  by (rule ext) (simp add: crc32_bits8_def eval_nat_numeral)

lemma crc_table_eq: "map (\<lambda>i. crc32_bits8 (word_of_nat i)) [0..<256] = crc_table"
  unfolding crc_table_def
  apply (simp add: upt_rec)
  apply (simp add: crc32_bits8_def crc32_bit_def)
  done

lemma bit_0xff: "bit (0xff :: u32) i \<longleftrightarrow> i < 8"
proof -
  have eq: "(0xff :: u32) = mask 8" by (simp add: mask_eq_exp_minus_1)
  show ?thesis unfolding eq bit_mask_iff by auto
qed

lemma crc_table_nth: "x AND 0xff = x \<Longrightarrow> crc_table ! unat x = (crc32_bit ^^ 8) x"
proof -
  assume "x AND 0xff = x"
  then have "unat x \<le> unat (0xff :: u32)"
    by (metis word_and_le1 word_le_nat_alt)
  then have "unat x < 256" by simp
  then show ?thesis unfolding crc_table_eq [symmetric] crc32_bits8_funpow by simp
qed

lemma crc32_table_step:
  "crc_table ! unat (x AND 0xff) XOR drop_bit 8 x = (crc32_bit ^^ 8) x"
proof -
  have "x = (x AND 0xff) XOR (x AND NOT 0xff)"
    by (rule bit_word_eqI) (auto simp: bit_simps)
  then have "(crc32_bit ^^ 8) x = (crc32_bit ^^ 8) (x AND 0xff) XOR (crc32_bit ^^ 8) (x AND NOT 0xff)"
    by (metis crc32_bits_xor)
  moreover have "(crc32_bit ^^ 8) (x AND NOT 0xff) = drop_bit 8 (x AND NOT 0xff)"
    by (rule crc32_bits_zeros) (simp only: bit_and_iff bit_not_iff bit_0xff, simp)
  moreover have "drop_bit 8 (x AND NOT 0xff) = drop_bit 8 x"
    by (rule bit_word_eqI)
      (simp only: bit_and_iff bit_not_iff bit_drop_bit_eq bit_0xff o_apply,
       use bit_imp_le_length [of x] in force)
  ultimately show ?thesis by (simp add: crc_table_nth and.assoc)
qed

definition crc32_step :: "u32 \<Rightarrow> u8 \<Rightarrow> u32" where
  "crc32_step c b = (crc32_bit ^^ 8) (c XOR ucast b)"

lemma crc32_table_step_byte:
  "crc_table ! unat ((c XOR ucast b) AND 0xff) XOR drop_bit 8 c = crc32_step c b" for b :: u8
proof -
  have "drop_bit 8 (c XOR ucast b) = drop_bit 8 c"
    by (rule bit_word_eqI) (use bit_imp_le_length [of b] in \<open>force simp: bit_simps\<close>)
  then show ?thesis
    using crc32_table_step [of "c XOR ucast b"] by (simp add: crc32_step_def)
qed

lemma update_Cons: "rd_crc32_update c (b # bs) = rd_crc32_update (crc32_step c b) bs"
  using crc32_table_step_byte [of c b] by (simp add: Let_def)

declare rd_crc32_update.simps(2) [simp del]

lemma update_foldl: "rd_crc32_update c bs = foldl crc32_step c bs"
  by (induction bs arbitrary: c) (simp_all add: update_Cons)

lemma spec_byte_foldl:
  "crc32_reflect (foldl crc32_spec_byte r bs) 32 = foldl crc32_step (crc32_reflect r 32) bs"
  by (induction bs arbitrary: r) (simp_all add: reflect_spec_byte crc32_step_def)

interpretation crc32: byte_hash crc32_step rd_crc32_finalize
proof
  show "s = t" if "crc32_step s b = crc32_step t b" for s t b
    using that by (auto simp: crc32_step_def dest: crc32_bits_inj)
  show "b = c" if "crc32_step s b = crc32_step s c" for s b c
    using that by (auto simp: crc32_step_def dest!: crc32_bits_inj)
  show "s = t" if "rd_crc32_finalize s = rd_crc32_finalize t" for s t
    using that by (simp add: rd_crc32_finalize_def)
qed

subsection \<open>Four bytes at once\<close>

lemma foldl_step_word:
  "length bs \<le> 4 \<Longrightarrow>
   foldl crc32_step c bs = (crc32_bit ^^ (8 * length bs)) (c XOR word_of_nat (le_val bs))"
proof (induction bs arbitrary: c)
  case (Cons b bs)
  let ?w = "word_of_nat (le_val bs) :: u32"
  have "le_val bs < 256 ^ length bs" by (rule le_val_less)
  also have "\<dots> \<le> 256 ^ 3" using Cons.prems by (intro power_increasing) auto
  finally have small: "le_val bs < 2 ^ 24" by simp
  have "(crc32_bit ^^ 8) (push_bit 8 ?w) = drop_bit 8 (push_bit 8 ?w)"
    by (rule crc32_bits_zeros) (simp add: bit_simps)
  also have "\<dots> = ?w"
    by (rule bit_word_eqI) (use nat_bit_less [OF small] in \<open>auto simp: bit_simps\<close>)
  finally have "(crc32_bit ^^ 8) (c XOR word_of_nat (le_val (b # bs))) = crc32_step c b XOR ?w"
    by (simp add: crc32_step_def word_of_nat_byte_add crc32_bits_xor xor.assoc
        del: of_nat_add)
  moreover have "(crc32_bit ^^ (8 * length (b # bs))) y
      = (crc32_bit ^^ (8 * length bs)) ((crc32_bit ^^ 8) y)" for y
    using funpow_add [of "8 * length bs" 8 crc32_bit] by (simp add: add.commute)
  ultimately show ?case
    using Cons by (simp del: le_val.simps)
qed simp

lemma word_of_nat_inject_u32:
  "v < 2 ^ 32 \<Longrightarrow> w < 2 ^ 32 \<Longrightarrow> (word_of_nat v :: u32) = word_of_nat w \<longleftrightarrow> v = w"
  by (simp add: word_of_nat_eq_iff take_bit_nat_eq_self)

lemma foldl_step_inj:
  assumes "length v = length w" and "length w \<le> 4"
    and "foldl crc32_step c v = foldl crc32_step c w"
  shows "v = w"
proof -
  have "(256 :: nat) ^ length w \<le> 256 ^ 4" using assms(2) by (intro power_increasing) auto
  then have small: "le_val v < 2 ^ 32" "le_val w < 2 ^ 32"
    using le_val_less [of v] le_val_less [of w] assms(1) by simp_all
  from assms have "(word_of_nat (le_val v) :: u32) = word_of_nat (le_val w)"
    by (auto simp: foldl_step_word dest: crc32_bits_inj)
  with small have "le_val v = le_val w" by (simp add: word_of_nat_inject_u32)
  then show ?thesis using assms(1) by (metis le_bytes_le_val)
qed

section \<open>Properties of the checksum\<close>

text \<open>C13: the checksum computed by \<open>rd_crc32\<close> is, for every buffer, the value of the
  bit-serial shift register with the parameters that the header of \<open>crc32.hpp\<close> states.\<close>

theorem rd_crc32_correct: "rd_crc32 data = crc32_spec data"
proof -
  have "crc32_reflect 0xffffffff 32 = 0xffffffff" by code_simp
  then show ?thesis
    by (simp add: rd_crc32_def crc32_spec_def rd_crc32_finalize_def crc32_init_def update_foldl
        spec_byte_foldl)
qed

text \<open>C19: two buffers of equal length that differ only inside a window of at most four
  consecutive bytes have different checksums: no such burst of errors is missed.\<close>

theorem rd_crc32_detects_burst:
  assumes "length v = length w" and "length w \<le> 4" and "v \<noteq> w"
  shows "rd_crc32 (pre @ v @ post) \<noteq> rd_crc32 (pre @ w @ post)"
proof
  assume "rd_crc32 (pre @ v @ post) = rd_crc32 (pre @ w @ post)"
  then have "foldl crc32_step (foldl crc32_step crc32_init pre) v
      = foldl crc32_step (foldl crc32_step crc32_init pre) w"
    using crc32.same_suffix [of crc32_init "pre @ v" post "pre @ w"]
    by (simp add: rd_crc32_def update_foldl)
  then show False using foldl_step_inj assms by blast
qed

theorem rd_crc32_detects_burst_witness:
  "rd_crc32 ([1] @ [2, 3] @ [9]) \<noteq> rd_crc32 ([1] @ [3, 2] @ [9])"
  by (rule rd_crc32_detects_burst) simp_all

text \<open>Updating with one buffer and then with the next is the same as updating once with
  their concatenation, so a stream may be fed in pieces of any size.\<close>

theorem rd_crc32_update_append:
  "rd_crc32_update (rd_crc32_update crc xs) ys = rd_crc32_update crc (xs @ ys)"
  by (simp add: update_foldl)

text \<open>\<open>crc32_reflect\<close> reverses the low \<open>data_len\<close> bits of the word and clears the others,
  for every width the word has.\<close>

theorem crc32_reflect_bits:
  assumes "0 < data_len" and "data_len \<le> 32"
  shows "bit (crc32_reflect data data_len) i \<longleftrightarrow> i < data_len \<and> bit data (data_len - 1 - i)"
  using assms by (rule bit_reflect)

theorem crc32_reflect_bits_witness:
  "bit (crc32_reflect 1 8) 7 \<longleftrightarrow> (7 :: nat) < 8 \<and> bit (1 :: u32) (8 - 1 - 7)"
  by (rule crc32_reflect_bits) simp_all

end
