(* ===== verification/HashKit.thy ===== *)
theory HashKit
  imports Crc32
begin

text \<open>
  The hash functions of \<open>src/common/hashkit\<close>. A key is the list of its bytes; the functions
  read it through \<open>const char *\<close>, and a \<open>char\<close> of the x86 targets is signed, so widening one
  to 32 or 64 bits extends its sign (\<open>scast\<close>), while \<open>unsigned char\<close> and \<open>uint8_t\<close> reads
  extend with zeros (\<open>ucast\<close>). All arithmetic is on words and wraps as in C.
\<close>

section \<open>CRC variants (\<open>crc.cc\<close>)\<close>

definition crc16tab :: "u16 list" where
  "crc16tab = [
     0x0000, 0x1021, 0x2042, 0x3063, 0x4084, 0x50a5, 0x60c6, 0x70e7,
     0x8108, 0x9129, 0xa14a, 0xb16b, 0xc18c, 0xd1ad, 0xe1ce, 0xf1ef,
     0x1231, 0x0210, 0x3273, 0x2252, 0x52b5, 0x4294, 0x72f7, 0x62d6,
     0x9339, 0x8318, 0xb37b, 0xa35a, 0xd3bd, 0xc39c, 0xf3ff, 0xe3de,
     0x2462, 0x3443, 0x0420, 0x1401, 0x64e6, 0x74c7, 0x44a4, 0x5485,
     0xa56a, 0xb54b, 0x8528, 0x9509, 0xe5ee, 0xf5cf, 0xc5ac, 0xd58d,
     0x3653, 0x2672, 0x1611, 0x0630, 0x76d7, 0x66f6, 0x5695, 0x46b4,
     0xb75b, 0xa77a, 0x9719, 0x8738, 0xf7df, 0xe7fe, 0xd79d, 0xc7bc,
     0x48c4, 0x58e5, 0x6886, 0x78a7, 0x0840, 0x1861, 0x2802, 0x3823,
     0xc9cc, 0xd9ed, 0xe98e, 0xf9af, 0x8948, 0x9969, 0xa90a, 0xb92b,
     0x5af5, 0x4ad4, 0x7ab7, 0x6a96, 0x1a71, 0x0a50, 0x3a33, 0x2a12,
     0xdbfd, 0xcbdc, 0xfbbf, 0xeb9e, 0x9b79, 0x8b58, 0xbb3b, 0xab1a,
     0x6ca6, 0x7c87, 0x4ce4, 0x5cc5, 0x2c22, 0x3c03, 0x0c60, 0x1c41,
     0xedae, 0xfd8f, 0xcdec, 0xddcd, 0xad2a, 0xbd0b, 0x8d68, 0x9d49,
     0x7e97, 0x6eb6, 0x5ed5, 0x4ef4, 0x3e13, 0x2e32, 0x1e51, 0x0e70,
     0xff9f, 0xefbe, 0xdfdd, 0xcffc, 0xbf1b, 0xaf3a, 0x9f59, 0x8f78,
     0x9188, 0x81a9, 0xb1ca, 0xa1eb, 0xd10c, 0xc12d, 0xf14e, 0xe16f,
     0x1080, 0x00a1, 0x30c2, 0x20e3, 0x5004, 0x4025, 0x7046, 0x6067,
     0x83b9, 0x9398, 0xa3fb, 0xb3da, 0xc33d, 0xd31c, 0xe37f, 0xf35e,
     0x02b1, 0x1290, 0x22f3, 0x32d2, 0x4235, 0x5214, 0x6277, 0x7256,
     0xb5ea, 0xa5cb, 0x95a8, 0x8589, 0xf56e, 0xe54f, 0xd52c, 0xc50d,
     0x34e2, 0x24c3, 0x14a0, 0x0481, 0x7466, 0x6447, 0x5424, 0x4405,
     0xa7db, 0xb7fa, 0x8799, 0x97b8, 0xe75f, 0xf77e, 0xc71d, 0xd73c,
     0x26d3, 0x36f2, 0x0691, 0x16b0, 0x6657, 0x7676, 0x4615, 0x5634,
     0xd94c, 0xc96d, 0xf90e, 0xe92f, 0x99c8, 0x89e9, 0xb98a, 0xa9ab,
     0x5844, 0x4865, 0x7806, 0x6827, 0x18c0, 0x08e1, 0x3882, 0x28a3,
     0xcb7d, 0xdb5c, 0xeb3f, 0xfb1e, 0x8bf9, 0x9bd8, 0xabbb, 0xbb9a,
     0x4a75, 0x5a54, 0x6a37, 0x7a16, 0x0af1, 0x1ad0, 0x2ab3, 0x3a92,
     0xfd2e, 0xed0f, 0xdd6c, 0xcd4d, 0xbdaa, 0xad8b, 0x9de8, 0x8dc9,
     0x7c26, 0x6c07, 0x5c64, 0x4c45, 0x3ca2, 0x2c83, 0x1ce0, 0x0cc1,
     0xef1f, 0xff3e, 0xcf5d, 0xdf7c, 0xaf9b, 0xbfba, 0x8fd9, 0x9ff8,
     0x6e17, 0x7e36, 0x4e55, 0x5e74, 0x2e93, 0x3eb2, 0x0ed1, 0x1ef0]"

definition crc32tab :: "u32 list" where
  "crc32tab = [
     0x00000000, 0x77073096, 0xee0e612c, 0x990951ba, 0x076dc419, 0x706af48f, 0xe963a535, 0x9e6495a3,
     0x0edb8832, 0x79dcb8a4, 0xe0d5e91e, 0x97d2d988, 0x09b64c2b, 0x7eb17cbd, 0xe7b82d07, 0x90bf1d91,
     0x1db71064, 0x6ab020f2, 0xf3b97148, 0x84be41de, 0x1adad47d, 0x6ddde4eb, 0xf4d4b551, 0x83d385c7,
     0x136c9856, 0x646ba8c0, 0xfd62f97a, 0x8a65c9ec, 0x14015c4f, 0x63066cd9, 0xfa0f3d63, 0x8d080df5,
     0x3b6e20c8, 0x4c69105e, 0xd56041e4, 0xa2677172, 0x3c03e4d1, 0x4b04d447, 0xd20d85fd, 0xa50ab56b,
     0x35b5a8fa, 0x42b2986c, 0xdbbbc9d6, 0xacbcf940, 0x32d86ce3, 0x45df5c75, 0xdcd60dcf, 0xabd13d59,
     0x26d930ac, 0x51de003a, 0xc8d75180, 0xbfd06116, 0x21b4f4b5, 0x56b3c423, 0xcfba9599, 0xb8bda50f,
     0x2802b89e, 0x5f058808, 0xc60cd9b2, 0xb10be924, 0x2f6f7c87, 0x58684c11, 0xc1611dab, 0xb6662d3d,
     0x76dc4190, 0x01db7106, 0x98d220bc, 0xefd5102a, 0x71b18589, 0x06b6b51f, 0x9fbfe4a5, 0xe8b8d433,
     0x7807c9a2, 0x0f00f934, 0x9609a88e, 0xe10e9818, 0x7f6a0dbb, 0x086d3d2d, 0x91646c97, 0xe6635c01,
     0x6b6b51f4, 0x1c6c6162, 0x856530d8, 0xf262004e, 0x6c0695ed, 0x1b01a57b, 0x8208f4c1, 0xf50fc457,
     0x65b0d9c6, 0x12b7e950, 0x8bbeb8ea, 0xfcb9887c, 0x62dd1ddf, 0x15da2d49, 0x8cd37cf3, 0xfbd44c65,
     0x4db26158, 0x3ab551ce, 0xa3bc0074, 0xd4bb30e2, 0x4adfa541, 0x3dd895d7, 0xa4d1c46d, 0xd3d6f4fb,
     0x4369e96a, 0x346ed9fc, 0xad678846, 0xda60b8d0, 0x44042d73, 0x33031de5, 0xaa0a4c5f, 0xdd0d7cc9,
     0x5005713c, 0x270241aa, 0xbe0b1010, 0xc90c2086, 0x5768b525, 0x206f85b3, 0xb966d409, 0xce61e49f,
     0x5edef90e, 0x29d9c998, 0xb0d09822, 0xc7d7a8b4, 0x59b33d17, 0x2eb40d81, 0xb7bd5c3b, 0xc0ba6cad,
     0xedb88320, 0x9abfb3b6, 0x03b6e20c, 0x74b1d29a, 0xead54739, 0x9dd277af, 0x04db2615, 0x73dc1683,
     0xe3630b12, 0x94643b84, 0x0d6d6a3e, 0x7a6a5aa8, 0xe40ecf0b, 0x9309ff9d, 0x0a00ae27, 0x7d079eb1,
     0xf00f9344, 0x8708a3d2, 0x1e01f268, 0x6906c2fe, 0xf762575d, 0x806567cb, 0x196c3671, 0x6e6b06e7,
     0xfed41b76, 0x89d32be0, 0x10da7a5a, 0x67dd4acc, 0xf9b9df6f, 0x8ebeeff9, 0x17b7be43, 0x60b08ed5,
     0xd6d6a3e8, 0xa1d1937e, 0x38d8c2c4, 0x4fdff252, 0xd1bb67f1, 0xa6bc5767, 0x3fb506dd, 0x48b2364b,
     0xd80d2bda, 0xaf0a1b4c, 0x36034af6, 0x41047a60, 0xdf60efc3, 0xa867df55, 0x316e8eef, 0x4669be79,
     0xcb61b38c, 0xbc66831a, 0x256fd2a0, 0x5268e236, 0xcc0c7795, 0xbb0b4703, 0x220216b9, 0x5505262f,
     0xc5ba3bbe, 0xb2bd0b28, 0x2bb45a92, 0x5cb36a04, 0xc2d7ffa7, 0xb5d0cf31, 0x2cd99e8b, 0x5bdeae1d,
     0x9b64c2b0, 0xec63f226, 0x756aa39c, 0x026d930a, 0x9c0906a9, 0xeb0e363f, 0x72076785, 0x05005713,
     0x95bf4a82, 0xe2b87a14, 0x7bb12bae, 0x0cb61b38, 0x92d28e9b, 0xe5d5be0d, 0x7cdcefb7, 0x0bdbdf21,
     0x86d3d2d4, 0xf1d4e242, 0x68ddb3f8, 0x1fda836e, 0x81be16cd, 0xf6b9265b, 0x6fb077e1, 0x18b74777,
     0x88085ae6, 0xff0f6a70, 0x66063bca, 0x11010b5c, 0x8f659eff, 0xf862ae69, 0x616bffd3, 0x166ccf45,
     0xa00ae278, 0xd70dd2ee, 0x4e048354, 0x3903b3c2, 0xa7672661, 0xd06016f7, 0x4969474d, 0x3e6e77db,
     0xaed16a4a, 0xd9d65adc, 0x40df0b66, 0x37d83bf0, 0xa9bcae53, 0xdebb9ec5, 0x47b2cf7f, 0x30b5ffe9,
     0xbdbdf21c, 0xcabac28a, 0x53b39330, 0x24b4a3a6, 0xbad03605, 0xcdd70693, 0x54de5729, 0x23d967bf,
     0xb3667a2e, 0xc4614ab8, 0x5d681b02, 0x2a6f2b94, 0xb40bbe37, 0xc30c8ea1, 0x5a05df1b, 0x2d02ef8d]"

fun hash_crc16_loop :: "u32 \<Rightarrow> bytes \<Rightarrow> u32" where
  "hash_crc16_loop crc [] = crc"
| "hash_crc16_loop crc (k # key) =
     hash_crc16_loop (push_bit 8 crc XOR
        ucast (crc16tab ! unat ((drop_bit 8 crc XOR scast k) AND 0x00ff))) key"

definition hash_crc16 :: "bytes \<Rightarrow> u32" where
  "hash_crc16 key = hash_crc16_loop 0 key"

fun hash_crc32_loop :: "u32 \<Rightarrow> bytes \<Rightarrow> u32" where
  "hash_crc32_loop crc [] = crc"
| "hash_crc32_loop crc (k # key) =
     hash_crc32_loop (drop_bit 8 crc XOR
        crc32tab ! unat (((ucast crc :: u64) XOR scast k) AND 0xff)) key"

definition hash_crc32 :: "bytes \<Rightarrow> u32" where
  "hash_crc32 key = drop_bit 16 (NOT (hash_crc32_loop 0xffffffff key)) AND 0x7fff"

fun hash_crc32a_loop :: "u32 \<Rightarrow> bytes \<Rightarrow> u32" where
  "hash_crc32a_loop crc [] = crc"
| "hash_crc32a_loop crc (p # ps) =
     hash_crc32a_loop (crc32tab ! unat ((crc XOR ucast p) AND 0xff) XOR drop_bit 8 crc) ps"

definition hash_crc32a :: "bytes \<Rightarrow> u32" where
  "hash_crc32a key = hash_crc32a_loop (NOT 0) key XOR NOT 0"

section \<open>FNV (\<open>fnv_hash.cc\<close>)\<close>

definition FNV_64_INIT :: u64 where "FNV_64_INIT = 0xcbf29ce484222325"
definition FNV_64_PRIME :: u64 where "FNV_64_PRIME = 0x100000001b3"
definition FNV_32_INIT :: u32 where "FNV_32_INIT = 2166136261"
definition FNV_32_PRIME :: u32 where "FNV_32_PRIME = 16777619"

definition fnv1_64_step :: "u64 \<Rightarrow> u8 \<Rightarrow> u64" where
  "fnv1_64_step hash k = (hash * FNV_64_PRIME) XOR scast k"

definition hash_fnv1_64 :: "bytes \<Rightarrow> u32" where
  "hash_fnv1_64 key = ucast (foldl fnv1_64_step FNV_64_INIT key)"

definition fnv1a_64_step :: "u32 \<Rightarrow> u8 \<Rightarrow> u32" where
  "fnv1a_64_step hash k = (hash XOR scast k) * ucast FNV_64_PRIME"

definition hash_fnv1a_64 :: "bytes \<Rightarrow> u32" where
  "hash_fnv1a_64 key = foldl fnv1a_64_step (ucast FNV_64_INIT) key"

definition fnv1_32_step :: "u32 \<Rightarrow> u8 \<Rightarrow> u32" where
  "fnv1_32_step hash k = (hash * FNV_32_PRIME) XOR scast k"

definition hash_fnv1_32 :: "bytes \<Rightarrow> u32" where
  "hash_fnv1_32 key = foldl fnv1_32_step FNV_32_INIT key"

definition fnv1a_32_step :: "u32 \<Rightarrow> u8 \<Rightarrow> u32" where
  "fnv1a_32_step hash k = (hash XOR scast k) * FNV_32_PRIME"

definition hash_fnv1a_32 :: "bytes \<Rightarrow> u32" where
  "hash_fnv1a_32 key = foldl fnv1a_32_step FNV_32_INIT key"

section \<open>Jenkins one-at-a-time (\<open>jenkins_one_at_a_time.cc\<close>)\<close>

definition one_at_a_time_step :: "u32 \<Rightarrow> u8 \<Rightarrow> u32" where
  "one_at_a_time_step value0 k =
     (let value1 = value0 + scast k;
          value2 = value1 + push_bit 10 value1
      in value2 XOR drop_bit 6 value2)"

definition one_at_a_time_fin :: "u32 \<Rightarrow> u32" where
  "one_at_a_time_fin value0 =
     (let value1 = value0 + push_bit 3 value0;
          value2 = value1 XOR drop_bit 11 value1
      in value2 + push_bit 15 value2)"

definition hash_one_at_a_time :: "bytes \<Rightarrow> u32" where
  "hash_one_at_a_time key = one_at_a_time_fin (foldl one_at_a_time_step 0 key)"

section \<open>Hsieh's SuperFastHash (\<open>hsieh_hash.cc\<close>)\<close>

definition get16bits :: "u8 \<Rightarrow> u8 \<Rightarrow> u32" where
  "get16bits d0 d1 = push_bit 8 (ucast d1) + ucast d0"

definition hsieh_block :: "u32 \<Rightarrow> u8 \<Rightarrow> u8 \<Rightarrow> u8 \<Rightarrow> u8 \<Rightarrow> u32" where
  "hsieh_block hash0 k0 k1 k2 k3 =
     (let hash1 = hash0 + get16bits k0 k1;
          tmp = push_bit 11 (get16bits k2 k3) XOR hash1;
          hash2 = push_bit 16 hash1 XOR tmp
      in hash2 + drop_bit 11 hash2)"

text \<open>The main loop takes four bytes while four are left (\<open>key_length >> 2\<close> rounds); the
  \<open>switch\<close> on \<open>rem\<close> treats the one to three bytes that remain.\<close>

fun hsieh_loop :: "u32 \<Rightarrow> bytes \<Rightarrow> u32" where
  "hsieh_loop hash (k0 # k1 # k2 # k3 # key) = hsieh_loop (hsieh_block hash k0 k1 k2 k3) key"
| "hsieh_loop hash [k0, k1, k2] =
     (let hash1 = hash + get16bits k0 k1;
          hash2 = hash1 XOR push_bit 16 hash1;
          hash3 = hash2 XOR push_bit 18 (scast k2)
      in hash3 + drop_bit 11 hash3)"
| "hsieh_loop hash [k0, k1] =
     (let hash1 = hash + get16bits k0 k1;
          hash2 = hash1 XOR push_bit 11 hash1
      in hash2 + drop_bit 17 hash2)"
| "hsieh_loop hash [k0] =
     (let hash1 = hash + ucast k0;
          hash2 = hash1 XOR push_bit 10 hash1
      in hash2 + drop_bit 1 hash2)"
| "hsieh_loop hash [] = hash"

definition hsieh_avalanche :: "u32 \<Rightarrow> u32" where
  "hsieh_avalanche hash0 =
     (let hash1 = hash0 XOR push_bit 3 hash0;
          hash2 = hash1 + drop_bit 5 hash1;
          hash3 = hash2 XOR push_bit 4 hash2;
          hash4 = hash3 + drop_bit 17 hash3;
          hash5 = hash4 XOR push_bit 25 hash4
      in hash5 + drop_bit 6 hash5)"

text \<open>A null key is \<open>None\<close>.\<close>

definition hash_hsieh :: "bytes option \<Rightarrow> u32" where
  "hash_hsieh key =
     (case key of None \<Rightarrow> 0
      | Some ks \<Rightarrow> if length ks \<le> 0 then 0 else hsieh_avalanche (hsieh_loop 0 ks))"

section \<open>Murmur (\<open>murmur.cc\<close>)\<close>

definition murmur_m :: u32 where "murmur_m = 0x5bd1e995"

definition murmur_mix :: "u32 \<Rightarrow> u32 \<Rightarrow> u32" where
  "murmur_mix h k0 =
     (let k1 = k0 * murmur_m;
          k2 = k1 XOR drop_bit 24 k1;
          k3 = k2 * murmur_m
      in (h * murmur_m) XOR k3)"

text \<open>The four bytes of a block are read as one little-endian \<open>unsigned int\<close>; the cases of the
  final \<open>switch\<close> fall through.\<close>

fun murmur_loop :: "u32 \<Rightarrow> bytes \<Rightarrow> u32" where
  "murmur_loop h (d0 # d1 # d2 # d3 # data) =
     murmur_loop (murmur_mix h (word_of_nat (le_val [d0, d1, d2, d3]))) data"
| "murmur_loop h [d0, d1, d2] =
     (h XOR push_bit 16 (ucast d2) XOR push_bit 8 (ucast d1) XOR ucast d0) * murmur_m"
| "murmur_loop h [d0, d1] = (h XOR push_bit 8 (ucast d1) XOR ucast d0) * murmur_m"
| "murmur_loop h [d0] = (h XOR ucast d0) * murmur_m"
| "murmur_loop h [] = h"

definition murmur_fin :: "u32 \<Rightarrow> u32" where
  "murmur_fin h0 =
     (let h1 = h0 XOR drop_bit 13 h0;
          h2 = h1 * murmur_m
      in h2 XOR drop_bit 15 h2)"

definition hash_murmur :: "bytes \<Rightarrow> u32" where
  "hash_murmur key =
     (let len = word_of_nat (length key);
          seed = 0xdeadbeef * len
      in murmur_fin (murmur_loop (seed XOR len) key))"

section \<open>The CRC-16 shift register\<close>

definition crc16_shift :: "u16 \<Rightarrow> u16" where
  "crc16_shift r = (if bit r 15 then push_bit 1 r XOR 0x1021 else push_bit 1 r)"

definition crc16_spec_byte :: "u16 \<Rightarrow> u8 \<Rightarrow> u16" where
  "crc16_spec_byte r b = (crc16_shift ^^ 8) (r XOR push_bit 8 (ucast b))"

definition crc16_shifts8 :: "u16 \<Rightarrow> u16" where
  "crc16_shifts8 x = crc16_shift (crc16_shift (crc16_shift (crc16_shift
     (crc16_shift (crc16_shift (crc16_shift (crc16_shift x)))))))"

section \<open>The CRC variants against the checksum of \<open>crc32.hpp\<close>\<close>

lemma crc32tab_eq: "crc32tab = crc_table"
  by (simp only: crc32tab_def crc_table_def)

lemma crc32a_loop_foldl: "hash_crc32a_loop c bs = foldl crc32_step c bs"
proof (induction bs arbitrary: c)
  case (Cons b bs)
  have "hash_crc32a_loop c (b # bs) = hash_crc32a_loop (crc32_step c b) bs"
    using crc32_table_step_byte [of c b] by (simp add: crc32tab_eq crc32_step_def)
  then show ?case by (simp add: Cons.IH)
qed simp

lemma u32_all_ones: "(0xffffffff :: u32) = NOT 0"
  by simp

lemma u8_scast_mask: "(ucast c XOR scast k :: u64) AND 0xff = ucast ((c XOR ucast k) AND 0xff)" for c :: u32 and k :: u8
proof (rule bit_word_eqI)
  fix i
  have m: "(0xff :: u64) = mask 8" "(0xff :: u32) = mask 8" by (simp_all add: mask_eq_exp_minus_1)
  show "bit ((ucast c XOR scast k :: u64) AND 0xff) i \<longleftrightarrow> bit (ucast ((c XOR ucast k) AND 0xff) :: u64) i"
    unfolding m by (auto simp: bit_simps simp del: mask_numeral)
qed

lemma crc32_loop_foldl: "hash_crc32_loop c bs = foldl crc32_step c bs"
proof (induction bs arbitrary: c)
  case (Cons b bs)
  have "unat ((ucast c XOR scast b :: u64) AND 0xff) = unat ((c XOR ucast b) AND 0xff)"
    unfolding u8_scast_mask by (simp add: unat_ucast_up)
  then have "hash_crc32_loop c (b # bs) = hash_crc32_loop (crc32_step c b) bs"
    using crc32_table_step_byte [of c b] by (simp add: crc32tab_eq xor.commute)
  then show ?case by (simp add: Cons.IH)
qed simp

lemma hash_crc32a_eq: "hash_crc32a key = rd_crc32 key"
  by (simp add: hash_crc32a_def crc32a_loop_foldl rd_crc32_def update_foldl
      rd_crc32_finalize_def crc32_init_def u32_all_ones)

lemma hash_crc32_eq: "hash_crc32 key = drop_bit 16 (rd_crc32 key) AND 0x7fff"
  by (simp add: hash_crc32_def crc32_loop_foldl rd_crc32_def update_foldl
      rd_crc32_finalize_def crc32_init_def u32_all_ones)

lemma crc16_shifts8_funpow: "crc16_shifts8 = crc16_shift ^^ 8"
  by (rule ext) (simp add: crc16_shifts8_def eval_nat_numeral)

lemma crc16tab_eq: "map (\<lambda>i. crc16_shifts8 (push_bit 8 (word_of_nat i))) [0..<256] = crc16tab"
  unfolding crc16tab_def
  apply (simp add: upt_rec)
  apply (simp add: crc16_shifts8_def crc16_shift_def)
  done

lemma crc16_shift_xor: "crc16_shift (x XOR y) = crc16_shift x XOR crc16_shift y"
  unfolding crc16_shift_def
  by (rule bit_word_eqI) (auto simp: bit_simps)

lemma crc16_shifts_xor: "(crc16_shift ^^ n) (x XOR y) = (crc16_shift ^^ n) x XOR (crc16_shift ^^ n) y"
  by (induction n) (simp_all add: crc16_shift_xor)

lemma crc16_shifts_zeros:
  "(\<And>i. 16 - n \<le> i \<Longrightarrow> \<not> bit x i) \<Longrightarrow> n \<le> 16 \<Longrightarrow> (crc16_shift ^^ n) x = push_bit n x"
proof (induction n arbitrary: x)
  case (Suc n)
  have "crc16_shift x = push_bit 1 x"
    using Suc.prems(1) [of 15] Suc.prems(2) by (simp add: crc16_shift_def)
  moreover have "(crc16_shift ^^ n) (push_bit 1 x) = push_bit n (push_bit 1 x)"
    using Suc.prems by (intro Suc.IH) (auto simp: bit_simps)
  ultimately show ?case by (simp add: funpow_swap1)
qed simp

lemma crc16_table_step: "crc16tab ! unat (drop_bit 8 x) XOR push_bit 8 x = (crc16_shift ^^ 8) x"
proof -
  have "x = push_bit 8 (drop_bit 8 x) XOR take_bit 8 x"
    by (rule bit_word_eqI) (auto simp: bit_simps)
  then have "(crc16_shift ^^ 8) x
      = (crc16_shift ^^ 8) (push_bit 8 (drop_bit 8 x)) XOR (crc16_shift ^^ 8) (take_bit 8 x)"
    by (metis crc16_shifts_xor)
  moreover have "(crc16_shift ^^ 8) (take_bit 8 x) = push_bit 8 (take_bit 8 x)"
    by (rule crc16_shifts_zeros) (auto simp: bit_simps)
  moreover have "push_bit 8 (take_bit 8 x) = push_bit 8 x"
    by (rule bit_word_eqI) (auto simp: bit_simps)
  moreover have "unat (drop_bit 8 x) < 256"
  proof -
    have "unat x < 2 ^ LENGTH(16)" by (rule unsigned_less)
    then show ?thesis by (simp add: drop_bit_eq_div unat_div)
  qed
  ultimately show ?thesis
    unfolding crc16tab_eq [symmetric] crc16_shifts8_funpow by simp
qed

lemma crc16_index:
  "unat ((drop_bit 8 c XOR scast k :: u32) AND 0xff)
     = unat (drop_bit 8 (ucast c XOR push_bit 8 (ucast k) :: u16))" for c :: u32 and k :: u8
proof -
  have m: "(0xff :: u32) = mask 8" by (simp add: mask_eq_exp_minus_1)
  have "(drop_bit 8 c XOR scast k) AND 0xff
      = ucast (drop_bit 8 (ucast c XOR push_bit 8 (ucast k) :: u16))"
    unfolding m
    by (rule bit_word_eqI) (auto simp: bit_simps simp del: mask_numeral)
  then show ?thesis by (simp add: unat_ucast_up)
qed

lemma crc16_loop_foldl: "ucast (hash_crc16_loop c bs) = foldl crc16_spec_byte (ucast c) bs"
proof (induction bs arbitrary: c)
  case (Cons k bs)
  let ?x = "ucast c XOR push_bit 8 (ucast k) :: u16"
  let ?t = "crc16tab ! unat ((drop_bit 8 c XOR scast k) AND 0xff)"
  have "ucast (push_bit 8 c XOR ucast ?t) = ?t XOR push_bit 8 ?x"
    by (rule bit_word_eqI) (auto simp: bit_simps)
  also have "\<dots> = crc16_spec_byte (ucast c) k"
    unfolding crc16_index crc16_table_step by (simp add: crc16_spec_byte_def)
  finally show ?case by (simp add: Cons.IH)
qed simp

interpretation fnv1_32: byte_hash fnv1_32_step "\<lambda>h. h"
proof
  have inv: "FNV_32_PRIME * 0x359c449b = 1" by (simp add: FNV_32_PRIME_def)
  show "s = t" if "fnv1_32_step s b = fnv1_32_step t b" for s t b
    using that by (auto simp: fnv1_32_step_def intro: inj_mult_odd [OF inv])
  show "b = c" if "fnv1_32_step s b = fnv1_32_step s c" for s b c
    using that by (simp add: fnv1_32_step_def)
qed

interpretation fnv1a_32: byte_hash fnv1a_32_step "\<lambda>h. h"
proof
  have inv: "FNV_32_PRIME * 0x359c449b = 1" by (simp add: FNV_32_PRIME_def)
  show "s = t" if "fnv1a_32_step s b = fnv1a_32_step t b" for s t b
    using that by (auto simp: fnv1a_32_step_def dest: inj_mult_odd [OF inv])
  show "b = c" if "fnv1a_32_step s b = fnv1a_32_step s c" for s b c
    using that by (auto simp: fnv1a_32_step_def dest: inj_mult_odd [OF inv])
qed

interpretation fnv1a_64: byte_hash fnv1a_64_step "\<lambda>h. h"
proof
  have inv: "ucast FNV_64_PRIME * 0xaff6957b = (1 :: u32)" by (simp add: FNV_64_PRIME_def)
  show "s = t" if "fnv1a_64_step s b = fnv1a_64_step t b" for s t b
    using that by (auto simp: fnv1a_64_step_def dest: inj_mult_odd [OF inv])
  show "b = c" if "fnv1a_64_step s b = fnv1a_64_step s c" for s b c
    using that by (auto simp: fnv1a_64_step_def dest: inj_mult_odd [OF inv])
qed

lemma one_at_a_time_mix_inj:
  assumes "v + push_bit 10 v XOR drop_bit 6 (v + push_bit 10 v)
    = w + push_bit 10 w XOR drop_bit 6 (w + push_bit 10 w)"
  shows "v = (w :: u32)"
proof -
  have "v + push_bit 10 v = w + push_bit 10 w"
    by (rule xor_drop_bit_inj [OF _ assms]) simp
  then show ?thesis by (rule add_push_bit_inj [where q = "0xc00ffc01", rotated]) simp
qed

interpretation one_at_a_time: byte_hash one_at_a_time_step one_at_a_time_fin
proof
  show "s = t" if "one_at_a_time_step s b = one_at_a_time_step t b" for s t b
    using that by (auto simp: one_at_a_time_step_def Let_def dest: one_at_a_time_mix_inj)
  show "b = c" if "one_at_a_time_step s b = one_at_a_time_step s c" for s b c
    using that by (auto simp: one_at_a_time_step_def Let_def dest: one_at_a_time_mix_inj)
  show "s = t" if eq: "one_at_a_time_fin s = one_at_a_time_fin t" for s t
  proof -
    have "(1 + 2 ^ 15) * 0x3fff8001 = (1 :: u32)" "(1 + 2 ^ 3) * 0x38e38e39 = (1 :: u32)" by simp_all
    then show ?thesis
      using eq unfolding one_at_a_time_fin_def Let_def
      by (metis add_push_bit_inj xor_drop_bit_inj zero_less_numeral)
  qed
qed

lemma fnv1a_64_low:
  "foldl fnv1a_64_step (ucast h) key
     = ucast (foldl (\<lambda>h k. (h XOR scast k) * FNV_64_PRIME) h key)"
proof (induction key arbitrary: h)
  case (Cons k key)
  have "fnv1a_64_step (ucast h) k = ucast ((h XOR scast k) * FNV_64_PRIME)"
    by (simp add: fnv1a_64_step_def ucast_mult_down)
      (rule arg_cong [where f = "\<lambda>x. x * _"], rule bit_word_eqI, auto simp: bit_simps)
  then show ?case by (simp add: Cons.IH)
qed simp

subsection \<open>Murmur mixing is invertible\<close>

lemma murmur_m_inv: "murmur_m * 0xe59b19bd = 1"
  by (simp add: murmur_m_def)

lemma murmur_m_inj [simp]: "x * murmur_m = y * murmur_m \<longleftrightarrow> x = y"
  using inj_mult_odd [OF murmur_m_inv] by blast

lemma murmur_mix_state_inj: "murmur_mix h k = murmur_mix h' k \<Longrightarrow> h = h'"
  by (simp add: murmur_mix_def Let_def)

lemma murmur_mix_block_inj: "murmur_mix h k = murmur_mix h k' \<Longrightarrow> k = k'"
  using xor_drop_bit_inj [of 24 "k * murmur_m" "k' * murmur_m"]
  by (simp add: murmur_mix_def Let_def)

lemma murmur_fin_inj: "murmur_fin h = murmur_fin h' \<longleftrightarrow> h = h'"
proof
  assume "murmur_fin h = murmur_fin h'"
  then have "(h XOR drop_bit 13 h) * murmur_m = (h' XOR drop_bit 13 h') * murmur_m"
    unfolding murmur_fin_def Let_def by (rule xor_drop_bit_inj [rotated]) simp
  then have "h XOR drop_bit 13 h = h' XOR drop_bit 13 h'" by simp
  then show "h = h'" by (rule xor_drop_bit_inj [rotated]) simp
qed simp

lemma murmur_loop_state_inj: "murmur_loop h bs = murmur_loop h' bs \<Longrightarrow> h = h'"
proof (induction h bs arbitrary: h' rule: murmur_loop.induct)
  case (1 h d0 d1 d2 d3 data)
  from "1.prems" have "murmur_mix h (word_of_nat (le_val [d0, d1, d2, d3]))
      = murmur_mix h' (word_of_nat (le_val [d0, d1, d2, d3]))"
    by (intro "1.IH") simp
  then show ?case by (rule murmur_mix_state_inj)
qed simp_all

lemma block_word_inj:
  assumes "length v = 4" and "length w = 4"
  shows "(word_of_nat (le_val v) :: u32) = word_of_nat (le_val w) \<longleftrightarrow> v = w"
proof -
  have "le_val v < 2 ^ 32" "le_val w < 2 ^ 32"
    using le_val_less [of v] le_val_less [of w] assms by simp_all
  then have "(word_of_nat (le_val v) :: u32) = word_of_nat (le_val w) \<longleftrightarrow> le_val v = le_val w"
    by (rule word_of_nat_inject_u32)
  then show ?thesis using assms by (metis le_bytes_le_val)
qed

lemma push_ucast_inj: "n \<le> 24 \<Longrightarrow> push_bit n (ucast b :: u32) = push_bit n (ucast c) \<longleftrightarrow> b = c"
  for b c :: u8
proof
  assume n: "n \<le> 24" and "push_bit n (ucast b :: u32) = push_bit n (ucast c)"
  then have "drop_bit n (push_bit n (ucast b :: u32)) = drop_bit n (push_bit n (ucast c))" by simp
  moreover have "drop_bit n (push_bit n (ucast x :: u32)) = ucast x" for x :: u8
    by (rule bit_word_eqI) (use n bit_imp_le_length [of x] in \<open>force simp: bit_simps\<close>)
  ultimately show "b = c" by simp
qed simp

lemma murmur_loop_byte_change:
  "i < length bs \<Longrightarrow> bs ! i \<noteq> c \<Longrightarrow> murmur_loop h bs \<noteq> murmur_loop h (bs[i := c])"
proof (induction h bs arbitrary: i rule: murmur_loop.induct)
  case (1 h d0 d1 d2 d3 data)
  show ?case
  proof (cases "i < 4")
    case True
    let ?b = "[d0, d1, d2, d3]"
    have eq: "(d0 # d1 # d2 # d3 # data)[i := c] = ?b[i := c] @ data"
      using True by (auto simp: less_Suc_eq numeral_eq_Suc)
    obtain e0 e1 e2 e3 where e: "?b[i := c] = [e0, e1, e2, e3]"
      using length_list_update [of ?b i c] by (auto simp: length_Suc_conv)
    have "?b ! i \<noteq> c" using "1.prems" True nth_append [of ?b data i] by simp
    moreover have "?b[i := c] ! i = c" using True by (simp del: list_update.simps)
    ultimately have "?b \<noteq> [e0, e1, e2, e3]" using e by metis
    then have "murmur_mix h (word_of_nat (le_val ?b)) \<noteq> murmur_mix h (word_of_nat (le_val [e0, e1, e2, e3]))"
      by (subst (asm) block_word_inj [symmetric]) (auto dest: murmur_mix_block_inj)
    then show ?thesis
      using eq e by (auto dest: murmur_loop_state_inj simp del: le_val.simps)
  next
    case False
    then have j: "i = Suc (Suc (Suc (Suc (i - 4))))" by simp
    have "murmur_loop h (d0 # d1 # d2 # d3 # data)
        \<noteq> murmur_loop h ((d0 # d1 # d2 # d3 # data)[Suc (Suc (Suc (Suc (i - 4)))) := c])"
      using "1.IH" [of "i - 4"] "1.prems" False by (simp add: eval_nat_numeral del: le_val.simps)
    then show ?thesis using j by simp
  qed
qed (auto simp: less_Suc_eq push_ucast_inj)

section \<open>Properties of the hash functions\<close>

text \<open>\<open>hash_crc32a\<close> is the CRC-32 of \<open>crc32.hpp\<close>, and \<open>hash_crc32\<close> keeps fifteen bits of
  it (bits 16 to 30), as the comment on its libmemcached compatibility says.\<close>

theorem hash_crc32_family:
  "hash_crc32a key = crc32_spec key
   \<and> hash_crc32 key = drop_bit 16 (crc32_spec key) AND 0x7fff"
  by (simp add: hash_crc32a_eq hash_crc32_eq rd_crc32_correct)

text \<open>The low sixteen bits of \<open>hash_crc16\<close> are the CRC-16 of the key with polynomial
  0x1021, initial value 0 and no reflection, although the code keeps the bits shifted out.\<close>

theorem hash_crc16_correct: "ucast (hash_crc16 key) = foldl crc16_spec_byte 0 key"
  by (simp add: hash_crc16_def crc16_loop_foldl)

text \<open>For \<open>hash_crc32a\<close>, \<open>hash_fnv1_32\<close>, \<open>hash_fnv1a_32\<close>, \<open>hash_fnv1a_64\<close> and
  \<open>hash_one_at_a_time\<close>, replacing one byte of a key by another always changes the hash.\<close>

theorem byte_hashes_see_one_byte:
  assumes "b \<noteq> c"
  shows "hash_crc32a (xs @ b # zs) \<noteq> hash_crc32a (xs @ c # zs)
    \<and> hash_fnv1_32 (xs @ b # zs) \<noteq> hash_fnv1_32 (xs @ c # zs)
    \<and> hash_fnv1a_32 (xs @ b # zs) \<noteq> hash_fnv1a_32 (xs @ c # zs)
    \<and> hash_fnv1a_64 (xs @ b # zs) \<noteq> hash_fnv1a_64 (xs @ c # zs)
    \<and> hash_one_at_a_time (xs @ b # zs) \<noteq> hash_one_at_a_time (xs @ c # zs)"
  using crc32.one_byte_change [OF assms, of crc32_init xs zs]
    fnv1_32.one_byte_change [OF assms, of FNV_32_INIT xs zs]
    fnv1a_32.one_byte_change [OF assms, of FNV_32_INIT xs zs]
    fnv1a_64.one_byte_change [OF assms, of "ucast FNV_64_INIT" xs zs]
    one_at_a_time.one_byte_change [OF assms, of 0 xs zs]
  by (simp add: hash_crc32a_eq rd_crc32_def update_foldl hash_fnv1_32_def hash_fnv1a_32_def
      hash_fnv1a_64_def hash_one_at_a_time_def)

theorem byte_hashes_see_one_byte_witness:
  "(2 :: u8) \<noteq> 4 \<and> hash_one_at_a_time ([1] @ 2 # [3]) \<noteq> hash_one_at_a_time ([1] @ 4 # [3])"
  using byte_hashes_see_one_byte [of 2 4 "[1]" "[3]"] by simp

text \<open>\<open>hash_murmur\<close> sees every change of one byte of a key of any length.\<close>

theorem hash_murmur_sees_one_byte:
  assumes "i < length key" and "key ! i \<noteq> c"
  shows "hash_murmur key \<noteq> hash_murmur (key[i := c])"
  using murmur_loop_byte_change [OF assms]
  by (simp add: hash_murmur_def Let_def murmur_fin_inj)

theorem hash_murmur_sees_one_byte_witness:
  "hash_murmur [1, 2, 3, 4, 5] \<noteq> hash_murmur ([1, 2, 3, 4, 5][4 := 6])"
  by (rule hash_murmur_sees_one_byte) simp_all

text \<open>\<open>hash_fnv1a_64\<close> computes with 32-bit words, yet its result is the low half of the
  64-bit FNV-1a hash of the same (sign-extended) characters.\<close>

theorem hash_fnv1a_64_is_low_half:
  "hash_fnv1a_64 key
     = ucast (foldl (\<lambda>hash k. (hash XOR scast k) * FNV_64_PRIME) FNV_64_INIT key)"
  by (simp add: hash_fnv1a_64_def fnv1a_64_low)

end
