(* ===== verification/Queues.thy ===== *)
theory Queues
  imports Prelude
begin

text \<open>
  The queues of \<open>src/libeventc++11/include/ec\<close>: \<open>SafeQueue\<close> (a list behind a mutex),
  \<open>SingleQueue\<close> (a ring buffer for one writer and one reader) and \<open>ExtendableSingleQueue\<close>
  (a ring with an overflow queue behind it). The locale \<open>bounded_fifo\<close> states what a bounded
  queue promises its clients: an abstraction to the list of the stored elements that push and
  pop extend and shorten. The ring buffer interprets it, and the overflow queue is proved over
  that interpretation. A step relation interleaves one writer and one reader on the ring, one
  memory access at a time.
\<close>

section \<open>The contract of a bounded queue\<close>

datatype 'a qop = Push 'a | Pop

locale bounded_fifo =
  fixes invar :: "'q \<Rightarrow> bool"
    and items :: "'q \<Rightarrow> 'a list"
    and limit :: "'q \<Rightarrow> nat"
    and push :: "'q \<Rightarrow> 'a \<Rightarrow> 'q"
    and pop :: "'q \<Rightarrow> 'q"
    and empty :: "'q \<Rightarrow> bool"
    and full :: "'q \<Rightarrow> bool"
    and front :: "'q \<Rightarrow> 'a"
  assumes empty_iff: "invar q \<Longrightarrow> empty q \<longleftrightarrow> items q = []"
    and full_iff: "invar q \<Longrightarrow> full q \<longleftrightarrow> length (items q) = limit q"
    and items_bound: "invar q \<Longrightarrow> length (items q) \<le> limit q"
    and push_items: "invar q \<Longrightarrow> \<not> full q \<Longrightarrow> items (push q x) = items q @ [x]"
    and push_invar: "invar q \<Longrightarrow> invar (push q x)"
    and push_limit: "invar q \<Longrightarrow> limit (push q x) = limit q"
    and pop_items: "invar q \<Longrightarrow> \<not> empty q \<Longrightarrow> items (pop q) = tl (items q)"
    and pop_invar: "invar q \<Longrightarrow> invar (pop q)"
    and pop_limit: "invar q \<Longrightarrow> limit (pop q) = limit q"
    and front_hd: "invar q \<Longrightarrow> \<not> empty q \<Longrightarrow> front q = hd (items q)"
begin

text \<open>A client that asks \<open>full\<close> before it pushes and \<open>empty\<close> before it pops; it collects what
  it pushed and what it popped.\<close>

fun run :: "'q \<times> 'a list \<times> 'a list \<Rightarrow> 'a qop list \<Rightarrow> 'q \<times> 'a list \<times> 'a list" where
  "run s [] = s"
| "run (q, pushed, popped) (Push x # ops) =
     run (if full q then (q, pushed, popped) else (push q x, pushed @ [x], popped)) ops"
| "run (q, pushed, popped) (Pop # ops) =
     run (if empty q then (q, pushed, popped) else (pop q, pushed, popped @ [front q])) ops"

lemma run_fifo:
  assumes "run (q, pushed, popped) ops = (q', pushed', popped')" and "invar q"
    and "popped @ items q = old @ pushed"
  shows "popped' @ items q' = old @ pushed'" and "invar q'"
proof -
  have "popped' @ items q' = old @ pushed' \<and> invar q'"
    using assms
  proof (induction "(q, pushed, popped)" ops arbitrary: q pushed popped rule: run.induct)
    case (2 q pushed popped x ops)
    then show ?case by (auto simp: push_items push_invar split: if_splits)
  next
    case (3 q pushed popped ops)
    then show ?case
      by (cases "items q") (auto simp: pop_items pop_invar front_hd empty_iff split: if_splits)
  qed auto
  then show "popped' @ items q' = old @ pushed'" and "invar q'" by simp_all
qed

lemma pushes_items:
  "invar q \<Longrightarrow> length (items q) + length xs \<le> limit q \<Longrightarrow>
   items (foldl push q xs) = items q @ xs \<and> invar (foldl push q xs)"
proof (induction xs arbitrary: q)
  case (Cons x xs)
  then have "\<not> full q" by (simp add: full_iff)
  with Cons show ?case by (simp add: push_items push_invar push_limit)
qed simp

end

section \<open>SafeQueue\<close>

text \<open>Every method holds the mutex for its whole body, so each is one atomic step on the list.
  The overload of \<open>moveAll\<close> with an out parameter returns the new value of that parameter.\<close>

record 'a safe_queue =
  sq_elements :: "'a list"

definition SafeQueue_push :: "'a safe_queue \<Rightarrow> 'a \<Rightarrow> 'a safe_queue" where
  "SafeQueue_push q t = q\<lparr>sq_elements := sq_elements q @ [t]\<rparr>"

definition SafeQueue_moveAll :: "'a safe_queue \<Rightarrow> 'a list \<times> 'a safe_queue" where
  "SafeQueue_moveAll q = (sq_elements q, q\<lparr>sq_elements := []\<rparr>)"

definition SafeQueue_moveAll_to :: "'a safe_queue \<Rightarrow> 'a list \<Rightarrow> 'a list \<times> 'a safe_queue" where
  "SafeQueue_moveAll_to q elements =
     (let elements' = sq_elements q in (elements', q\<lparr>sq_elements := []\<rparr>))"

definition SafeQueue_empty :: "'a safe_queue \<Rightarrow> bool" where
  "SafeQueue_empty q \<longleftrightarrow> sq_elements q = []"

definition SafeQueue_size :: "'a safe_queue \<Rightarrow> nat" where
  "SafeQueue_size q = length (sq_elements q)"

section \<open>SingleQueue\<close>

record 'a single_queue =
  elements :: "'a list"
  capacity :: u32
  frontPos :: u32
  rearPos :: u32

text \<open>The constructor allocates \<open>capacity + 1\<close> default-constructed cells; the sum wraps for the
  largest capacity. \<open>dflt\<close> is the default-constructed element.\<close>

definition SingleQueue :: "'a \<Rightarrow> u32 \<Rightarrow> 'a single_queue" where
  "SingleQueue dflt cap =
     \<lparr>elements = replicate (unat (cap + 1)) dflt, capacity = cap + 1, frontPos = 0, rearPos = 0\<rparr>"

definition SingleQueue_push :: "'a single_queue \<Rightarrow> 'a \<Rightarrow> 'a single_queue" where
  "SingleQueue_push q v =
     (let q1 = q\<lparr>elements := (elements q)[unat (rearPos q) := v]\<rparr>
      in q1\<lparr>rearPos := (rearPos q1 + 1) mod capacity q1\<rparr>)"

definition SingleQueue_pop :: "'a single_queue \<Rightarrow> 'a single_queue" where
  "SingleQueue_pop q = q\<lparr>frontPos := (frontPos q + 1) mod capacity q\<rparr>"

definition SingleQueue_empty :: "'a single_queue \<Rightarrow> bool" where
  "SingleQueue_empty q \<longleftrightarrow> frontPos q = rearPos q"

definition SingleQueue_full :: "'a single_queue \<Rightarrow> bool" where
  "SingleQueue_full q \<longleftrightarrow> (rearPos q + 1) mod capacity q = frontPos q"

definition SingleQueue_count :: "'a single_queue \<Rightarrow> u32" where
  "SingleQueue_count q =
     (if frontPos q \<le> rearPos q then rearPos q - frontPos q
      else capacity q + (rearPos q - frontPos q))"

definition SingleQueue_front :: "'a single_queue \<Rightarrow> 'a" where
  "SingleQueue_front q = elements q ! unat (frontPos q)"

definition SingleQueue_rear :: "'a single_queue \<Rightarrow> 'a" where
  "SingleQueue_rear q =
     elements q ! unat (if rearPos q = 0 then capacity q - 1 else rearPos q - 1)"

section \<open>ExtendableSingleQueue\<close>

record 'a ext_queue =
  singleQueue :: "'a single_queue"
  extendQueue :: "'a list"

definition ExtendableSingleQueue :: "'a \<Rightarrow> u32 \<Rightarrow> 'a ext_queue" where
  "ExtendableSingleQueue dflt cap = \<lparr>singleQueue = SingleQueue dflt cap, extendQueue = []\<rparr>"

text \<open>The loop of \<open>refresh\<close> moves the head of the overflow queue into the ring while the overflow
  queue has elements and the ring has room.\<close>

fun refresh_loop :: "'a single_queue \<Rightarrow> 'a list \<Rightarrow> 'a single_queue \<times> 'a list" where
  "refresh_loop q [] = (q, [])"
| "refresh_loop q (x # ext) =
     (if SingleQueue_full q then (q, x # ext) else refresh_loop (SingleQueue_push q x) ext)"

definition ExtendableSingleQueue_refresh :: "'a ext_queue \<Rightarrow> 'a ext_queue" where
  "ExtendableSingleQueue_refresh e =
     (let (q, ext) = refresh_loop (singleQueue e) (extendQueue e)
      in e\<lparr>singleQueue := q, extendQueue := ext\<rparr>)"

definition ExtendableSingleQueue_push :: "'a ext_queue \<Rightarrow> 'a \<Rightarrow> 'a ext_queue" where
  "ExtendableSingleQueue_push e v =
     (if SingleQueue_full (singleQueue e) then e\<lparr>extendQueue := extendQueue e @ [v]\<rparr>
      else if extendQueue e = [] then e\<lparr>singleQueue := SingleQueue_push (singleQueue e) v\<rparr>
      else ExtendableSingleQueue_refresh (e\<lparr>extendQueue := extendQueue e @ [v]\<rparr>))"

definition ExtendableSingleQueue_pop :: "'a ext_queue \<Rightarrow> 'a ext_queue" where
  "ExtendableSingleQueue_pop e = e\<lparr>singleQueue := SingleQueue_pop (singleQueue e)\<rparr>"

definition ExtendableSingleQueue_empty :: "'a ext_queue \<Rightarrow> bool" where
  "ExtendableSingleQueue_empty e \<longleftrightarrow> SingleQueue_empty (singleQueue e)"

definition ExtendableSingleQueue_count :: "'a ext_queue \<Rightarrow> u32" where
  "ExtendableSingleQueue_count e =
     SingleQueue_count (singleQueue e) + word_of_nat (length (extendQueue e))"

definition ExtendableSingleQueue_front :: "'a ext_queue \<Rightarrow> 'a" where
  "ExtendableSingleQueue_front e = SingleQueue_front (singleQueue e)"

section \<open>The ring as a list\<close>

definition ring_ok :: "'a single_queue \<Rightarrow> bool" where
  "ring_ok q \<longleftrightarrow> length (elements q) = unat (capacity q)
     \<and> frontPos q < capacity q \<and> rearPos q < capacity q"

definition ring_count :: "'a single_queue \<Rightarrow> nat" where
  "ring_count q =
     (unat (rearPos q) + unat (capacity q) - unat (frontPos q)) mod unat (capacity q)"

definition ring_items :: "'a single_queue \<Rightarrow> 'a list" where
  "ring_items q =
     map (\<lambda>i. elements q ! ((unat (frontPos q) + i) mod unat (capacity q))) [0..<ring_count q]"

definition ext_items :: "'a ext_queue \<Rightarrow> 'a list" where
  "ext_items e = ring_items (singleQueue e) @ extendQueue e"

section \<open>One writer and one reader\<close>

datatype 'a writer = WIdle | WStore 'a | WAdvance 'a

datatype 'a reader = RIdle | RFetch | RPop 'a

record 'a spsc =
  queue :: "'a single_queue"
  writer :: "'a writer"
  reader :: "'a reader"
  sent :: "'a list"
  received :: "'a list"

inductive spsc_step :: "'a spsc \<Rightarrow> 'a spsc \<Rightarrow> bool" where
  check_full: "writer s = WIdle \<Longrightarrow> \<not> SingleQueue_full (queue s) \<Longrightarrow>
    spsc_step s (s\<lparr>writer := WStore v\<rparr>)"
| store: "writer s = WStore v \<Longrightarrow>
    spsc_step s (s\<lparr>queue := (queue s)\<lparr>elements := (elements (queue s))[unat (rearPos (queue s)) := v]\<rparr>,
                   writer := WAdvance v\<rparr>)"
| advance: "writer s = WAdvance v \<Longrightarrow>
    spsc_step s (s\<lparr>queue := (queue s)\<lparr>rearPos := (rearPos (queue s) + 1) mod capacity (queue s)\<rparr>,
                   writer := WIdle, sent := sent s @ [v]\<rparr>)"
| check_empty: "reader s = RIdle \<Longrightarrow> \<not> SingleQueue_empty (queue s) \<Longrightarrow>
    spsc_step s (s\<lparr>reader := RFetch\<rparr>)"
| fetch: "reader s = RFetch \<Longrightarrow> spsc_step s (s\<lparr>reader := RPop (SingleQueue_front (queue s))\<rparr>)"
| pop: "reader s = RPop x \<Longrightarrow>
    spsc_step s (s\<lparr>queue := SingleQueue_pop (queue s), reader := RIdle, received := received s @ [x]\<rparr>)"

inductive spsc_reachable :: "'a \<Rightarrow> u32 \<Rightarrow> 'a spsc \<Rightarrow> bool" for d cap where
  start: "spsc_reachable d cap
    \<lparr>queue = SingleQueue d cap, writer = WIdle, reader = RIdle, sent = [], received = []\<rparr>"
| step: "spsc_reachable d cap s \<Longrightarrow> spsc_step s t \<Longrightarrow> spsc_reachable d cap t"

definition spsc_inv :: "'a spsc \<Rightarrow> bool" where
  "spsc_inv s \<longleftrightarrow> ring_ok (queue s) \<and> sent s = received s @ ring_items (queue s)
     \<and> (case writer s of WIdle \<Rightarrow> True | WStore v \<Rightarrow> \<not> SingleQueue_full (queue s)
         | WAdvance v \<Rightarrow> \<not> SingleQueue_full (queue s)
             \<and> elements (queue s) ! unat (rearPos (queue s)) = v)
     \<and> (case reader s of RIdle \<Rightarrow> True | RFetch \<Rightarrow> ring_items (queue s) \<noteq> []
         | RPop x \<Rightarrow> ring_items (queue s) \<noteq> [] \<and> hd (ring_items (queue s)) = x)"

section \<open>Arithmetic of the positions\<close>

lemma next_pos:
  assumes "p < (c :: u32)"
  shows "unat ((p + 1) mod c) = (if Suc (unat p) = unat c then 0 else Suc (unat p))"
proof -
  have lt: "unat p < unat c" using assms by (simp add: word_less_nat_alt)
  moreover have "unat c < 2 ^ LENGTH(32)" by (rule unsigned_less)
  ultimately have "unat (p + 1) = Suc (unat p)" by (simp add: unat_word_ariths)
  then show ?thesis using lt by (simp add: unat_mod mod_if)
qed

lemma ring_count_if:
  "ring_ok q \<Longrightarrow> ring_count q =
     (if unat (frontPos q) \<le> unat (rearPos q) then unat (rearPos q) - unat (frontPos q)
      else unat (rearPos q) + unat (capacity q) - unat (frontPos q))"
  by (auto simp: ring_ok_def ring_count_def word_less_nat_alt mod_if)

lemma wrap_add: "f < c \<Longrightarrow> i < c \<Longrightarrow> (f + i) mod c = (if f + i < c then f + i else f + i - c)"
  for f i c :: nat
  by (auto simp: mod_if)

lemma length_ring_items [simp]: "length (ring_items q) = ring_count q"
  by (simp add: ring_items_def)

lemma nth_ring_items:
  "i < ring_count q \<Longrightarrow>
   ring_items q ! i = elements q ! ((unat (frontPos q) + i) mod unat (capacity q))"
  by (simp add: ring_items_def)

lemma push_ring_ok: "ring_ok q \<Longrightarrow> ring_ok (SingleQueue_push q x)"
  by (auto simp: ring_ok_def SingleQueue_push_def Let_def word_less_nat_alt next_pos)

lemma pop_ring_ok: "ring_ok q \<Longrightarrow> ring_ok (SingleQueue_pop q)"
  by (auto simp: ring_ok_def SingleQueue_pop_def word_less_nat_alt next_pos)

lemma ring_count_less: "ring_ok q \<Longrightarrow> ring_count q < unat (capacity q)"
  by (simp add: ring_ok_def ring_count_def word_less_nat_alt)

lemma empty_iff_count: "ring_ok q \<Longrightarrow> SingleQueue_empty q \<longleftrightarrow> ring_count q = 0"
  by (auto simp: SingleQueue_empty_def ring_count_if ring_ok_def word_less_nat_alt
      word_unat_eq_iff split: if_splits)

lemma full_iff_count:
  "ring_ok q \<Longrightarrow> SingleQueue_full q \<longleftrightarrow> Suc (ring_count q) = unat (capacity q)"
  by (auto simp: SingleQueue_full_def ring_count_if ring_ok_def word_less_nat_alt next_pos
      word_unat_eq_iff split: if_splits)

lemma count_correct: "ring_ok q \<Longrightarrow> unat (SingleQueue_count q) = ring_count q"
proof -
  assume ok: "ring_ok q"
  show ?thesis
  proof (cases "frontPos q \<le> rearPos q")
    case True
    then show ?thesis
      using ok by (simp add: SingleQueue_count_def ring_count_if unat_sub word_le_nat_alt)
  next
    case False
    let ?c = "capacity q" and ?f = "frontPos q" and ?r = "rearPos q"
    have lt: "unat ?r < unat ?f" "unat ?f < unat ?c"
      using ok False by (simp_all add: ring_ok_def word_less_nat_alt word_le_nat_alt)
    have "unat ?c < 2 ^ LENGTH(32)" by (rule unsigned_less)
    have "unat (?c - ?f) = unat ?c - unat ?f"
      using lt by (intro unat_sub) (simp add: word_le_nat_alt)
    then have "unat ((?c - ?f) + ?r) = unat ?r + unat ?c - unat ?f"
      using lt \<open>unat ?c < 2 ^ LENGTH(32)\<close> by (simp add: unat_word_ariths(1))
    moreover have "(?c - ?f) + ?r = ?c + (?r - ?f)" by simp
    ultimately show ?thesis
      using ok False by (metis SingleQueue_count_def ring_count_if word_le_nat_alt)
  qed
qed

lemma push_count:
  "ring_ok q \<Longrightarrow> \<not> SingleQueue_full q \<Longrightarrow> ring_count (SingleQueue_push q x) = Suc (ring_count q)"
  using push_ring_ok [of q x] ring_count_less [of q]
  by (auto simp: full_iff_count ring_count_if)
     (auto simp: SingleQueue_push_def Let_def ring_ok_def word_less_nat_alt next_pos split: if_splits)

lemma pop_count:
  "ring_ok q \<Longrightarrow> \<not> SingleQueue_empty q \<Longrightarrow> Suc (ring_count (SingleQueue_pop q)) = ring_count q"
  using pop_ring_ok [of q]
  by (auto simp: empty_iff_count ring_count_if)
     (auto simp: SingleQueue_pop_def ring_ok_def word_less_nat_alt next_pos split: if_splits)

lemma rear_index:
  "ring_ok q \<Longrightarrow> (unat (frontPos q) + ring_count q) mod unat (capacity q) = unat (rearPos q)"
  by (auto simp: ring_count_if ring_ok_def word_less_nat_alt mod_if)

lemma index_neq_rear:
  "ring_ok q \<Longrightarrow> i < ring_count q \<Longrightarrow>
   (unat (frontPos q) + i) mod unat (capacity q) \<noteq> unat (rearPos q)"
  using ring_count_less [of q] wrap_add [of "unat (frontPos q)" "unat (capacity q)" i]
  by (simp add: ring_count_if ring_ok_def word_less_nat_alt split: if_splits)

lemma push_items_ring:
  assumes ok: "ring_ok q" and "\<not> SingleQueue_full q"
  shows "ring_items (SingleQueue_push q x) = ring_items q @ [x]"
proof (rule nth_equalityI)
  let ?q = "SingleQueue_push q x"
  have cnt: "ring_count ?q = Suc (ring_count q)" using assms by (rule push_count)
  then show "length (ring_items ?q) = length (ring_items q @ [x])" by simp
  fix i assume "i < length (ring_items ?q)"
  then have i: "i < ring_count q \<or> i = ring_count q" and lt: "i < ring_count ?q"
    using cnt by auto
  let ?j = "(unat (frontPos q) + i) mod unat (capacity q)"
  have "ring_items ?q ! i = (elements q)[unat (rearPos q) := x] ! ?j"
    using nth_ring_items [OF lt] by (simp add: SingleQueue_push_def Let_def)
  moreover have "unat (rearPos q) < length (elements q)"
    using ok by (simp add: ring_ok_def word_less_nat_alt)
  ultimately show "ring_items ?q ! i = (ring_items q @ [x]) ! i"
    using i rear_index [OF ok] index_neq_rear [OF ok, of i]
    by (auto simp: nth_append nth_ring_items)
qed

lemma pop_items_ring:
  assumes ok: "ring_ok q" and "\<not> SingleQueue_empty q"
  shows "ring_items (SingleQueue_pop q) = tl (ring_items q)"
proof (rule nth_equalityI)
  let ?q = "SingleQueue_pop q"
  have cnt: "Suc (ring_count ?q) = ring_count q" using assms by (rule pop_count)
  then show "length (ring_items ?q) = length (tl (ring_items q))" by simp
  fix i assume "i < length (ring_items ?q)"
  then have i: "Suc i < ring_count q" using cnt by simp
  have "unat (frontPos ?q) = Suc (unat (frontPos q)) mod unat (capacity q)"
    using ok by (simp add: SingleQueue_pop_def next_pos ring_ok_def word_less_nat_alt mod_if)
  then have "ring_items ?q ! i
      = elements q ! ((unat (frontPos q) + Suc i) mod unat (capacity q))"
    using i cnt by (simp add: nth_ring_items) (simp add: SingleQueue_pop_def mod_add_left_eq)
  then show "ring_items ?q ! i = tl (ring_items q) ! i"
    using i by (simp add: nth_ring_items nth_tl)
qed

lemma front_ring:
  assumes "ring_ok q" and "\<not> SingleQueue_empty q"
  shows "SingleQueue_front q = hd (ring_items q)"
proof -
  have "ring_items q \<noteq> []" using assms by (simp add: empty_iff_count flip: length_0_conv)
  then show ?thesis
    using assms by (simp add: hd_conv_nth nth_ring_items empty_iff_count SingleQueue_front_def
        ring_ok_def word_less_nat_alt)
qed

interpretation ring: bounded_fifo ring_ok ring_items "\<lambda>q. unat (capacity q) - 1"
  SingleQueue_push SingleQueue_pop SingleQueue_empty SingleQueue_full SingleQueue_front
proof
  fix q :: "'a single_queue" and x :: 'a
  assume ok: "ring_ok q"
  show "SingleQueue_empty q = (ring_items q = [])"
    using ok by (simp add: empty_iff_count flip: length_0_conv)
  show "SingleQueue_full q = (length (ring_items q) = unat (capacity q) - 1)"
    and "length (ring_items q) \<le> unat (capacity q) - 1"
    using ok ring_count_less [OF ok] by (auto simp: full_iff_count)
  show "ring_ok (SingleQueue_push q x)" and "ring_ok (SingleQueue_pop q)"
    using ok by (simp_all add: push_ring_ok pop_ring_ok)
  show "unat (capacity (SingleQueue_push q x)) - 1 = unat (capacity q) - 1"
    and "unat (capacity (SingleQueue_pop q)) - 1 = unat (capacity q) - 1"
    by (simp_all add: SingleQueue_push_def SingleQueue_pop_def Let_def)
  show "ring_items (SingleQueue_push q x) = ring_items q @ [x]" if "\<not> SingleQueue_full q"
    using ok that by (rule push_items_ring)
  show "ring_items (SingleQueue_pop q) = tl (ring_items q)"
    and "SingleQueue_front q = hd (ring_items q)" if "\<not> SingleQueue_empty q"
    using ok that by (simp_all add: pop_items_ring front_ring)
qed

subsection \<open>The last element and the new queue\<close>

lemma last_index:
  fixes f r c :: nat
  assumes "f < c" and "r < c" and n: "n = (if f \<le> r then r - f else r + c - f)" and "0 < n"
  shows "(f + (n - 1)) mod c = (if r = 0 then c - 1 else r - 1)"
proof (cases "f \<le> r")
  case True
  then have "f + (n - 1) = r - 1" using assms by simp
  then show ?thesis using assms True by simp
next
  case False
  then have eq: "f + (n - 1) = (if r = 0 then c - 1 else (r - 1) + c)" using assms by simp
  show ?thesis unfolding eq using assms(1,2) by (cases r) auto
qed

lemma rear_last:
  assumes ok: "ring_ok q" and "\<not> SingleQueue_empty q"
  shows "SingleQueue_rear q = last (ring_items q)"
proof -
  let ?c = "unat (capacity q)" and ?r = "unat (rearPos q)"
  have pos: "0 < ring_count q" using assms by (simp add: empty_iff_count)
  have c1: "unat (capacity q - 1) = ?c - 1"
    using ok by (intro unat_minus_one) (auto simp: ring_ok_def)
  have r1: "rearPos q \<noteq> 0 \<Longrightarrow> unat (rearPos q - 1) = ?r - 1" by (rule unat_minus_one)
  have "(unat (frontPos q) + (ring_count q - 1)) mod ?c = (if ?r = 0 then ?c - 1 else ?r - 1)"
    using ok pos ring_count_if [OF ok]
    by (intro last_index) (simp_all add: ring_ok_def word_less_nat_alt)
  then show ?thesis
    using pos c1 r1
    by (simp add: SingleQueue_rear_def last_conv_nth nth_ring_items unat_eq_zero flip: length_0_conv)
qed

lemma new_ring:
  assumes "cap \<noteq> - 1"
  shows "ring_ok (SingleQueue d cap)" and "ring_items (SingleQueue d cap) = []"
    and "unat (capacity (SingleQueue d cap)) = Suc (unat cap)"
proof -
  have "cap + 1 \<noteq> 0" using assms by (metis add_eq_0_iff minus_equation_iff add.commute)
  then have nz: "0 < cap + 1" and suc: "unat (cap + 1) = Suc (unat cap)"
    using unatSuc [of cap] by (simp_all add: word_neq_0_conv add.commute)
  show "ring_ok (SingleQueue d cap)" using nz by (simp add: ring_ok_def SingleQueue_def)
  show "ring_items (SingleQueue d cap) = []" using suc by (simp add: SingleQueue_def ring_items_def ring_count_def)
  show "unat (capacity (SingleQueue d cap)) = Suc (unat cap)" using suc by (simp add: SingleQueue_def)
qed

section \<open>The overflow queue as a list\<close>

lemma refresh_loop_items:
  "refresh_loop q ext = (q', ext') \<Longrightarrow> ring_ok q \<Longrightarrow>
   ring_ok q' \<and> ring_items q' @ ext' = ring_items q @ ext \<and> (ext' = [] \<or> SingleQueue_full q')"
proof (induction q ext rule: refresh_loop.induct)
  case (2 q x ext)
  then show ?case
    by (cases "SingleQueue_full q") (auto simp: ring.push_items ring.push_invar)
qed auto

lemma refresh_items:
  assumes "ring_ok (singleQueue e)"
  shows "ring_ok (singleQueue (ExtendableSingleQueue_refresh e))"
    and "ext_items (ExtendableSingleQueue_refresh e) = ext_items e"
    and "extendQueue (ExtendableSingleQueue_refresh e) = []
      \<or> SingleQueue_full (singleQueue (ExtendableSingleQueue_refresh e))"
  using refresh_loop_items [OF _ assms]
  by (auto simp: ExtendableSingleQueue_refresh_def ext_items_def split: prod.splits)

section \<open>Interleavings of the writer and the reader\<close>

lemma store_ring:
  assumes "ring_ok q"
  shows "ring_ok (q\<lparr>elements := (elements q)[unat (rearPos q) := v]\<rparr>)"
    and "ring_items (q\<lparr>elements := (elements q)[unat (rearPos q) := v]\<rparr>) = ring_items q"
    and "SingleQueue_full (q\<lparr>elements := (elements q)[unat (rearPos q) := v]\<rparr>) = SingleQueue_full q"
proof -
  show "ring_ok (q\<lparr>elements := (elements q)[unat (rearPos q) := v]\<rparr>)"
    using assms by (simp add: ring_ok_def)
  show "ring_items (q\<lparr>elements := (elements q)[unat (rearPos q) := v]\<rparr>) = ring_items q"
    using index_neq_rear [OF assms, THEN not_sym] by (simp add: ring_items_def ring_count_def)
qed (simp add: SingleQueue_full_def)

lemma advance_is_push:
  "q\<lparr>rearPos := (rearPos q + 1) mod capacity q\<rparr>
     = SingleQueue_push q (elements q ! unat (rearPos q))"
  by (cases q) (simp add: SingleQueue_push_def Let_def)

lemma rear_in_range [simp]: "ring_ok q \<Longrightarrow> unat (rearPos q) < length (elements q)"
  by (simp add: ring_ok_def word_less_nat_alt)

lemma pop_fields [simp]:
  "elements (SingleQueue_pop q) = elements q" "rearPos (SingleQueue_pop q) = rearPos q"
  "capacity (SingleQueue_pop q) = capacity q"
  by (simp_all add: SingleQueue_pop_def)

lemma pop_not_full:
  "ring_ok q \<Longrightarrow> \<not> SingleQueue_empty q \<Longrightarrow> \<not> SingleQueue_full (SingleQueue_pop q)"
  using pop_count [of q] ring_count_less [of q] by (simp add: full_iff_count pop_ring_ok)

lemma spsc_step_inv: "spsc_step s t \<Longrightarrow> spsc_inv s \<Longrightarrow> spsc_inv t"
proof (induction rule: spsc_step.induct)
  case (advance s v)
  then show ?case
    by (auto simp: spsc_inv_def advance_is_push ring.push_items ring.push_invar
        split: reader.splits)
next
  case (pop s x)
  then have ne: "\<not> SingleQueue_empty (queue s)"
    and ok: "ring_ok (queue s)" by (simp_all add: spsc_inv_def ring.empty_iff)
  from pop pop_not_full [OF ok ne] show ?case
    by (cases "ring_items (queue s)")
       (auto simp: spsc_inv_def ring.pop_items [OF ok ne] ring.pop_invar
        split: writer.splits)
qed (auto simp: spsc_inv_def store_ring ring.empty_iff ring.front_hd split: writer.splits reader.splits)


lemma reachable_spsc_inv:
  assumes "cap \<noteq> - 1"
  shows "spsc_reachable d cap s \<Longrightarrow> spsc_inv s"
proof (induction rule: spsc_reachable.induct)
  case start
  then show ?case using new_ring [OF assms, of d] by (simp add: spsc_inv_def)
next
  case (step s t)
  then show ?case by (blast intro: spsc_step_inv)
qed

section \<open>Properties of the queues\<close>



text \<open>Every operation of \<open>SingleQueue\<close> refines the list of its elements: a new queue is
  empty and holds \<open>cap\<close> elements, \<open>push\<close> below that bound appends, \<open>pop\<close> of a non-empty queue
  drops the head, \<open>front\<close> and \<open>rear\<close> read the ends, and \<open>empty\<close>, \<open>full\<close> and \<open>count\<close> (with its
  unsigned wrap-around) report the length.\<close>

theorem SingleQueue_refines_list:
  fixes q p :: "'a single_queue" and d :: 'a
  assumes "cap \<noteq> - 1" and "ring_ok q" and "\<not> SingleQueue_full q" and "ring_ok p" and "\<not> SingleQueue_empty p"
  shows "ring_ok (SingleQueue d cap) \<and> ring_items (SingleQueue d cap) = []
    \<and> unat (capacity (SingleQueue d cap)) = Suc (unat cap)
    \<and> ring_ok (SingleQueue_push q x) \<and> ring_items (SingleQueue_push q x) = ring_items q @ [x]
    \<and> ring_ok (SingleQueue_pop p) \<and> ring_items (SingleQueue_pop p) = tl (ring_items p)
    \<and> SingleQueue_front p = hd (ring_items p) \<and> SingleQueue_rear p = last (ring_items p)
    \<and> unat (SingleQueue_count p) = length (ring_items p)
    \<and> (SingleQueue_empty q \<longleftrightarrow> ring_items q = [])
    \<and> (SingleQueue_full p \<longleftrightarrow> Suc (length (ring_items p)) = unat (capacity p))"
  using assms new_ring [OF assms(1), of d]
  by (simp add: ring.push_items ring.push_invar ring.pop_items ring.pop_invar ring.front_hd
      rear_last count_correct ring.empty_iff full_iff_count)

theorem SingleQueue_refines_list_witness:
  "ring_items (SingleQueue_pop (SingleQueue_push (SingleQueue (0 :: nat) 2) 5)) = []
   \<and> SingleQueue_front (SingleQueue_push (SingleQueue (0 :: nat) 2) 5) = 5"
proof -
  let ?q = "SingleQueue (0 :: nat) 2"
  have q: "ring_ok ?q" "ring_items ?q = []" using new_ring [of 2 "0 :: nat"] by simp_all
  have nf: "\<not> SingleQueue_full ?q" by (simp add: SingleQueue_full_def SingleQueue_def)
  have p: "ring_ok (SingleQueue_push ?q 5)" "ring_items (SingleQueue_push ?q 5) = [5]"
    using q nf by (simp_all add: ring.push_invar ring.push_items)
  then have ne: "\<not> SingleQueue_empty (SingleQueue_push ?q 5)" by (simp add: ring.empty_iff)
  show ?thesis
    using SingleQueue_refines_list [OF _ q(1) nf p(1) ne, of 2 0 5] p(2) by auto
qed

text \<open>Any sequence of checked pushes and checked pops on a new \<open>SingleQueue\<close> pops the pushed
  elements first in, first out.\<close>

theorem SingleQueue_fifo_run:
  assumes "cap \<noteq> - 1"
    and "bounded_fifo.run SingleQueue_push SingleQueue_pop SingleQueue_empty SingleQueue_full
           SingleQueue_front (SingleQueue d cap, [], []) ops = (q, pushed, popped)"
  shows "popped @ ring_items q = pushed"
  using ring.run_fifo(1) [OF assms(2), of "[]"] new_ring [OF assms(1), of d] by simp

theorem SingleQueue_fifo_run_witness:
  "[1] @ ring_items (SingleQueue_push (SingleQueue_pop
     (SingleQueue_push (SingleQueue (0 :: nat) 2) 1)) 2) = [1, 2]"
proof -
  have "bounded_fifo.run SingleQueue_push SingleQueue_pop SingleQueue_empty SingleQueue_full
      SingleQueue_front (SingleQueue (0 :: nat) 2, [], []) [Push 1, Pop, Push 2]
    = (SingleQueue_push (SingleQueue_pop (SingleQueue_push (SingleQueue (0 :: nat) 2) 1)) 2,
       [1, 2], [1])"
    by (simp add: ring.run.simps SingleQueue_full_def SingleQueue_empty_def SingleQueue_front_def
        SingleQueue_push_def SingleQueue_pop_def SingleQueue_def Let_def)
  from SingleQueue_fifo_run [OF _ this] show ?thesis by simp
qed

text \<open>C15: \<open>ExtendableSingleQueue\<close> keeps first-in-first-out order across its ring and its overflow
  queue: \<open>push\<close> appends to the whole sequence in each of its three branches, \<open>refresh\<close> moves
  elements without changing the sequence and stops only when the overflow queue is empty or the
  ring is full, and \<open>pop\<close> drops the head when the ring is not empty.\<close>

theorem ExtendableSingleQueue_fifo:
  assumes "ring_ok (singleQueue e)"
  shows "ext_items (ExtendableSingleQueue_push e v) = ext_items e @ [v]
    \<and> ring_ok (singleQueue (ExtendableSingleQueue_push e v))
    \<and> ext_items (ExtendableSingleQueue_refresh e) = ext_items e
    \<and> (extendQueue (ExtendableSingleQueue_refresh e) = []
        \<or> SingleQueue_full (singleQueue (ExtendableSingleQueue_refresh e)))
    \<and> (ExtendableSingleQueue_empty e
        \<or> (ext_items (ExtendableSingleQueue_pop e) = tl (ext_items e)
            \<and> ExtendableSingleQueue_front e = hd (ext_items e)))"
proof -
  have "ext_items (ExtendableSingleQueue_push e v) = ext_items e @ [v]
      \<and> ring_ok (singleQueue (ExtendableSingleQueue_push e v))"
    using assms refresh_items [of "e\<lparr>extendQueue := extendQueue e @ [v]\<rparr>"]
    by (auto simp: ExtendableSingleQueue_push_def ext_items_def ring.push_items ring.push_invar)
  moreover have "ExtendableSingleQueue_empty e
        \<or> (ext_items (ExtendableSingleQueue_pop e) = tl (ext_items e)
            \<and> ExtendableSingleQueue_front e = hd (ext_items e))"
    using assms by (auto simp: ExtendableSingleQueue_empty_def ExtendableSingleQueue_pop_def
        ExtendableSingleQueue_front_def ext_items_def ring.pop_items ring.front_hd ring.empty_iff)
  ultimately show ?thesis using refresh_items [OF assms] by simp
qed

theorem ExtendableSingleQueue_fifo_witness:
  "ext_items (ExtendableSingleQueue_push (ExtendableSingleQueue (0 :: nat) 1) 4) = [4]"
  using ExtendableSingleQueue_fifo [of "ExtendableSingleQueue (0 :: nat) 1" 4] new_ring [of 1 "0 :: nat"]
  by (simp add: ExtendableSingleQueue_def ext_items_def)

text \<open>\<open>ExtendableSingleQueue::empty\<close> looks at the ring only. After the reader has drained the
  ring it reports an empty queue although \<open>count\<close> still counts elements in the overflow queue;
  they become visible again with the next \<open>push\<close> or \<open>refresh\<close>.\<close>

theorem ExtendableSingleQueue_empty_hides_overflow:
  "(let e = ExtendableSingleQueue_pop (ExtendableSingleQueue_push
       (ExtendableSingleQueue_push (ExtendableSingleQueue (0 :: nat) 1) 1) 2)
    in ExtendableSingleQueue_empty e \<and> ExtendableSingleQueue_count e = 1 \<and> ext_items e = [2]
       \<and> \<not> ExtendableSingleQueue_empty (ExtendableSingleQueue_refresh e))"
  by (simp add: ExtendableSingleQueue_pop_def ExtendableSingleQueue_push_def
      ExtendableSingleQueue_def ExtendableSingleQueue_empty_def ExtendableSingleQueue_count_def
      ExtendableSingleQueue_refresh_def ext_items_def SingleQueue_full_def SingleQueue_empty_def
      SingleQueue_push_def SingleQueue_pop_def SingleQueue_count_def SingleQueue_def
      ring_items_def ring_count_def Let_def)

text \<open>\<open>SafeQueue\<close>: pushes followed by \<open>moveAll\<close> give the earlier elements and then the pushed
  ones, in order, and leave the queue empty; the overload with a list parameter replaces the
  list's contents instead of appending to them as its comment says.\<close>

theorem SafeQueue_moveAll_order:
  "SafeQueue_moveAll (foldl SafeQueue_push q xs) = (sq_elements q @ xs, q\<lparr>sq_elements := []\<rparr>)
   \<and> SafeQueue_empty (snd (SafeQueue_moveAll q)) \<and> SafeQueue_size (foldl SafeQueue_push q xs) = SafeQueue_size q + length xs
   \<and> fst (SafeQueue_moveAll_to q ys) = sq_elements q"
proof -
  have "foldl SafeQueue_push q xs = q\<lparr>sq_elements := sq_elements q @ xs\<rparr>"
    by (induction xs arbitrary: q) (simp_all add: SafeQueue_push_def)
  then show ?thesis
    by (simp add: SafeQueue_moveAll_def SafeQueue_empty_def SafeQueue_size_def SafeQueue_moveAll_to_def)
qed

end
