(* ===== verification/EcStream.thy ===== *)
theory EcStream
  imports Prelude "HOL-Library.Monad_Syntax"
begin

text \<open>
  \<open>StreamWriter\<close> and \<open>StreamReader\<close> of \<open>src/libeventc++11/include/ec/stream.h\<close>: the byte stream
  in which the library's users pack scalars, strings and containers. A writer is its buffer; a
  reader is the buffer it reads, the buffer's size and a position, with the 32-bit and 16-bit
  arithmetic of the code. A read of memory outside the buffer is the outer \<open>None\<close>. Variables that
  the code declares without initialising (\<open>strLen\<close>, \<open>itemCount\<close>, the element of a loop) have an
  arbitrary value, a parameter of the model.

  The operators on containers call the operator of their element type, so they take the element's
  writer and reader as arguments. The locale \<open>stream_codec\<close> is the contract of such a pair:
  what was written is read back. The theory proves that the containers inherit it.
\<close>

section \<open>Scalars\<close>

text \<open>A plain type: its size, its bytes in memory, and the value that bytes in memory have.\<close>

record 't pod =
  pod_size :: nat
  pod_bytes :: "'t \<Rightarrow> bytes"
  pod_of :: "bytes \<Rightarrow> 't"

definition word_pod :: "nat \<Rightarrow> 'a::len word pod" where
  "word_pod n = \<lparr>pod_size = n, pod_bytes = (\<lambda>w. le_bytes n (unat w)),
     pod_of = (\<lambda>bs. word_of_nat (le_val bs))\<rparr>"

definition pod_u8 :: "u8 pod" where "pod_u8 = word_pod 1"
definition pod_u16 :: "u16 pod" where "pod_u16 = word_pod 2"
definition pod_u32 :: "u32 pod" where "pod_u32 = word_pod 4"
definition pod_u64 :: "u64 pod" where "pod_u64 = word_pod 8"

section \<open>StreamWriter\<close>

record stream_writer =
  buf :: bytes

text \<open>The constructor reserves memory only.\<close>

definition StreamWriter :: "u32 \<Rightarrow> stream_writer" where
  "StreamWriter size0 = \<lparr>buf = []\<rparr>"

text \<open>Both conversions to a pointer give null for an empty buffer.\<close>

definition StreamWriter_data :: "stream_writer \<Rightarrow> bytes option" where
  "StreamWriter_data w = (if buf w = [] then None else Some (buf w))"

definition StreamWriter_size :: "stream_writer \<Rightarrow> u32" where
  "StreamWriter_size w = word_of_nat (length (buf w))"

definition StreamWriter_put :: "stream_writer \<Rightarrow> bytes \<Rightarrow> stream_writer" where
  "StreamWriter_put w data = w\<lparr>buf := buf w @ data\<rparr>"

text \<open>\<open>put(const T &)\<close> and the generic \<open>operator <<\<close> have the same body.\<close>

definition write_pod :: "'t pod \<Rightarrow> stream_writer \<Rightarrow> 't \<Rightarrow> stream_writer" where
  "write_pod p w v = StreamWriter_put w (pod_bytes p v)"

definition write_string :: "stream_writer \<Rightarrow> bytes \<Rightarrow> stream_writer" where
  "write_string w v =
     StreamWriter_put (write_pod pod_u16 w (word_of_nat (length v))) v"

definition write_vector :: "'t pod \<Rightarrow> stream_writer \<Rightarrow> 't list \<Rightarrow> stream_writer" where
  "write_vector p w vals =
     (let itemCount = word_of_nat (length vals) :: u16;
          w1 = write_pod pod_u16 w itemCount
      in if itemCount > 0
         then StreamWriter_put w1 (concat (map (pod_bytes p) (take (unat itemCount) vals)))
         else w1)"

text \<open>The count is the size truncated to 16 bits; the loop writes every element.\<close>

definition write_list ::
  "(stream_writer \<Rightarrow> 't \<Rightarrow> stream_writer) \<Rightarrow> stream_writer \<Rightarrow> 't list \<Rightarrow> stream_writer" where
  "write_list wr w vals = foldl wr (write_pod pod_u16 w (word_of_nat (length vals))) vals"

text \<open>A \<open>std::set\<close> iterates in ascending order.\<close>

definition write_set ::
  "(stream_writer \<Rightarrow> 't::linorder \<Rightarrow> stream_writer) \<Rightarrow> stream_writer \<Rightarrow> 't set \<Rightarrow> stream_writer" where
  "write_set wr w vals =
     foldl wr (write_pod pod_u16 w (word_of_nat (card vals))) (sorted_list_of_set vals)"

text \<open>A \<open>std::map\<close> is the list of its entries in ascending order of the keys.\<close>

definition write_map ::
  "(stream_writer \<Rightarrow> 'k \<Rightarrow> stream_writer) \<Rightarrow> (stream_writer \<Rightarrow> 'v \<Rightarrow> stream_writer) \<Rightarrow>
     stream_writer \<Rightarrow> ('k \<times> 'v) list \<Rightarrow> stream_writer" where
  "write_map wrk wrv w vals =
     foldl (\<lambda>w e. wrv (wrk w (fst e)) (snd e))
       (write_pod pod_u16 w (word_of_nat (length vals))) vals"

definition putSequence ::
  "(stream_writer \<Rightarrow> 't \<Rightarrow> stream_writer) \<Rightarrow> stream_writer \<Rightarrow> 't list \<Rightarrow> stream_writer" where
  "putSequence wr w vals = foldl wr (write_pod pod_u16 w (word_of_nat (length vals))) vals"

section \<open>StreamReader\<close>

record stream_reader =
  rdata :: bytes
  rsize :: u32
  rpos :: u32

definition StreamReader :: "bytes \<Rightarrow> u32 \<Rightarrow> stream_reader" where
  "StreamReader bs bufLength = \<lparr>rdata = bs, rsize = bufLength, rpos = 0\<rparr>"

definition StreamReader_left :: "stream_reader \<Rightarrow> u32" where
  "StreamReader_left r = rsize r - rpos r"

text \<open>The \<open>n\<close> bytes of memory at the reader's position; \<open>None\<close> where they are not all in the
  buffer.\<close>

definition mem_at :: "stream_reader \<Rightarrow> nat \<Rightarrow> bytes option" where
  "mem_at r n =
     (if unat (rpos r) + n \<le> length (rdata r) then Some (take n (drop (unat (rpos r)) (rdata r)))
      else None)"

text \<open>\<open>get\<close>: the inner \<open>None\<close> is the early return that copies nothing.\<close>

definition StreamReader_get :: "stream_reader \<Rightarrow> u32 \<Rightarrow> (bytes option \<times> stream_reader) option" where
  "StreamReader_get r dataLen =
     (if rpos r + dataLen > rsize r then Some (None, r)
      else do {
        bs \<leftarrow> mem_at r (unat dataLen);
        Some (Some bs, r\<lparr>rpos := rpos r + dataLen\<rparr>)
      })"

text \<open>The generic \<open>operator >>\<close>: where the buffer is too short the variable keeps its value.\<close>

definition read_pod :: "'t pod \<Rightarrow> 't \<Rightarrow> stream_reader \<Rightarrow> ('t \<times> stream_reader) option" where
  "read_pod p v r = do {
     (got, r') \<leftarrow> StreamReader_get r (word_of_nat (pod_size p));
     Some (case got of None \<Rightarrow> (v, r') | Some bs \<Rightarrow> (pod_of p bs, r'))
   }"

definition read_string :: "u16 \<Rightarrow> bytes \<Rightarrow> stream_reader \<Rightarrow> (bytes \<times> stream_reader) option" where
  "read_string junk v r = do {
     (strLen0, r1) \<leftarrow> read_pod pod_u16 junk r;
     let leftSize = StreamReader_left r1;
     let strLen = (if ucast strLen0 > leftSize then ucast leftSize else strLen0);
     if strLen > 0
     then do {
       bs \<leftarrow> mem_at r1 (unat strLen);
       Some (bs, r1\<lparr>rpos := rpos r1 + ucast strLen\<rparr>)
     }
     else Some (v, r1)
   }"

fun chunks :: "nat \<Rightarrow> nat \<Rightarrow> bytes \<Rightarrow> bytes list" where
  "chunks w 0 bs = []"
| "chunks w (Suc n) bs = take w bs # chunks w n (drop w bs)"

definition read_vector ::
  "'t pod \<Rightarrow> u16 \<Rightarrow> 't list \<Rightarrow> stream_reader \<Rightarrow> ('t list \<times> stream_reader) option" where
  "read_vector p junk vals r = do {
     (itemCount0, r1) \<leftarrow> read_pod pod_u16 junk r;
     let leftSize = StreamReader_left r1;
     let needSize0 = (word_of_nat (unat itemCount0 * pod_size p) :: u32);
     let itemCount = (if leftSize < needSize0
                      then word_of_nat (unat leftSize div pod_size p) else itemCount0);
     let needSize = (if leftSize < needSize0
                     then word_of_nat (unat itemCount * pod_size p) else needSize0);
     if itemCount > 0
     then do {
       bs \<leftarrow> mem_at r1 (unat needSize);
       Some (map (pod_of p) (chunks (pod_size p) (unat itemCount) bs), r1\<lparr>rpos := rpos r1 + needSize\<rparr>)
     }
     else Some (vals, r1)
   }"

text \<open>The element loop of the list, set and map readers: \<open>fresh\<close> is the freshly declared element
  variable, and the element is added to the container by \<open>add\<close>.\<close>

fun read_items ::
  "('t \<Rightarrow> stream_reader \<Rightarrow> ('t \<times> stream_reader) option) \<Rightarrow> 't \<Rightarrow> ('c \<Rightarrow> 't \<Rightarrow> 'c) \<Rightarrow>
     nat \<Rightarrow> 'c \<Rightarrow> stream_reader \<Rightarrow> ('c \<times> stream_reader) option" where
  "read_items rd fresh add 0 vals r = Some (vals, r)"
| "read_items rd fresh add (Suc n) vals r = do {
     (v, r') \<leftarrow> rd fresh r;
     read_items rd fresh add n (add vals v) r'
   }"

definition read_list ::
  "('t \<Rightarrow> stream_reader \<Rightarrow> ('t \<times> stream_reader) option) \<Rightarrow> 't \<Rightarrow> 't list \<Rightarrow> stream_reader \<Rightarrow>
     ('t list \<times> stream_reader) option" where
  "read_list rd fresh vals r = do {
     (itemCount, r1) \<leftarrow> read_pod pod_u16 0 r;
     read_items rd fresh (\<lambda>vs v. vs @ [v]) (unat itemCount) vals r1
   }"

definition read_set ::
  "('t \<Rightarrow> stream_reader \<Rightarrow> ('t \<times> stream_reader) option) \<Rightarrow> 't \<Rightarrow> 't set \<Rightarrow> stream_reader \<Rightarrow>
     ('t set \<times> stream_reader) option" where
  "read_set rd fresh vals r = do {
     (itemCount, r1) \<leftarrow> read_pod pod_u16 0 r;
     read_items rd fresh (\<lambda>vs v. insert v vs) (unat itemCount) vals r1
   }"

text \<open>\<open>std::map::insert\<close> keeps an entry whose key is there already.\<close>

fun map_insert :: "('k::linorder \<times> 'v) list \<Rightarrow> 'k \<times> 'v \<Rightarrow> ('k \<times> 'v) list" where
  "map_insert [] e = [e]"
| "map_insert (f # m) e =
     (if fst e < fst f then e # f # m else if fst e = fst f then f # m else f # map_insert m e)"

definition read_pair ::
  "('k \<Rightarrow> stream_reader \<Rightarrow> ('k \<times> stream_reader) option) \<Rightarrow>
   ('v \<Rightarrow> stream_reader \<Rightarrow> ('v \<times> stream_reader) option) \<Rightarrow>
     'k \<times> 'v \<Rightarrow> stream_reader \<Rightarrow> (('k \<times> 'v) \<times> stream_reader) option" where
  "read_pair rdk rdv e r = do {
     (k, r1) \<leftarrow> rdk (fst e) r;
     (v, r2) \<leftarrow> rdv (snd e) r1;
     Some ((k, v), r2)
   }"

definition read_map ::
  "('k::linorder \<Rightarrow> stream_reader \<Rightarrow> ('k \<times> stream_reader) option) \<Rightarrow>
   ('v \<Rightarrow> stream_reader \<Rightarrow> ('v \<times> stream_reader) option) \<Rightarrow>
     'k \<times> 'v \<Rightarrow> ('k \<times> 'v) list \<Rightarrow> stream_reader \<Rightarrow> (('k \<times> 'v) list \<times> stream_reader) option" where
  "read_map rdk rdv fresh vals r = do {
     (itemCount, r1) \<leftarrow> read_pod pod_u16 0 r;
     read_items (read_pair rdk rdv) fresh map_insert (unat itemCount) vals r1
   }"

text \<open>\<open>getSequence\<close>: here \<open>needSize\<close> has 16 bits. \<open>sz\<close> is the size of the element type.\<close>

definition getSequence ::
  "nat \<Rightarrow> ('t \<Rightarrow> stream_reader \<Rightarrow> ('t \<times> stream_reader) option) \<Rightarrow> 't \<Rightarrow> u16 \<Rightarrow> 't list \<Rightarrow>
     stream_reader \<Rightarrow> ('t list \<times> stream_reader) option" where
  "getSequence sz rd fresh junk vals r = do {
     (itemCount0, r1) \<leftarrow> read_pod pod_u16 junk r;
     let leftSize = StreamReader_left r1;
     let needSize = (word_of_nat (unat itemCount0 * sz) :: u16);
     let itemCount = (if ucast needSize > leftSize
                      then word_of_nat (unat leftSize div sz) else itemCount0);
     read_items rd fresh (\<lambda>vs v. vs @ [v]) (unat itemCount) vals r1
   }"

section \<open>Well-formed readers\<close>

text \<open>A plain type whose values survive a copy through memory.\<close>

definition pod_ok :: "'t pod \<Rightarrow> bool" where
  "pod_ok p \<longleftrightarrow> (\<forall>v. length (pod_bytes p v) = pod_size p \<and> pod_of p (pod_bytes p v) = v)"

text \<open>The reader stands in its buffer between \<open>pre\<close> and \<open>rest\<close>; it advances by \<open>skip\<close>; the
  count that precedes a container is \<open>count_bytes\<close>.\<close>

definition reader_at :: "stream_reader \<Rightarrow> bytes \<Rightarrow> bytes \<Rightarrow> bool" where
  "reader_at r pre rest \<longleftrightarrow> rdata r = pre @ rest \<and> unat (rpos r) = length pre
     \<and> unat (rsize r) = length (rdata r)"

definition skip :: "stream_reader \<Rightarrow> nat \<Rightarrow> stream_reader" where
  "skip r n = r\<lparr>rpos := rpos r + word_of_nat n\<rparr>"

definition count_bytes :: "nat \<Rightarrow> bytes" where
  "count_bytes n = pod_bytes pod_u16 (word_of_nat n)"

text \<open>A reader whose position is inside a buffer of its declared size, the buffer ending at least 64
  KiB below the end of the 32-bit range; and what every read keeps of it.\<close>

definition in_buf :: "stream_reader \<Rightarrow> bool" where
  "in_buf r \<longleftrightarrow> unat (rsize r) = length (rdata r) \<and> rpos r \<le> rsize r
     \<and> unat (rsize r) + 2 ^ 16 \<le> 2 ^ 32"

definition moved :: "stream_reader \<Rightarrow> stream_reader \<Rightarrow> bool" where
  "moved r r' \<longleftrightarrow> in_buf r' \<and> rdata r' = rdata r \<and> rsize r' = rsize r \<and> rpos r \<le> rpos r'"

section \<open>Round trips\<close>

lemma word_pod_ok: "LENGTH('a::len) = 8 * n \<Longrightarrow> pod_ok (word_pod n :: 'a word pod)"
proof -
  assume len: "LENGTH('a) = 8 * n"
  have "unat w < 256 ^ n" for w :: "'a word"
    using unsigned_less [of w] len by (simp add: power_mult)
  then show ?thesis by (simp add: pod_ok_def word_pod_def le_val_le_bytes)
qed

lemma pods_ok [simp]: "pod_ok pod_u8" "pod_ok pod_u16" "pod_ok pod_u32" "pod_ok pod_u64"
  by (simp_all add: pod_u8_def pod_u16_def pod_u32_def pod_u64_def word_pod_ok)

lemma length_pod [simp]: "pod_ok p \<Longrightarrow> length (pod_bytes p v) = pod_size p"
  by (simp add: pod_ok_def)

lemma pod_sizes [simp]:
  "pod_size pod_u8 = 1" "pod_size pod_u16 = 2" "pod_size pod_u32 = 4" "pod_size pod_u64 = 8"
  by (simp_all add: pod_u8_def pod_u16_def pod_u32_def pod_u64_def word_pod_def)

lemma length_count_bytes [simp]: "length (count_bytes n) = 2"
  by (simp add: count_bytes_def)

lemma pos_add:
  assumes "reader_at r pre (bs @ rest)"
  shows "unat (rpos r + word_of_nat (length bs)) = length pre + length bs"
proof -
  have "unat (rsize r) < 2 ^ LENGTH(32)" by (rule unsigned_less)
  then have "length pre + length bs < 2 ^ 32" using assms by (simp add: reader_at_def)
  then show ?thesis using assms by (simp add: reader_at_def unat_word_ariths unat_of_nat)
qed

lemma skip_at: "reader_at r pre (bs @ rest) \<Longrightarrow> reader_at (skip r (length bs)) (pre @ bs) rest"
  using pos_add [of r pre bs rest] by (simp add: reader_at_def skip_def)

lemma skip_skip [simp]: "skip (skip r m) n = skip r (m + n)"
  by (simp add: skip_def add.assoc)

lemma mem_at_at: "reader_at r pre (bs @ rest) \<Longrightarrow> mem_at r (length bs) = Some bs"
  by (simp add: mem_at_def reader_at_def)

lemma left_at:
  assumes "reader_at r pre rest"
  shows "unat (StreamReader_left r) = length rest"
  using assms unat_sub [of "rpos r" "rsize r"]
  by (simp add: StreamReader_left_def reader_at_def word_le_nat_alt)

lemma get_at:
  assumes "reader_at r pre (bs @ rest)"
  shows "StreamReader_get r (word_of_nat (length bs)) = Some (Some bs, skip r (length bs))"
proof -
  have "unat (rsize r) < 2 ^ LENGTH(32)" by (rule unsigned_less)
  then have "unat (word_of_nat (length bs) :: u32) = length bs"
    using assms by (simp add: reader_at_def unat_of_nat)
  moreover have "\<not> rsize r < rpos r + word_of_nat (length bs)"
    using pos_add [OF assms] assms by (simp add: word_less_nat_alt reader_at_def)
  ultimately show ?thesis
    using mem_at_at [OF assms] by (simp add: StreamReader_get_def skip_def)
qed

lemma read_pod_at:
  assumes "pod_ok p" and "reader_at r pre (pod_bytes p v @ rest)"
  shows "read_pod p old r = Some (v, skip r (length (pod_bytes p v)))"
  using get_at [OF assms(2)] assms(1) by (simp add: read_pod_def pod_ok_def)

lemma read_count_at:
  assumes "reader_at r pre (count_bytes n @ rest)" and "n < 65536"
  shows "read_pod pod_u16 old r = Some (word_of_nat n, skip r 2)"
    and "unat (word_of_nat n :: u16) = n"
  using read_pod_at [of pod_u16 r pre "word_of_nat n" rest old] assms
  by (simp_all add: count_bytes_def unat_of_nat)

section \<open>The contract of an element type\<close>

locale stream_codec =
  fixes wr :: "stream_writer \<Rightarrow> 't \<Rightarrow> stream_writer"
    and rd :: "'t \<Rightarrow> stream_reader \<Rightarrow> ('t \<times> stream_reader) option"
    and fresh :: 't
    and enc :: "'t \<Rightarrow> bytes"
    and ok :: "'t \<Rightarrow> bool"
  assumes wr_enc: "wr w v = StreamWriter_put w (enc v)"
    and rd_enc: "ok v \<Longrightarrow> reader_at r pre (enc v @ rest) \<Longrightarrow>
      rd fresh r = Some (v, skip r (length (enc v)))"
begin

lemma foldl_wr: "foldl wr w vs = StreamWriter_put w (concat (map enc vs))"
proof (induction vs arbitrary: w)
  case Nil
  then show ?case by (simp add: StreamWriter_put_def)
next
  case (Cons v vs)
  then show ?case by (simp add: wr_enc StreamWriter_put_def)
qed

lemma read_items_enc:
  "reader_at r pre (concat (map enc vs) @ rest) \<Longrightarrow> \<forall>v\<in>set vs. ok v \<Longrightarrow>
   read_items rd fresh add (length vs) acc r
     = Some (foldl add acc vs, skip r (length (concat (map enc vs))))"
proof (induction vs arbitrary: r pre acc)
  case Nil
  then show ?case by (simp add: skip_def)
next
  case (Cons v vs)
  have "rd fresh r = Some (v, skip r (length (enc v)))"
    using Cons.prems by (intro rd_enc) simp_all
  moreover have "reader_at (skip r (length (enc v))) (pre @ enc v) (concat (map enc vs) @ rest)"
    using Cons.prems by (intro skip_at) simp
  ultimately show ?case using Cons.IH Cons.prems(2) by simp
qed

lemma read_counted:
  assumes "reader_at r pre (count_bytes (length vs) @ concat (map enc vs) @ rest)"
    and "length vs < 65536" and "\<forall>v\<in>set vs. ok v"
  shows "do { (itemCount, r1) \<leftarrow> read_pod pod_u16 old r;
              read_items rd fresh add (unat itemCount) acc r1 }
    = Some (foldl add acc vs, skip r (2 + length (concat (map enc vs))))"
proof -
  have "reader_at (skip r 2) (pre @ count_bytes (length vs)) (concat (map enc vs) @ rest)"
    using skip_at [OF assms(1)] by simp
  from read_items_enc [OF this assms(3)] show ?thesis
    using read_count_at [OF assms(1,2)] by simp
qed

lemma list_codec:
  "stream_codec (write_list wr) (read_list rd fresh) []
     (\<lambda>vs. count_bytes (length vs) @ concat (map enc vs))
     (\<lambda>vs. length vs < 65536 \<and> (\<forall>v\<in>set vs. ok v))"
proof
  have app: "foldl (\<lambda>vs v. vs @ [v]) acc vs = acc @ vs" for acc vs :: "'t list"
    by (induction vs arbitrary: acc) simp_all
  show "write_list wr w vs = StreamWriter_put w (count_bytes (length vs) @ concat (map enc vs))" for w vs
    by (simp add: write_list_def write_pod_def foldl_wr StreamWriter_put_def count_bytes_def)
  show "read_list rd fresh [] r = Some (vs, skip r (length (count_bytes (length vs) @ concat (map enc vs))))"
    if "length vs < 65536 \<and> (\<forall>v\<in>set vs. ok v)"
      and "reader_at r pre ((count_bytes (length vs) @ concat (map enc vs)) @ rest)" for vs r pre rest
    using read_counted [of r pre vs rest 0 "\<lambda>vs v. vs @ [v]" "[]"] that
    by (simp add: read_list_def app)
qed


end

lemma foldl_insert: "foldl (\<lambda>vs v. insert v vs) acc vs = acc \<union> set vs"
  by (induction vs arbitrary: acc) auto

lemma map_insert_last:
  "\<forall>f\<in>set m. fst f < fst e \<Longrightarrow> map_insert m e = m @ [e]"
  by (induction m) auto

lemma foldl_map_insert:
  "sorted_wrt (\<lambda>e f. fst e < fst f) (acc @ m) \<Longrightarrow> foldl map_insert acc m = acc @ m"
proof (induction m arbitrary: acc)
  case (Cons e m)
  have "map_insert acc e = acc @ [e]"
    using Cons.prems by (intro map_insert_last) (auto simp: sorted_wrt_append)
  then show ?case using Cons.IH [of "acc @ [e]"] Cons.prems by simp
qed simp

lemma pod_codec: "pod_ok p \<Longrightarrow> stream_codec (write_pod p) (read_pod p) fresh (pod_bytes p) (\<lambda>_. True)"
  by unfold_locales (simp_all add: write_pod_def read_pod_at)

lemma string_codec:
  "stream_codec write_string (read_string junk) [] (\<lambda>v. count_bytes (length v) @ v)
     (\<lambda>v. length v < 65536)"
proof
  show "write_string w v = StreamWriter_put w (count_bytes (length v) @ v)" for w v
    by (simp add: write_string_def write_pod_def StreamWriter_put_def count_bytes_def)
  show "read_string junk [] r = Some (v, skip r (length (count_bytes (length v) @ v)))"
    if len: "length v < 65536" and "reader_at r pre ((count_bytes (length v) @ v) @ rest)" for v r pre rest
  proof -
    have at: "reader_at r pre (count_bytes (length v) @ v @ rest)" using that by simp
    have at2: "reader_at (skip r 2) (pre @ count_bytes (length v)) (v @ rest)"
      using skip_at [OF at] by simp
    have "unat (ucast (word_of_nat (length v) :: u16) :: u32) = length v"
      using read_count_at(2) [OF at len] by (simp add: unat_ucast_up)
    then have "\<not> ucast (word_of_nat (length v) :: u16) > StreamReader_left (skip r 2)"
      using left_at [OF at2] by (simp add: word_less_nat_alt)
    moreover have "word_of_nat (length v) > (0 :: u16) \<longleftrightarrow> v \<noteq> []"
      using read_count_at(2) [OF at len] by (simp add: word_less_nat_alt)
    moreover have "ucast (word_of_nat (length v) :: u16) = (word_of_nat (length v) :: u32)"
      using read_count_at(2) [OF at len] len by (metis of_nat_unat)
    ultimately show ?thesis
      using read_count_at [OF at len] mem_at_at [OF at2]
      by (simp add: read_string_def Let_def) (simp add: skip_def)
  qed
qed

lemma set_codec:
  fixes wr :: "stream_writer \<Rightarrow> 'a::linorder \<Rightarrow> stream_writer"
  assumes "stream_codec wr rd fresh enc ok"
  shows "stream_codec (write_set wr) (read_set rd fresh) {}
     (\<lambda>vs. count_bytes (card vs) @ concat (map enc (sorted_list_of_set vs)))
     (\<lambda>vs. finite vs \<and> card vs < 65536 \<and> (\<forall>v\<in>vs. ok v))"
proof
  show "write_set wr w vs
      = StreamWriter_put w (count_bytes (card vs) @ concat (map enc (sorted_list_of_set vs)))" for w vs
    by (simp add: write_set_def write_pod_def stream_codec.foldl_wr [OF assms] StreamWriter_put_def
        count_bytes_def)
  show "read_set rd fresh {} r = Some (vs, skip r (length
      (count_bytes (card vs) @ concat (map enc (sorted_list_of_set vs)))))"
    if "finite vs \<and> card vs < 65536 \<and> (\<forall>v\<in>vs. ok v)"
      and "reader_at r pre ((count_bytes (card vs) @ concat (map enc (sorted_list_of_set vs))) @ rest)"
    for vs r pre rest
    using stream_codec.read_counted [OF assms, of r pre "sorted_list_of_set vs" rest 0
        "\<lambda>vs v. insert v vs" "{}"] that
    by (simp add: read_set_def foldl_insert)
qed

lemma pair_codec:
  assumes "stream_codec wrk rdk freshk enck okk" and "stream_codec wrv rdv freshv encv okv"
  shows "stream_codec (\<lambda>w e. wrv (wrk w (fst e)) (snd e)) (read_pair rdk rdv) (freshk, freshv)
     (\<lambda>e. enck (fst e) @ encv (snd e)) (\<lambda>e. okk (fst e) \<and> okv (snd e))"
proof
  show "wrv (wrk w (fst e)) (snd e) = StreamWriter_put w (enck (fst e) @ encv (snd e))" for w e
    using stream_codec.wr_enc [OF assms(1)] stream_codec.wr_enc [OF assms(2)]
    by (simp add: StreamWriter_put_def)
  show "read_pair rdk rdv (freshk, freshv) r = Some (e, skip r (length (enck (fst e) @ encv (snd e))))"
    if "okk (fst e) \<and> okv (snd e)" and "reader_at r pre ((enck (fst e) @ encv (snd e)) @ rest)"
    for e r pre rest
  proof -
    have at: "reader_at r pre (enck (fst e) @ encv (snd e) @ rest)" using that by simp
    show ?thesis
      using stream_codec.rd_enc [OF assms(1) _ at] that(1)
        stream_codec.rd_enc [OF assms(2) _ skip_at [OF at]]
      by (simp add: read_pair_def)
  qed
qed

lemma map_codec:
  fixes wrk :: "stream_writer \<Rightarrow> 'k::linorder \<Rightarrow> stream_writer"
  assumes "stream_codec wrk rdk freshk enck okk" and "stream_codec wrv rdv freshv encv okv"
  shows "stream_codec (write_map wrk wrv) (read_map rdk rdv (freshk, freshv)) []
     (\<lambda>m. count_bytes (length m) @ concat (map (\<lambda>e. enck (fst e) @ encv (snd e)) m))
     (\<lambda>m. length m < 65536 \<and> sorted_wrt (\<lambda>e f. fst e < fst f) m
        \<and> (\<forall>e\<in>set m. okk (fst e) \<and> okv (snd e)))"
proof
  note pc = pair_codec [OF assms]
  let ?enc = "\<lambda>m. count_bytes (length m) @ concat (map (\<lambda>e. enck (fst e) @ encv (snd e)) m)"
  show "write_map wrk wrv w m = StreamWriter_put w (?enc m)" for w m
    using stream_codec.foldl_wr [OF pc]
    by (simp add: write_map_def write_pod_def StreamWriter_put_def count_bytes_def)
  show "read_map rdk rdv (freshk, freshv) [] r = Some (m, skip r (length (?enc m)))"
    if "length m < 65536 \<and> sorted_wrt (\<lambda>e f. fst e < fst f) m
        \<and> (\<forall>e\<in>set m. okk (fst e) \<and> okv (snd e))"
      and "reader_at r pre (?enc m @ rest)" for m r pre rest
    using stream_codec.read_counted [OF pc, of r pre m rest 0 map_insert "[]"] that
    by (simp add: read_map_def foldl_map_insert)
qed

lemma chunks_concat:
  "pod_ok p \<Longrightarrow> map (pod_of p) (chunks (pod_size p) (length vs) (concat (map (pod_bytes p) vs))) = vs"
  by (induction vs) (simp_all add: pod_ok_def)

lemma length_pods: "pod_ok p \<Longrightarrow> length (concat (map (pod_bytes p) vs)) = length vs * pod_size p"
  by (induction vs) simp_all

lemma vector_codec:
  assumes "pod_ok p"
  shows "stream_codec (write_vector p) (read_vector p junk) []
     (\<lambda>vs. count_bytes (length vs) @ concat (map (pod_bytes p) (take (length vs mod 65536) vs)))
     (\<lambda>vs. length vs < 65536)"
proof
  show "write_vector p w vs = StreamWriter_put w
      (count_bytes (length vs) @ concat (map (pod_bytes p) (take (length vs mod 65536) vs)))" for w vs
    by (auto simp: write_vector_def write_pod_def StreamWriter_put_def count_bytes_def Let_def
        unat_of_nat word_less_nat_alt)
  show "read_vector p junk [] r = Some (vs, skip r (length
      (count_bytes (length vs) @ concat (map (pod_bytes p) (take (length vs mod 65536) vs)))))"
    if len: "length vs < 65536"
      and "reader_at r pre ((count_bytes (length vs)
         @ concat (map (pod_bytes p) (take (length vs mod 65536) vs))) @ rest)" for vs r pre rest
  proof -
    let ?bs = "concat (map (pod_bytes p) vs)"
    have at: "reader_at r pre (count_bytes (length vs) @ ?bs @ rest)" using that by simp
    have at2: "reader_at (skip r 2) (pre @ count_bytes (length vs)) (?bs @ rest)"
      using skip_at [OF at] by simp
    have n: "length ?bs = length vs * pod_size p" using assms by (rule length_pods)
    have "unat (rsize r) < 2 ^ LENGTH(32)" by (rule unsigned_less)
    then have "length vs * pod_size p < 2 ^ 32" using at n by (simp add: reader_at_def)
    then have need: "unat (word_of_nat (length vs * pod_size p) :: u32) = length ?bs"
      using n by (simp add: unat_of_nat del: of_nat_mult)
    then have "\<not> StreamReader_left (skip r 2) < word_of_nat (length vs * pod_size p)"
      using left_at [OF at2] by (simp add: word_less_nat_alt del: of_nat_mult)
    moreover have "word_of_nat (length vs) > (0 :: u16) \<longleftrightarrow> vs \<noteq> []"
      using read_count_at(2) [OF at len] by (simp add: word_less_nat_alt)
    moreover have "map (pod_of p) (chunks (pod_size p) (length vs) ?bs) = vs"
      using assms by (rule chunks_concat)
    ultimately show ?thesis
      using read_count_at [OF at len] mem_at_at [OF at2] need n len
      by (simp add: read_vector_def Let_def del: of_nat_mult) (simp add: skip_def)
  qed
qed

interpretation u32_codec: stream_codec "write_pod pod_u32" "read_pod pod_u32" fresh
  "pod_bytes pod_u32" "\<lambda>_. True" for fresh
  by (rule pod_codec) simp

interpretation string_stream: stream_codec write_string "read_string junk" "[]"
  "\<lambda>v. count_bytes (length v) @ v" "\<lambda>v. length v < 65536" for junk
  by (rule string_codec)

lemma whole_buffer:
  assumes "stream_codec wr rd fresh enc ok" and "ok v" and "length (enc v) < 2 ^ 32"
  shows "\<exists>r. rd fresh (StreamReader (buf (wr (StreamWriter n) v)) (StreamWriter_size (wr (StreamWriter n) v)))
      = Some (v, r) \<and> StreamReader_left r = 0"
proof -
  let ?w = "wr (StreamWriter n) v"
  let ?r = "StreamReader (buf ?w) (StreamWriter_size ?w)"
  have b: "buf ?w = enc v"
    using stream_codec.wr_enc [OF assms(1)] by (simp add: StreamWriter_put_def StreamWriter_def)
  have at: "reader_at ?r [] (enc v @ [])"
    using assms(3) b by (simp add: reader_at_def StreamReader_def StreamWriter_size_def unat_of_nat)
  have "rd fresh ?r = Some (v, skip ?r (length (enc v)))"
    by (rule stream_codec.rd_enc [OF assms(1,2) at])
  moreover have "StreamReader_left (skip ?r (length (enc v))) = 0"
    using left_at [OF skip_at [OF at]] by (simp add: unat_eq_zero)
  ultimately show ?thesis by blast
qed

section \<open>Reads stay inside the buffer\<close>

locale safe_read =
  fixes rd :: "'t \<Rightarrow> stream_reader \<Rightarrow> ('t \<times> stream_reader) option"
  assumes rd_safe: "in_buf r \<Longrightarrow> \<exists>v' r'. rd v r = Some (v', r') \<and> moved r r'"
begin

lemma read_items_safe:
  "in_buf r \<Longrightarrow> \<exists>vs' r'. read_items rd fresh add n vs r = Some (vs', r') \<and> moved r r'"
proof (induction n arbitrary: vs r)
  case 0
  then show ?case by (simp add: moved_def)
next
  case (Suc n)
  obtain v' r1 where rd: "rd fresh r = Some (v', r1)" and m1: "moved r r1"
    using rd_safe [OF Suc.prems] by blast
  then have "in_buf r1" by (simp add: moved_def)
  from Suc.IH [OF this, of "add vs v'"] rd m1 show ?case
    by (auto simp: moved_def)
qed

end

lemma unat_le_trans: "rpos r \<le> rsize r \<Longrightarrow> unat (rpos r) \<le> unat (rsize r)"
  by (simp add: word_le_nat_alt)

lemma advance_moved:
  assumes "in_buf r" and "unat (rpos r) + unat n \<le> unat (rsize r)"
  shows "moved r (r\<lparr>rpos := rpos r + n\<rparr>)" and "mem_at r (unat n) \<noteq> None"
proof -
  have "unat (rsize r) < 2 ^ LENGTH(32)" by (rule unsigned_less)
  then have "unat (rpos r + n) = unat (rpos r) + unat n"
    using assms(2) by (simp add: unat_word_ariths)
  then show "moved r (r\<lparr>rpos := rpos r + n\<rparr>)" and "mem_at r (unat n) \<noteq> None"
    using assms by (simp_all add: moved_def in_buf_def word_le_nat_alt mem_at_def)
qed

lemma read_pod_safe:
  assumes "in_buf r" and "pod_size p < 2 ^ 16"
  shows "\<exists>v' r'. read_pod p v r = Some (v', r') \<and> moved r r'"
proof -
  let ?n = "word_of_nat (pod_size p) :: u32"
  have n: "unat ?n = pod_size p" using assms(2) by (simp add: unat_of_nat)
  have "unat (rpos r + ?n) = unat (rpos r) + pod_size p"
    using assms n by (simp add: unat_word_ariths in_buf_def word_le_nat_alt)
  then have "rpos r + ?n > rsize r \<longleftrightarrow> unat (rpos r) + unat ?n > unat (rsize r)"
    using n by (simp add: word_less_nat_alt)
  then show ?thesis
    using advance_moved [OF assms(1), of ?n] assms(1)
    by (cases "rpos r + ?n > rsize r")
       (auto simp: read_pod_def StreamReader_get_def moved_def)
qed

lemma left_in_buf: "in_buf r \<Longrightarrow> unat (StreamReader_left r) = unat (rsize r) - unat (rpos r)"
  by (simp add: in_buf_def StreamReader_left_def unat_sub)

lemma read_string_safe:
  assumes "in_buf r"
  shows "\<exists>v' r'. read_string junk v r = Some (v', r') \<and> moved r r'"
proof -
  obtain n r1 where rd: "read_pod pod_u16 junk r = Some (n, r1)" and m1: "moved r r1"
    using read_pod_safe [OF assms, of pod_u16 junk] by auto
  let ?left = "StreamReader_left r1"
  define k where "k = (if ucast n > ?left then ucast ?left else n)"
  have r1: "in_buf r1" using m1 by (simp add: moved_def)
  have "unat (ucast k :: u32) \<le> unat ?left"
  proof (cases "ucast n > ?left")
    case True
    have "unat (ucast ?left :: u16) \<le> unat ?left"
      unfolding unsigned_ucast_eq by (simp add: take_bit_nat_less_eq_self)
    then show ?thesis using True by (simp add: k_def unat_ucast_up)
  next
    case False
    then show ?thesis by (simp add: k_def word_less_nat_alt)
  qed
  then have "unat (rpos r1) + unat (ucast k :: u32) \<le> unat (rsize r1)"
    using left_in_buf [OF r1] r1 by (auto simp: in_buf_def word_le_nat_alt)
  from advance_moved [OF r1 this] have
    "moved r1 (r1\<lparr>rpos := rpos r1 + ucast k\<rparr>)" and "mem_at r1 (unat k) \<noteq> None"
    by (simp_all add: unat_ucast_up)
  then show ?thesis
    using rd m1 by (auto simp: read_string_def Let_def k_def [symmetric] moved_def)
qed

interpretation safe_u32: safe_read "read_pod pod_u32"
  by unfold_locales (simp add: read_pod_safe)

interpretation safe_string: safe_read "read_string junk" for junk
  by unfold_locales (rule read_string_safe)

lemma moved_trans: "moved r r1 \<Longrightarrow> moved r1 r2 \<Longrightarrow> moved r r2"
  by (auto simp: moved_def)

lemma read_vector_safe:
  assumes "in_buf r" and "0 < pod_size p" and "pod_size p < 2 ^ 16"
  shows "\<exists>v' r'. read_vector p junk v r = Some (v', r') \<and> moved r r'"
proof -
  obtain n r1 where rd: "read_pod pod_u16 junk r = Some (n, r1)" and m1: "moved r r1"
    using read_pod_safe [OF assms(1), of pod_u16 junk] by auto
  let ?left = "StreamReader_left r1" and ?sz = "pod_size p"
  let ?need0 = "word_of_nat (unat n * ?sz) :: u32"
  define k where "k = (if ?left < ?need0 then word_of_nat (unat ?left div ?sz) else n)"
  define need where "need = (if ?left < ?need0 then word_of_nat (unat k * ?sz) else ?need0)"
  have r1: "in_buf r1" using m1 by (simp add: moved_def)
  have fits: "unat (word_of_nat (unat (i :: u16) * ?sz) :: u32) = unat i * ?sz" for i
  proof -
    have "unat i < 2 ^ LENGTH(16)" by (rule unsigned_less)
    then have "unat i * ?sz < 2 ^ 16 * 2 ^ 16" using assms(2,3) by (intro mult_strict_mono) auto
    then show ?thesis by (simp add: unat_of_nat del: of_nat_mult)
  qed
  have "unat need \<le> unat ?left"
  proof (cases "?left < ?need0")
    case True
    have "unat k \<le> unat ?left div ?sz"
      using True by (simp add: k_def unat_of_nat)
    then have "unat k * ?sz \<le> unat ?left"
      by (metis div_times_less_eq_dividend le_trans mult_le_mono1)
    then show ?thesis using True fits [of k] by (simp add: need_def)
  next
    case False
    then show ?thesis by (simp add: need_def word_less_nat_alt)
  qed
  then have "unat (rpos r1) + unat need \<le> unat (rsize r1)"
    using left_in_buf [OF r1] r1 by (auto simp: in_buf_def word_le_nat_alt)
  then have adv: "moved r1 (r1\<lparr>rpos := rpos r1 + need\<rparr>)" and mem: "mem_at r1 (unat need) \<noteq> None"
    by (rule advance_moved [OF r1])+
  have "read_vector p junk v r = (if k > 0
      then do { bs \<leftarrow> mem_at r1 (unat need);
        Some (map (pod_of p) (chunks ?sz (unat k) bs), r1\<lparr>rpos := rpos r1 + need\<rparr>) }
      else Some (v, r1))"
    unfolding read_vector_def rd Let_def k_def need_def by simp
  then show ?thesis using mem m1 moved_trans [OF m1 adv] by auto
qed

lemma read_counted_safe:
  assumes "safe_read rd" and "in_buf r"
  shows "\<exists>vs' r'. do { (n, r1) \<leftarrow> read_pod pod_u16 0 r; read_items rd fresh add (unat n) vs r1 }
      = Some (vs', r') \<and> moved r r'"
proof -
  obtain n r1 where rd: "read_pod pod_u16 0 r = Some (n, r1)" and m1: "moved r r1"
    using read_pod_safe [OF assms(2), of pod_u16 0] by auto
  obtain vs' r' where "read_items rd fresh add (unat n) vs r1 = Some (vs', r')" and "moved r1 r'"
    using safe_read.read_items_safe [OF assms(1), of r1 fresh add "unat n" vs] m1 moved_def by blast
  then show ?thesis using rd moved_trans [OF m1] by simp
qed

lemma read_pair_safe:
  assumes "safe_read rdk" and "safe_read rdv"
  shows "safe_read (read_pair rdk rdv)"
proof
  fix r :: stream_reader and e :: "'a \<times> 'b"
  assume "in_buf r"
  then obtain k r1 where k: "rdk (fst e) r = Some (k, r1)" and m1: "moved r r1"
    using safe_read.rd_safe [OF assms(1)] by blast
  then have "in_buf r1" by (simp add: moved_def)
  then obtain v r2 where "rdv (snd e) r1 = Some (v, r2)" and "moved r1 r2"
    using safe_read.rd_safe [OF assms(2)] by blast
  then show "\<exists>v' r'. read_pair rdk rdv e r = Some (v', r') \<and> moved r r'"
    using k m1 by (auto simp: read_pair_def moved_def)
qed

lemma containers_safe:
  assumes "safe_read rd"
  shows "safe_read (read_list rd fresh)" and "safe_read (read_set rd fresh)"
  using read_counted_safe [OF assms] by unfold_locales (auto simp: read_list_def read_set_def)

lemma read_map_safe:
  "safe_read rdk \<Longrightarrow> safe_read rdv \<Longrightarrow> safe_read (read_map rdk rdv fresh)"
  using read_counted_safe [OF read_pair_safe]
  by unfold_locales (simp add: read_map_def)

lemma pod_reads_safe:
  "safe_read (read_pod pod_u8)" "safe_read (read_pod pod_u16)" "safe_read (read_pod pod_u32)"
  "safe_read (read_pod pod_u64)" "safe_read (read_string junk)"
  "safe_read (read_vector pod_u32 junk)" "safe_read (read_vector pod_u64 junk)"
  by (simp_all add: safe_read_def read_pod_safe read_string_safe read_vector_safe)

section \<open>The properties of the stream\<close>

text \<open>C6: a nested container written to a stream is read back: for a \<open>map<uint32_t, list<string>>\<close>
  whose map, lists and strings have fewer than 65536 elements each and whose encoding is shorter
  than 4 GiB, the reader of the written buffer returns the same map, reads no memory outside the
  buffer and has consumed all of it.\<close>

theorem stream_nested_round_trip:
  fixes m :: "(u32 \<times> bytes list) list"
  assumes "sorted_wrt (\<lambda>e f. fst e < fst f) m" and "length m < 65536"
    and "\<forall>e\<in>set m. length (snd e) < 65536 \<and> (\<forall>s\<in>set (snd e). length s < 65536)"
    and "w = write_map (write_pod pod_u32) (write_list write_string) (StreamWriter n) m"
    and "length (buf w) < 2 ^ 32"
  shows "\<exists>r. read_map (read_pod pod_u32) (read_list (read_string junk) []) (junk32, []) []
      (StreamReader (buf w) (StreamWriter_size w)) = Some (m, r) \<and> StreamReader_left r = 0"
proof -
  note lc = stream_codec.list_codec [OF string_codec, of junk]
  note mc = map_codec [OF pod_codec [OF pods_ok(3), of junk32] lc]
  show ?thesis unfolding assms(4)
    using whole_buffer [OF mc, of m n] assms(1-3,5)
    by (simp add: assms(4) stream_codec.wr_enc [OF mc] StreamWriter_put_def StreamWriter_def)
qed

theorem stream_nested_round_trip_witness:
  "\<exists>r. read_map (read_pod pod_u32) (read_list (read_string 9) []) (7, []) []
      (StreamReader [2, 0, 1, 0, 0, 0, 2, 0, 1, 0, 65, 0, 0, 5, 0, 0, 0, 0, 0] 19)
      = Some ([(1, [[65], []]), (5, [])], r) \<and> StreamReader_left r = 0"
proof -
  have w: "write_map (write_pod pod_u32) (write_list write_string) (StreamWriter 128) [(1, [[65], []]), (5, [])]
      = \<lparr>buf = [2, 0, 1, 0, 0, 0, 2, 0, 1, 0, 65, 0, 0, 5, 0, 0, 0, 0, 0]\<rparr>"
    by code_simp
  show ?thesis
    using stream_nested_round_trip [of "[(1, [[65], []]), (5, [])]" _ 128 9 7, OF _ _ _ refl]
    by (simp add: w StreamWriter_size_def)
qed

text \<open>C14: reading never leaves the buffer. From a reader positioned inside its buffer, the readers of
  scalars, strings and vectors, and the readers of lists, sets and maps whose element readers do so
  too, access only bytes of the buffer, whatever those bytes are, and leave a reader positioned
  inside the same buffer, never further back.\<close>

theorem stream_reads_in_buffer:
  "safe_read (read_pod pod_u8) \<and> safe_read (read_pod pod_u16) \<and> safe_read (read_pod pod_u32)
   \<and> safe_read (read_pod pod_u64) \<and> safe_read (read_string junk)
   \<and> safe_read (read_vector pod_u32 junk) \<and> safe_read (read_vector pod_u64 junk)
   \<and> (safe_read rd \<longrightarrow> safe_read (read_list rd fresh))
   \<and> (safe_read rds \<longrightarrow> safe_read (read_set rds freshs))
   \<and> (safe_read rdk \<longrightarrow> safe_read rdv \<longrightarrow> safe_read (read_map rdk rdv freshm))"
  by (intro conjI impI) (assumption | rule pod_reads_safe containers_safe read_map_safe)+

theorem stream_reads_in_buffer_witness:
  "\<exists>v r. read_list (read_string 0) [] [] (StreamReader [255, 255, 255, 255, 1] 5) = Some (v, r)
     \<and> moved (StreamReader [255, 255, 255, 255, 1] 5) r"
proof -
  have "safe_read (read_string 0) \<longrightarrow> safe_read (read_list (read_string 0) [])"
    using stream_reads_in_buffer [of 0 "read_string 0" "[]" "read_string 0" "[]" "read_pod pod_u8"
        "read_string 0" "(0, [])"] by (elim conjE)
  then have "safe_read (read_list (read_string 0) [])"
    by (rule mp) (rule pod_reads_safe)
  moreover have "in_buf (StreamReader [255, 255, 255, 255, 1] 5)"
    by (simp add: in_buf_def StreamReader_def)
  ultimately show ?thesis by (rule safe_read.rd_safe)
qed

text \<open>A mixed message. A 64-bit integer, a string, a vector and a set written one after the other
  are read back in the same order by the corresponding operators, each with its value, and the
  buffer is then exhausted.\<close>

theorem stream_message_round_trip:
  fixes a :: u64 and s :: bytes and xs :: "u32 list" and ys :: "u16 set"
  assumes "length s < 65536" and "length xs < 65536" and "finite ys" and "card ys < 65536"
    and "w = write_set (write_pod pod_u16)
           (write_vector pod_u32 (write_string (write_pod pod_u64 (StreamWriter n) a) s) xs) ys"
    and "length (buf w) < 2 ^ 32"
  shows "\<exists>r. do {
        (a', r1) \<leftarrow> read_pod pod_u64 j1 (StreamReader (buf w) (StreamWriter_size w));
        (s', r2) \<leftarrow> read_string j2 [] r1;
        (xs', r3) \<leftarrow> read_vector pod_u32 j3 [] r2;
        (ys', r4) \<leftarrow> read_set (read_pod pod_u16) j4 {} r3;
        Some (a', s', xs', ys', r4)
      } = Some (a, s, xs, ys, r) \<and> StreamReader_left r = 0"
proof -
  note p = pod_codec [OF pods_ok(4), of j1] note q = string_codec [of j2]
  note v = vector_codec [OF pods_ok(3), of j3] note t = set_codec [OF pod_codec [OF pods_ok(2), of j4]]
  let ?s = "count_bytes (length s) @ s"
  let ?v = "count_bytes (length xs) @ concat (map (pod_bytes pod_u32) (take (length xs mod 65536) xs))"
  let ?t = "count_bytes (card ys) @ concat (map (pod_bytes pod_u16) (sorted_list_of_set ys))"
  let ?r = "StreamReader (buf w) (StreamWriter_size w)"
  have b: "buf w = pod_bytes pod_u64 a @ ?s @ ?v @ ?t"
    unfolding assms(5) stream_codec.wr_enc [OF p] stream_codec.wr_enc [OF q] stream_codec.wr_enc [OF v]
      stream_codec.wr_enc [OF t]
    by (simp add: StreamWriter_put_def StreamWriter_def)
  have "unat (StreamWriter_size w) = length (buf w)"
    using assms(6) by (simp add: StreamWriter_size_def unat_of_nat)
  then have at1: "reader_at ?r [] (pod_bytes pod_u64 a @ ?s @ ?v @ ?t)"
    unfolding reader_at_def StreamReader_def b by simp
  note at2 = skip_at [OF at1] note at3 = skip_at [OF at2] note at4 = skip_at [OF at3]
  have at4': "reader_at (skip (skip (skip ?r (length (pod_bytes pod_u64 a))) (length ?s)) (length ?v))
      ((([] @ pod_bytes pod_u64 a) @ ?s) @ ?v) (?t @ [])" using at4 by (simp only: append_Nil2)
  note e1 = stream_codec.rd_enc [OF p TrueI at1] note e2 = stream_codec.rd_enc [OF q assms(1) at2]
  note e3 = stream_codec.rd_enc [OF v assms(2) at3]
  have okt: "finite ys \<and> card ys < 65536 \<and> (\<forall>v\<in>ys. True)" using assms(3,4) by simp
  note e4 = stream_codec.rd_enc [OF t okt at4']
  have "StreamReader_left (skip (skip (skip (skip ?r (length (pod_bytes pod_u64 a))) (length ?s)) (length ?v)) (length ?t)) = 0"
    using left_at [OF skip_at [OF at4']] by (simp only: list.size unat_eq_zero)
  with e1 e2 e3 e4 show ?thesis by (simp only: bind.simps prod.case bind_eq_Some_conv) auto
qed


theorem stream_message_round_trip_witness:
  "\<exists>r. do {
        (a', r1) \<leftarrow> read_pod pod_u64 0 (StreamReader
          [1, 2, 0, 0, 0, 0, 0, 0, 1, 0, 65, 2, 0, 7, 0, 0, 0, 8, 0, 0, 0, 2, 0, 3, 0, 4, 0] 27);
        (s', r2) \<leftarrow> read_string 0 [] r1;
        (xs', r3) \<leftarrow> read_vector pod_u32 0 [] r2;
        (ys', r4) \<leftarrow> read_set (read_pod pod_u16) 0 {} r3;
        Some (a', s', xs', ys', r4)
      } = Some (513, [65], [7, 8], {3, 4}, r) \<and> StreamReader_left r = 0"
proof -
  have w: "write_set (write_pod pod_u16) (write_vector pod_u32
      (write_string (write_pod pod_u64 (StreamWriter 128) 513) [65]) [7, 8]) {3, 4}
      = \<lparr>buf = [1, 2, 0, 0, 0, 0, 0, 0, 1, 0, 65, 2, 0, 7, 0, 0, 0, 8, 0, 0, 0, 2, 0, 3, 0, 4, 0]\<rparr>"
    by code_simp
  show ?thesis
    using stream_message_round_trip [of "[65]" "[7, 8]" "{3, 4}" _ 128 513 0 0 0 0, OF _ _ _ _ refl]
    by (simp add: w StreamWriter_size_def)
qed

text \<open>\<open>StreamReader::get\<close> checks the length with a 32-bit sum that can wrap around: for every
  reader in its buffer, a requested length that makes the sum wrap passes the check and the copy
  leaves the buffer.\<close>

theorem StreamReader_get_wraps:
  assumes "in_buf r" and "2 ^ 32 \<le> unat (rpos r) + unat dataLen"
  shows "\<not> rpos r + dataLen > rsize r \<and> StreamReader_get r dataLen = None"
proof -
  have "unat dataLen < 2 ^ LENGTH(32)" and "unat (rpos r) < 2 ^ LENGTH(32)" by (rule unsigned_less)+
  then have "unat (rpos r + dataLen) = unat (rpos r) + unat dataLen - 2 ^ 32"
    using assms(2) by (simp add: unat_word_ariths mod_nat_eqI)
  moreover have "unat (rpos r) \<le> unat (rsize r)" "unat (rsize r) \<le> 2 ^ 32 - 2 ^ 16"
    using assms(1) by (simp_all add: in_buf_def word_le_nat_alt)
  ultimately show ?thesis
    using assms \<open>unat dataLen < 2 ^ LENGTH(32)\<close>
    by (simp add: StreamReader_get_def mem_at_def word_less_nat_alt in_buf_def)
qed

theorem StreamReader_get_wraps_witness:
  "StreamReader_get \<lparr>rdata = [1, 2, 3, 4], rsize = 4, rpos = 2\<rparr> 0xFFFFFFFF = None"
  using StreamReader_get_wraps [of "\<lparr>rdata = [1, 2, 3, 4], rsize = 4, rpos = 2\<rparr>" "0xFFFFFFFF"]
  by (simp add: in_buf_def)

text \<open>The count of a list is stored in 16 bits while every element is written: a list of
  65536 + \<open>n\<close> elements with \<open>n < 65536\<close> is read back as its first \<open>n\<close> elements, and the bytes of
  the other 65536 stay in the stream for whatever is read next.\<close>

theorem write_list_count_truncated:
  fixes xs ys :: "u32 list"
  assumes "length xs < 65536" and "length ys = 65536"
    and "w = write_list (write_pod pod_u32) (StreamWriter n) (xs @ ys)"
  shows "\<exists>r. read_list (read_pod pod_u32) junk [] (StreamReader (buf w) (StreamWriter_size w)) = Some (xs, r)
     \<and> unat (StreamReader_left r) = 4 * 65536"
proof -
  let ?r = "StreamReader (buf w) (StreamWriter_size w)"
  note p = pod_codec [OF pods_ok(3), of junk] note lc = stream_codec.list_codec [OF p]
  let ?enc = "count_bytes (length xs) @ concat (map (pod_bytes pod_u32) xs)"
  let ?rest = "concat (map (pod_bytes pod_u32) ys)"
  have "word_of_nat (length xs + 65536) = (word_of_nat (length xs) :: u16)"
    by (simp add: word_unat_eq_iff unat_of_nat del: of_nat_add)
  then have "count_bytes (length xs + 65536) = count_bytes (length xs)"
    by (simp add: count_bytes_def del: of_nat_add)
  then have b: "buf w = ?enc @ ?rest"
    using assms(2) by (simp add: assms(3) stream_codec.wr_enc [OF lc] StreamWriter_put_def StreamWriter_def)
  have len: "length ?rest = 4 * 65536" using assms(2) length_pods [OF pods_ok(3), of ys] by simp
  have "length (concat (map (pod_bytes pod_u32) xs)) = 4 * length xs"
    using length_pods [OF pods_ok(3), of xs] by simp
  then have "length (buf w) < 2 ^ 32" using b len assms(1) by simp
  then have "unat (StreamWriter_size w) = length (buf w)"
    by (simp add: StreamWriter_size_def unat_of_nat)
  then have at: "reader_at ?r [] (?enc @ ?rest)"
    unfolding reader_at_def StreamReader_def b by simp
  have "length xs < 65536 \<and> (\<forall>v\<in>set xs. True)" using assms(1) by simp
  note e = stream_codec.rd_enc [OF lc this at]
  moreover have "unat (StreamReader_left (skip ?r (length ?enc))) = 4 * 65536"
    using left_at [OF skip_at [OF at]] len by simp
  ultimately show ?thesis by blast
qed

theorem write_list_count_truncated_witness:
  "\<exists>r. read_list (read_pod pod_u32) 0 []
       (StreamReader (buf (write_list (write_pod pod_u32) (StreamWriter 128) ([5] @ replicate 65536 0)))
          (StreamWriter_size (write_list (write_pod pod_u32) (StreamWriter 128) ([5] @ replicate 65536 0))))
     = Some ([5], r) \<and> unat (StreamReader_left r) = 4 * 65536"
  by (rule write_list_count_truncated [of "[5]" "replicate 65536 0", OF _ _ refl]) simp_all

text \<open>\<open>getSequence\<close> computes the needed size in 16 bits. For a sequence of 32768 two-byte elements
  announced in a buffer that holds none of them, the size wraps to 0, the count is not reduced, and
  32768 copies of the uninitialised element are appended.\<close>

theorem getSequence_size_wraps:
  "getSequence 2 (read_pod pod_u16) fresh junk vals (StreamReader [0x00, 0x80] 2)
     = Some (vals @ replicate 32768 fresh, \<lparr>rdata = [0x00, 0x80], rsize = 2, rpos = 2\<rparr>)"
proof -
  let ?r = "\<lparr>rdata = [0x00, 0x80], rsize = 2, rpos = 2\<rparr>"
  have cnt: "read_pod pod_u16 junk (StreamReader [0x00, 0x80] 2) = Some (0x8000, ?r)"
    by code_simp
  have one: "read_pod pod_u16 fresh ?r = Some (fresh, ?r)"
    by (simp add: read_pod_def StreamReader_get_def)
  have "read_items (read_pod pod_u16) fresh (\<lambda>vs v. vs @ [v]) n vs ?r = Some (vs @ replicate n fresh, ?r)"
    for n vs by (induction n arbitrary: vs) (simp_all add: one)
  then show ?thesis
    using cnt by (simp add: getSequence_def Let_def StreamReader_left_def)
qed

text \<open>An empty string or vector in the stream leaves the variable it is read into unchanged, so
  reading into a variable that is not empty does not give the value that was written.\<close>

theorem read_empty_keeps_old:
  "(\<exists>r. read_string j v (StreamReader (buf (write_string (StreamWriter n) [])) 2) = Some (v, r))
   \<and> (\<exists>r. read_vector pod_u32 j vs (StreamReader (buf (write_vector pod_u32 (StreamWriter n) [])) 2) = Some (vs, r))"
proof -
  have w: "buf (write_string (StreamWriter n) []) = [0, 0]" "buf (write_vector pod_u32 (StreamWriter n) []) = [0, 0]"
    unfolding StreamWriter_def by code_simp+
  have "read_pod pod_u16 j (StreamReader [0, 0] 2) = Some (0, \<lparr>rdata = [0, 0], rsize = 2, rpos = 2\<rparr>)"
    by code_simp
  then show ?thesis unfolding w
    by (simp add: read_string_def read_vector_def Let_def StreamReader_left_def)
qed

end
