(* ===== verification/EcDate.thy ===== *)
theory EcDate
  imports Prelude
begin

text \<open>
  \<open>Date\<close> and \<open>Time\<close> of \<open>src/libeventc++11/include/ec/date.h\<close> and \<open>src/libeventc++11/src/date.cpp\<close>.
  The part of the C library they use is modelled on the proleptic Gregorian calendar, for a time
  zone with a fixed offset: \<open>off\<close> is the number of seconds the zone is ahead of UTC, so \<open>tm_isdst\<close> is
  always 0 and is left out. \<open>mktime\<close> normalises the structure it is given, and
  \<open>Date::stamp\<close> casts the constness of its own away to call it, so it returns the new date as well.
  The arithmetic on the fields of \<open>struct tm\<close> and on \<open>time_t\<close> is that of the unbounded integers (an
  overflow of a signed type is undefined in C); the conversion of a \<open>time_t\<close> to the \<open>int\<close>
  parameter of \<open>addSecond\<close>, which the code relies on, is written out.

  The lemmas show that \<open>mktime\<close> and \<open>localtime_r\<close> are inverse to each other, that the operations
  compute the calendar day they name, and where they do not.
\<close>

section \<open>The calendar of the C library\<close>

record tm =
  tm_sec :: int
  tm_min :: int
  tm_hour :: int
  tm_mday :: int
  tm_mon :: int
  tm_year :: int
  tm_wday :: int
  tm_yday :: int

definition leap :: "int \<Rightarrow> bool" where
  "leap y \<longleftrightarrow> y mod 4 = 0 \<and> (y mod 100 \<noteq> 0 \<or> y mod 400 = 0)"

definition year_length :: "int \<Rightarrow> int" where
  "year_length y = (if leap y then 366 else 365)"

text \<open>The length of month \<open>m\<close>, counted from 0.\<close>

definition month_length :: "int \<Rightarrow> int \<Rightarrow> int" where
  "month_length y m =
     (if m = 1 then (if leap y then 29 else 28)
      else if m = 3 \<or> m = 5 \<or> m = 8 \<or> m = 10 then 30 else 31)"

text \<open>The number of days between 0001-01-01 and the first of January of year \<open>y\<close>, and between the
  first of January and the first of month \<open>m\<close>.\<close>

definition days_before_year :: "int \<Rightarrow> int" where
  "days_before_year y = 365 * (y - 1) + (y - 1) div 4 - (y - 1) div 100 + (y - 1) div 400"

fun days_before_month :: "int \<Rightarrow> nat \<Rightarrow> int" where
  "days_before_month y 0 = 0"
| "days_before_month y (Suc m) = days_before_month y m + month_length y (int m)"

definition year_of_day :: "int \<Rightarrow> int" where
  "year_of_day n =
     (let q = n div 146097; m = n mod 146097;
          c = min 3 (m div 36524); m1 = m - 36524 * c;
          f = m1 div 1461; m2 = m1 mod 1461;
          r = min 3 (m2 div 365)
      in 400 * q + 100 * c + 4 * f + r + 1)"

text \<open>Month and day of the month of the \<open>d\<close>-th day of the year, counted from month \<open>m\<close>, with at most
  \<open>k\<close> months to go.\<close>

fun month_day :: "int \<Rightarrow> nat \<Rightarrow> int \<Rightarrow> int \<Rightarrow> int \<times> int" where
  "month_day y 0 m d = (m, d)"
| "month_day y (Suc k) m d =
     (if d < month_length y m then (m, d) else month_day y k (m + 1) (d - month_length y m))"

definition epoch_day :: int where
  "epoch_day = 719162"

text \<open>\<open>localtime_r\<close>: the local time \<open>off\<close> seconds ahead of UTC.\<close>

definition localtime_r :: "int \<Rightarrow> int \<Rightarrow> tm" where
  "localtime_r off stamp =
     (let t = stamp + off; n = t div 86400 + epoch_day; s = t mod 86400;
          y = year_of_day n; d = n - days_before_year y; (m, md) = month_day y 11 0 d
      in \<lparr>tm_sec = s mod 60, tm_min = s div 60 mod 60, tm_hour = s div 3600, tm_mday = md + 1,
          tm_mon = m, tm_year = y - 1900, tm_wday = (n + 1) mod 7, tm_yday = d\<rparr>)"

text \<open>\<open>mktime\<close>: any values of the fields are accepted; months outside the year carry into the year,
  and everything else is added up.\<close>

definition tm_day :: "tm \<Rightarrow> int" where
  "tm_day t =
     (let y = tm_year t + 1900 + tm_mon t div 12
      in days_before_year y + days_before_month y (nat (tm_mon t mod 12)) + tm_mday t - 1)"

definition tm_stamp :: "int \<Rightarrow> tm \<Rightarrow> int" where
  "tm_stamp off t =
     (tm_day t - epoch_day) * 86400 + tm_hour t * 3600 + tm_min t * 60 + tm_sec t - off"

definition mktime :: "int \<Rightarrow> tm \<Rightarrow> int \<times> tm" where
  "mktime off t = (let s = tm_stamp off t in (s, localtime_r off s))"

text \<open>The conversion of a 64-bit value to a 32-bit \<open>int\<close>.\<close>

definition to_int :: "int \<Rightarrow> int" where
  "to_int x = (x + 2 ^ 31) mod 2 ^ 32 - 2 ^ 31"

section \<open>Date\<close>

text \<open>\<open>INT_MIN\<close>, the value of \<open>s_timeZoneOffset\<close> before the first call.\<close>

definition INT_MIN :: int where "INT_MIN = - (2 ^ 31)"

text \<open>The constructor from a calendar date leaves the other fields uninitialised: \<open>junk\<close>.\<close>

definition Date_ymd :: "tm \<Rightarrow> int \<Rightarrow> int \<Rightarrow> int \<Rightarrow> int \<Rightarrow> int \<Rightarrow> int \<Rightarrow> tm" where
  "Date_ymd junk year month day hour minute second =
     junk\<lparr>tm_year := year - 1900, tm_mon := month - 1, tm_mday := day, tm_hour := hour,
       tm_min := minute, tm_sec := second\<rparr>"

definition Date_set :: "int \<Rightarrow> int \<Rightarrow> tm" where
  "Date_set off stamp = localtime_r off stamp"

definition Date_now :: "int \<Rightarrow> int \<Rightarrow> tm" where
  "Date_now off now = localtime_r off now"

definition Date_stamp :: "int \<Rightarrow> tm \<Rightarrow> int \<times> tm" where
  "Date_stamp off d = mktime off d"

text \<open>The static \<open>s_timeZoneOffset\<close> is passed and returned.\<close>

definition getTimeZoneOffset :: "int \<Rightarrow> tm \<Rightarrow> int \<Rightarrow> int \<times> int" where
  "getTimeZoneOffset off junk s_timeZoneOffset =
     (if INT_MIN = s_timeZoneOffset
      then let s = to_int (fst (Date_stamp off (Date_ymd junk 1970 1 1 0 0 0))) in (s, s)
      else (s_timeZoneOffset, s_timeZoneOffset))"

definition Date_utcStamp :: "int \<Rightarrow> tm \<Rightarrow> int \<Rightarrow> tm \<Rightarrow> int \<times> int \<times> tm" where
  "Date_utcStamp off junk tz d =
     (let (s, d') = Date_stamp off d; (z, tz') = getTimeZoneOffset off junk tz in (s + z, tz', d'))"

definition Date_year :: "tm \<Rightarrow> int" where "Date_year d = tm_year d + 1900"
definition Date_month :: "tm \<Rightarrow> int" where "Date_month d = tm_mon d + 1"
definition Date_day :: "tm \<Rightarrow> int" where "Date_day d = tm_mday d"
definition Date_hour :: "tm \<Rightarrow> int" where "Date_hour d = tm_hour d"
definition Date_minute :: "tm \<Rightarrow> int" where "Date_minute d = tm_min d"
definition Date_second :: "tm \<Rightarrow> int" where "Date_second d = tm_sec d"
definition Date_week :: "tm \<Rightarrow> int" where
  "Date_week d = (if tm_wday d > 0 then tm_wday d else 7)"
definition Date_yearDay :: "tm \<Rightarrow> int" where "Date_yearDay d = tm_yday d"

text \<open>Insertion of an integer into a stream with \<open>setfill('0')\<close> and \<open>setw(w)\<close>.\<close>

definition setw0 :: "nat \<Rightarrow> int \<Rightarrow> string" where
  "setw0 w i = (let s = int_digits i in replicate (w - length s) (CHR ''0'') @ s)"

definition Date_toString :: "tm \<Rightarrow> string" where
  "Date_toString d =
     setw0 4 (Date_year d) @ ''-'' @ setw0 2 (Date_month d) @ ''-'' @ setw0 2 (Date_day d) @ '' ''
     @ setw0 2 (Date_hour d) @ '':'' @ setw0 2 (Date_minute d) @ '':'' @ setw0 2 (Date_second d)"

definition setYear :: "int \<Rightarrow> tm \<Rightarrow> tm" where
  "setYear year d = d\<lparr>tm_year := if year < 1900 then 0 else year - 1900\<rparr>"

definition setMonth :: "int \<Rightarrow> tm \<Rightarrow> tm" where
  "setMonth month d = (let m = c_mod month 13 in d\<lparr>tm_mon := if m > 0 then m - 1 else 0\<rparr>)"

definition setDay :: "int \<Rightarrow> tm \<Rightarrow> tm" where
  "setDay day d = (let n = c_mod day 32 in d\<lparr>tm_mday := if n > 1 then n else 1\<rparr>)"

definition setHour :: "int \<Rightarrow> tm \<Rightarrow> tm" where
  "setHour hour d = (let h = c_mod hour 24 in d\<lparr>tm_hour := if h > 0 then h else 0\<rparr>)"

definition setMinute :: "int \<Rightarrow> tm \<Rightarrow> tm" where
  "setMinute minute d = (let m = c_mod minute 60 in d\<lparr>tm_min := if m > 0 then m else 0\<rparr>)"

definition setSecond :: "int \<Rightarrow> tm \<Rightarrow> tm" where
  "setSecond second d = (let s = c_mod second 60 in d\<lparr>tm_sec := if s > 0 then s else 0\<rparr>)"

definition isLeapYear :: "tm \<Rightarrow> bool" where
  "isLeapYear d = (let curYear = Date_year d in c_mod curYear 4 = 0 \<and> c_mod curYear 100 \<noteq> 0)"

definition getMonthDays :: "tm \<Rightarrow> int" where
  "getMonthDays d =
     (let curMonth = Date_month d
      in if curMonth \<in> {1, 3, 5, 7, 8, 10, 12} then 31
         else if curMonth \<in> {4, 6, 9, 11} then 30
         else if curMonth = 2 then (if isLeapYear d then 29 else 28)
         else 0)"

definition isEndOfMonth :: "tm \<Rightarrow> bool" where
  "isEndOfMonth d \<longleftrightarrow> Date_day d \<ge> getMonthDays d"

text \<open>The last lines of both \<open>addYear\<close> and \<open>addMonth\<close>.\<close>

definition clip_day :: "tm \<Rightarrow> tm" where
  "clip_day d =
     (let monthDays = getMonthDays d in if tm_mday d > monthDays then d\<lparr>tm_mday := monthDays\<rparr> else d)"

definition addYear :: "int \<Rightarrow> tm \<Rightarrow> tm" where
  "addYear year d =
     (let y = tm_year d + year in clip_day (d\<lparr>tm_year := if y < 0 then 0 else y\<rparr>))"

definition addMonth :: "int \<Rightarrow> tm \<Rightarrow> tm" where
  "addMonth month d =
     (let m = tm_mon d + month
      in clip_day (d\<lparr>tm_mon := c_mod m 12, tm_year := tm_year d + c_div m 12\<rparr>))"

section \<open>Time\<close>

record timeval =
  tv_sec :: int
  tv_usec :: int

datatype PeriodType =
  kPeriodNone | kPeriodMinute | kPeriodHour | kPeriodDay | kPeriodWeek | kPeriodMonth
  | kPeriodYear | kPeriodMax

definition MINUTE_SECONDS :: int where "MINUTE_SECONDS = 60"
definition HOUR_SECONDS :: int where "HOUR_SECONDS = 3600"
definition DAY_SECONDS :: int where "DAY_SECONDS = HOUR_SECONDS * 24"
definition WEEK_SECONDS :: int where "WEEK_SECONDS = DAY_SECONDS * 7"

definition Time_set :: "int \<Rightarrow> timeval" where
  "Time_set stamp = \<lparr>tv_sec = stamp, tv_usec = 0\<rparr>"

text \<open>The constructor from a date normalises the date.\<close>

definition Time_of_Date :: "int \<Rightarrow> tm \<Rightarrow> timeval \<times> tm" where
  "Time_of_Date off d = (let (s, d') = Date_stamp off d in (Time_set s, d'))"

definition Time_toDate :: "int \<Rightarrow> timeval \<Rightarrow> tm" where
  "Time_toDate off t = Date_set off (tv_sec t)"

definition Time_utcStamp :: "int \<Rightarrow> tm \<Rightarrow> int \<Rightarrow> timeval \<Rightarrow> int \<times> int" where
  "Time_utcStamp off junk tz t =
     (let (z, tz') = getTimeZoneOffset off junk tz in (tv_sec t + z, tz'))"

definition Time_ms :: "timeval \<Rightarrow> int" where
  "Time_ms t = tv_sec t * 1000 + c_div (tv_usec t) 1000"

text \<open>The parameter is an \<open>int\<close>.\<close>

definition Time_addSecond :: "int \<Rightarrow> timeval \<Rightarrow> timeval" where
  "Time_addSecond second t = t\<lparr>tv_sec := tv_sec t + to_int second\<rparr>"

definition Time_sharpHour :: "timeval \<Rightarrow> timeval" where
  "Time_sharpHour t = t\<lparr>tv_sec := c_div (tv_sec t) 3600 * 3600, tv_usec := 0\<rparr>"

definition Time_sharpMinute :: "timeval \<Rightarrow> timeval" where
  "Time_sharpMinute t = t\<lparr>tv_sec := c_div (tv_sec t) 60 * 60, tv_usec := 0\<rparr>"

definition nextPeriod :: "int \<Rightarrow> PeriodType \<Rightarrow> int \<Rightarrow> timeval \<Rightarrow> timeval" where
  "nextPeriod off type cnt t =
     (case type of
        kPeriodMinute \<Rightarrow> Time_addSecond (MINUTE_SECONDS * cnt) t
      | kPeriodHour \<Rightarrow> Time_addSecond (HOUR_SECONDS * cnt) t
      | kPeriodDay \<Rightarrow> Time_addSecond (DAY_SECONDS * cnt) t
      | kPeriodWeek \<Rightarrow> Time_addSecond (WEEK_SECONDS * cnt) t
      | kPeriodMonth \<Rightarrow> Time_set (fst (Date_stamp off (addMonth cnt (Time_toDate off t))))
      | kPeriodYear \<Rightarrow> Time_set (fst (Date_stamp off (addYear cnt (Time_toDate off t))))
      | _ \<Rightarrow> t)"

definition getFullDays :: "int \<Rightarrow> tm \<Rightarrow> int \<Rightarrow> timeval \<Rightarrow> int \<times> int" where
  "getFullDays off junk tz t =
     (let (s, tz') = Time_utcStamp off junk tz t in (c_div s DAY_SECONDS, tz'))"

text \<open>\<open>Date::addSecond\<close> goes through a \<open>Time\<close>; \<open>sharpWeek\<close> goes through it too.\<close>

definition Date_addSecond :: "int \<Rightarrow> int \<Rightarrow> tm \<Rightarrow> tm" where
  "Date_addSecond off second d =
     (let time = Time_set (fst (Date_stamp off d))
      in Date_set off (tv_sec (Time_addSecond second time)))"

definition sharpYear :: "tm \<Rightarrow> tm" where
  "sharpYear d = d\<lparr>tm_mon := 0, tm_mday := 1, tm_hour := 0, tm_min := 0, tm_sec := 0\<rparr>"

definition sharpMonth :: "tm \<Rightarrow> tm" where
  "sharpMonth d = d\<lparr>tm_mday := 1, tm_hour := 0, tm_min := 0, tm_sec := 0\<rparr>"

definition sharpDay :: "tm \<Rightarrow> tm" where
  "sharpDay d = d\<lparr>tm_hour := 0, tm_min := 0, tm_sec := 0\<rparr>"

definition sharpHour :: "tm \<Rightarrow> tm" where
  "sharpHour d = d\<lparr>tm_min := 0, tm_sec := 0\<rparr>"

definition sharpMinute :: "tm \<Rightarrow> tm" where
  "sharpMinute d = d\<lparr>tm_sec := 0\<rparr>"

definition sharpWeek :: "int \<Rightarrow> tm \<Rightarrow> tm" where
  "sharpWeek off d =
     (let d1 = sharpDay d in Date_addSecond off ((1 - Date_week d1) * DAY_SECONDS) d1)"

section \<open>Well-formed dates\<close>

text \<open>The values \<open>localtime_r\<close> gives the fields.\<close>

definition tm_ok :: "tm \<Rightarrow> bool" where
  "tm_ok t \<longleftrightarrow> 0 \<le> tm_sec t \<and> tm_sec t < 60 \<and> 0 \<le> tm_min t \<and> tm_min t < 60
     \<and> 0 \<le> tm_hour t \<and> tm_hour t < 24 \<and> 0 \<le> tm_mon t \<and> tm_mon t < 12
     \<and> 1 \<le> tm_mday t \<and> tm_mday t \<le> month_length (tm_year t + 1900) (tm_mon t)
     \<and> tm_wday t = (tm_day t + 1) mod 7
     \<and> tm_yday t = tm_day t - days_before_year (tm_year t + 1900)"

section \<open>The calendar: years and months of a day number\<close>

lemma div_step:
  fixes y k :: int
  assumes "0 < k"
  shows "y div k = (y - 1) div k + (if y mod k = 0 then 1 else 0)"
proof (cases "y mod k = 0")
  case True
  then have "y = k * (y div k)" by (simp add: minus_mod_eq_mult_div [symmetric])
  then have "y - 1 = (y div k - 1) * k + (k - 1)" by (simp add: algebra_simps)
  then have "(y - 1) div k = y div k - 1"
    using assms int_div_pos_eq [of "y - 1" k "y div k - 1" "k - 1"] by (simp add: mult.commute)
  then show ?thesis using True by simp
next
  case False
  then have "0 < y mod k" "y mod k < k"
    using assms pos_mod_sign [OF assms, of y] pos_mod_bound [OF assms, of y] by linarith+
  moreover have "y - 1 = k * (y div k) + (y mod k - 1)" by simp
  ultimately have "(y - 1) div k = y div k"
    using int_div_pos_eq [of "y - 1" k "y div k" "y mod k - 1"] by simp
  then show ?thesis using False by simp
qed

lemma leap_count:
  fixes x4 x100 x400 a b c :: int
  assumes "x4 = a + (if p then 1 else 0)" "x100 = b + (if q then 1 else 0)" "x400 = c + (if r then 1 else 0)"
    "q \<longrightarrow> p" "r \<longrightarrow> q"
  shows "x4 - x100 + x400 = a - b + c + (if p \<and> (\<not> q \<or> r) then 1 else 0)"
  unfolding assms(1-3) using assms(4,5) by (cases p; cases q; cases r) simp_all

lemma year_step: "days_before_year (y + 1) = days_before_year y + year_length y"
proof -
  have i4: "y mod 100 = 0 \<longrightarrow> y mod 4 = 0"
    using mod_mod_cancel [of 4 100 y] by auto
  have i100: "y mod 400 = 0 \<longrightarrow> y mod 100 = 0"
    using mod_mod_cancel [of 100 400 y] by auto
  have k: "0 < (4 :: int)" "0 < (100 :: int)" "0 < (400 :: int)" by simp_all
  note c = leap_count [OF div_step [OF k(1)] div_step [OF k(2)] div_step [OF k(3)] i4 i100]
  have "days_before_year (y + 1) = 365 * y + (y div 4 - y div 100 + y div 400)"
    "days_before_year y = 365 * (y - 1) + ((y - 1) div 4 - (y - 1) div 100 + (y - 1) div 400)"
    by (simp_all add: days_before_year_def)
  moreover have "year_length y = 365 + (if y mod 4 = 0 \<and> (\<not> y mod 100 = 0 \<or> y mod 400 = 0) then 1 else 0)"
    by (simp add: year_length_def leap_def)
  ultimately show ?thesis using c by (simp only:) (simp add: algebra_simps)
qed

lemma min_div_bounds:
  fixes m k b :: int
  assumes "0 \<le> m" and "0 < k" and "0 \<le> b"
  shows "0 \<le> min b (m div k)" and "0 \<le> m - k * min b (m div k)"
    and "min b (m div k) < b \<Longrightarrow> m - k * min b (m div k) < k"
proof -
  have m: "m = k * (m div k) + m mod k" "0 \<le> m mod k" "m mod k < k" "0 \<le> m div k"
    using assms by (simp_all add: pos_imp_zdiv_nonneg_iff)
  have "k * min b (m div k) \<le> k * (m div k)" using assms by simp
  then show "0 \<le> m - k * min b (m div k)" using m by linarith
  show "0 \<le> min b (m div k)" using m assms by simp
  assume "min b (m div k) < b"
  then have "min b (m div k) = m div k" by (simp add: min_def split: if_splits)
  then show "m - k * min b (m div k) < k" using m by (simp add: minus_mult_div_eq_mod)
qed

lemma year_of_day_bounds:
  "days_before_year (year_of_day n) \<le> n \<and> n < days_before_year (year_of_day n) + year_length (year_of_day n)"
proof -
  define q m where "q = n div 146097" and "m = n mod 146097"
  define c where "c = min 3 (m div 36524)"
  define m1 where "m1 = m - 36524 * c"
  define f m2 where "f = m1 div 1461" and "m2 = m1 mod 1461"
  define r where "r = min 3 (m2 div 365)"
  define y where "y = 400 * q + 100 * c + 4 * f + r + 1"
  have Y: "year_of_day n = y"
    by (simp add: year_of_day_def Let_def q_def m_def c_def m1_def f_def m2_def r_def y_def)
  have n: "n = 146097 * q + m" "0 \<le> m" "m < 146097" by (simp_all add: q_def m_def)
  have c: "0 \<le> c" "c \<le> 3" "0 \<le> m1" "c < 3 \<Longrightarrow> m1 < 36524"
    using min_div_bounds [of m 36524 3] n unfolding c_def m1_def by simp_all
  then have c5: "m1 < 36525" using n(3) m1_def by (cases "c = 3") auto
  have f: "m1 = 1461 * f + m2" "0 \<le> m2" "m2 < 1461" by (simp_all add: f_def m2_def)
  then have f4: "0 \<le> f" "f \<le> 24" using c(3) c5 by linarith+
  have r: "0 \<le> r" "r \<le> 3" "0 \<le> m2 - 365 * r" "r < 3 \<Longrightarrow> m2 - 365 * r < 365"
    using min_div_bounds [of m2 365 3] f unfolding r_def by simp_all
  have "(y - 1) div 4 = 100 * q + 25 * c + f" "(y - 1) div 100 = 4 * q + c" "(y - 1) div 400 = q"
    unfolding y_def using c f4 r by (auto intro: int_div_pos_eq)
  then have D: "days_before_year y = 146097 * q + 36524 * c + 1461 * f + 365 * r"
    by (simp add: days_before_year_def y_def)
  have lp: "leap y" if "r = 3" "f < 24 \<or> c = 3"
  proof -
    have "y = 4 * (100 * q + 25 * c + f + 1)" using that(1) by (simp add: y_def)
    then have "y mod 4 = 0" by (simp only: mod_mult_self1_is_0)
    moreover have "y mod 100 = 4 * f + 4" if "f < 24"
      using that \<open>r = 3\<close> f4 unfolding y_def by (intro int_mod_pos_eq [of _ _ "4 * q + c"]) auto
    moreover have "y = 400 * (q + 1)" if "f = 24" "c = 3" using that \<open>r = 3\<close> by (simp add: y_def)
    then have "y mod 400 = 0" if "f = 24" "c = 3" using that by (simp only: mod_mult_self1_is_0)
    ultimately show ?thesis using that(2) f4 unfolding leap_def by (cases "f < 24") auto
  qed
  have "m2 - 365 * r < year_length y"
  proof (cases "r = 3")
    case True
    then show ?thesis using lp c(2,4) f f4(2) unfolding year_length_def by (cases "f < 24 \<or> c = 3") auto
  next
    case False
    then show ?thesis using r unfolding year_length_def by auto
  qed
  then show ?thesis unfolding Y D using n(1) r(3) f(1) m1_def by linarith
qed

lemma year_mono: "y < y' \<Longrightarrow> days_before_year y + year_length y \<le> days_before_year y'"
proof (induction y' rule: int_gr_induct)
  case base
  then show ?case by (simp add: year_step)
next
  case (step i)
  then show ?case using year_step [of i] by (simp add: year_length_def split: if_splits)
qed

lemma year_of_day_eq:
  assumes "0 \<le> d" and "d < year_length y"
  shows "year_of_day (days_before_year y + d) = y"
  using assms year_of_day_bounds [of "days_before_year y + d"]
    year_mono [of "year_of_day (days_before_year y + d)" y]
    year_mono [of y "year_of_day (days_before_year y + d)"]
  by (cases y "year_of_day (days_before_year y + d)" rule: linorder_cases) auto

lemma month_length_pos [simp]: "0 < month_length y m"
  by (simp add: month_length_def)

lemma year_is_12_months: "days_before_month y 12 = year_length y"
  by (simp add: eval_nat_numeral month_length_def year_length_def)

lemma month_step:
  "0 \<le> m \<Longrightarrow> days_before_month y (nat (m + 1)) = days_before_month y (nat m) + month_length y m"
  by (simp add: nat_add_distrib)

lemma month_day_bounds:
  assumes "0 \<le> m" and "0 \<le> d"
    and "days_before_month y (nat m) + d < days_before_month y (nat m + Suc k)"
    and "month_day y k m d = (m', md)"
  shows "m \<le> m' \<and> m' \<le> m + int k \<and> 0 \<le> md \<and> md < month_length y m'
    \<and> days_before_month y (nat m') + md = days_before_month y (nat m) + d"
  using assms
proof (induction k arbitrary: m d)
  case 0
  then show ?case by simp
next
  case (Suc k)
  show ?case
  proof (cases "d < month_length y m")
    case True
    then show ?thesis using Suc.prems by simp
  next
    case False
    have "nat (m + 1) + Suc k = nat m + Suc (Suc k)" using Suc.prems(1) by simp
    then show ?thesis
      using Suc.IH [of "m + 1" "d - month_length y m"] Suc.prems False month_step [of m y] by simp
  qed
qed

lemma days_before_month_mono: "m < m' \<Longrightarrow> days_before_month y m + month_length y (int m) \<le> days_before_month y m'"
proof (induction m')
  case (Suc n)
  then have "m = n \<or> m < n" by auto
  then show ?case
  proof
    assume "m < n"
    from Suc.IH [OF this] show ?thesis
      using month_length_pos [of y "int n"] unfolding days_before_month.simps by linarith
  qed simp
qed simp

lemma month_day_eq:
  assumes "m < 12" and "0 \<le> md" and "md < month_length y (int m)"
  shows "month_day y 11 0 (days_before_month y m + md) = (int m, md)"
proof -
  obtain m' md' where e: "month_day y 11 0 (days_before_month y m + md) = (m', md')" by fastforce
  have nn: "0 \<le> days_before_month y m" for m
    by (induction m) (simp_all add: month_length_def)
  have "days_before_month y m + md < days_before_month y 12"
    using days_before_month_mono [OF assms(1), of y] assms(3) by simp
  with month_day_bounds [OF _ _ _ e] nn [of m] assms(2) have b: "0 \<le> m'" "0 \<le> md'" "md' < month_length y m'"
    "days_before_month y (nat m') + md' = days_before_month y m + md" by simp_all
  have "nat m' = m"
    using b assms days_before_month_mono [of "nat m'" m y] days_before_month_mono [of m "nat m'" y]
    by (cases "nat m'" m rule: linorder_cases) auto
  then show ?thesis using b e by auto
qed

lemma localtime_fields:
  assumes "stamp + off = (n - epoch_day) * 86400 + s" and "0 \<le> s" and "s < 86400"
    and "n = days_before_year y + days_before_month y m + md" and "m < 12" and "0 \<le> md"
    and "md < month_length y (int m)"
  shows "localtime_r off stamp = \<lparr>tm_sec = s mod 60, tm_min = s div 60 mod 60, tm_hour = s div 3600,
     tm_mday = md + 1, tm_mon = int m, tm_year = y - 1900, tm_wday = (n + 1) mod 7,
     tm_yday = days_before_month y m + md\<rparr>"
proof -
  let ?d = "days_before_month y m + md"
  have nn: "0 \<le> days_before_month y m"
    by (induction m) (simp_all add: month_length_def)
  have "?d < year_length y"
    using days_before_month_mono [OF assms(5), of y] assms(7) by (simp add: year_is_12_months)
  then have y: "year_of_day n = y" using year_of_day_eq [of ?d y] assms(4,6) nn by (simp add: add.assoc)
  have d: "(stamp + off) div 86400 + epoch_day = n" "(stamp + off) mod 86400 = s"
    using assms(1-3) int_div_pos_eq [of "stamp + off" 86400 "n - epoch_day" s]
      int_mod_pos_eq [of "stamp + off" 86400 "n - epoch_day" s] by (simp_all add: mult.commute)
  have "month_day y 11 0 (n - days_before_year y) = (int m, md)"
    using month_day_eq [OF assms(5-7)] assms(4) by (simp add: add.assoc)
  then show ?thesis unfolding localtime_r_def Let_def d y using assms(4) by simp
qed

lemma localtime_of_stamp:
  assumes "tm_ok t"
  shows "localtime_r off (tm_stamp off t) = t"
proof -
  let ?s = "tm_hour t * 3600 + tm_min t * 60 + tm_sec t" and ?y = "tm_year t + 1900"
  have m: "int (nat (tm_mon t)) = tm_mon t" "tm_mon t div 12 = 0" "tm_mon t mod 12 = tm_mon t"
    using assms by (simp_all add: tm_ok_def)
  have day: "tm_day t = days_before_year ?y + days_before_month ?y (nat (tm_mon t)) + (tm_mday t - 1)"
    unfolding tm_day_def Let_def m by simp
  have "tm_stamp off t + off = (tm_day t - epoch_day) * 86400 + ?s" by (simp add: tm_stamp_def)
  from localtime_fields [OF this _ _ day] have
    "localtime_r off (tm_stamp off t) = \<lparr>tm_sec = ?s mod 60, tm_min = ?s div 60 mod 60, tm_hour = ?s div 3600,
     tm_mday = tm_mday t, tm_mon = tm_mon t, tm_year = tm_year t, tm_wday = tm_wday t, tm_yday = tm_yday t\<rparr>"
    using assms day m(1) by (auto simp: tm_ok_def)
  moreover have "?s div 60 = tm_hour t * 60 + tm_min t" "?s div 3600 = tm_hour t" "?s mod 60 = tm_sec t"
    using assms int_div_pos_eq [of ?s 60 "tm_hour t * 60 + tm_min t" "tm_sec t"]
      int_div_pos_eq [of ?s 3600 "tm_hour t" "tm_min t * 60 + tm_sec t"]
      int_mod_pos_eq [of ?s 60 "tm_hour t * 60 + tm_min t" "tm_sec t"] by (simp_all add: tm_ok_def)
  moreover have "(tm_hour t * 60 + tm_min t) mod 60 = tm_min t" using assms by (simp add: tm_ok_def)
  ultimately show ?thesis by (cases t) simp
qed

lemma stamp_of_localtime: "tm_ok (localtime_r off s) \<and> tm_stamp off (localtime_r off s) = s"
proof -
  define n where "n = (s + off) div 86400 + epoch_day"
  define sec where "sec = (s + off) mod 86400"
  define y where "y = year_of_day n"
  let ?d = "n - days_before_year y"
  obtain m md where md: "month_day y 11 0 ?d = (m, md)" by fastforce
  have b: "0 \<le> ?d" "?d < year_length y"
    using year_of_day_bounds [of n] by (simp_all add: y_def)
  have k: "0 \<le> m" "m \<le> 11" "0 \<le> md" "md < month_length y m" "days_before_month y (nat m) + md = ?d"
    using month_day_bounds [OF _ b(1) _ md] b(2) year_is_12_months [of y] by simp_all
  have e1: "s + off = (n - epoch_day) * 86400 + sec" and e2: "0 \<le> sec" "sec < 86400"
    by (simp_all add: n_def sec_def)
  have e3: "n = days_before_year y + days_before_month y (nat m) + md" using k by simp
  have t: "localtime_r off s = \<lparr>tm_sec = sec mod 60, tm_min = sec div 60 mod 60, tm_hour = sec div 3600,
     tm_mday = md + 1, tm_mon = m, tm_year = y - 1900, tm_wday = (n + 1) mod 7, tm_yday = ?d\<rparr>"
    using localtime_fields [OF e1 e2 e3] k by simp
  have sum: "sec div 3600 * 3600 + sec div 60 mod 60 * 60 + sec mod 60 = sec"
  proof -
    have "sec div 3600 = sec div 60 div 60" using zdiv_zmult2_eq [of 60 sec 60] by simp
    moreover have "sec div 60 div 60 * 60 + sec div 60 mod 60 = sec div 60" "sec div 60 * 60 + sec mod 60 = sec"
      by (rule div_mult_mod_eq)+
    ultimately show ?thesis by linarith
  qed
  have h: "sec div 3600 < 24" "0 \<le> sec div 3600"
    using e2 by (simp_all add: pos_imp_zdiv_nonneg_iff div_less_iff_less_mult)
  have day: "tm_day (localtime_r off s) = n" using k by (simp add: t tm_day_def)
  have r: "0 \<le> sec mod 60" "sec mod 60 < 60" "0 \<le> sec div 60 mod 60" "sec div 60 mod 60 < 60"
    by simp_all
  have f: "tm_sec (localtime_r off s) = sec mod 60" "tm_min (localtime_r off s) = sec div 60 mod 60"
    "tm_hour (localtime_r off s) = sec div 3600" "tm_mday (localtime_r off s) = md + 1"
    "tm_mon (localtime_r off s) = m" "tm_year (localtime_r off s) + 1900 = y"
    "tm_wday (localtime_r off s) = (n + 1) mod 7" "tm_yday (localtime_r off s) = ?d"
    unfolding t by simp_all
  have "m < 12" "1 \<le> md + 1" "md + 1 \<le> month_length y m" using k by linarith+
  then have "tm_ok (localtime_r off s)" unfolding tm_ok_def f day using h r k(1) by blast
  moreover have "tm_stamp off (localtime_r off s) = s"
    unfolding tm_stamp_def f day using sum e1 by linarith
  ultimately show ?thesis by blast
qed

section \<open>The properties of dates and times\<close>

lemma Date_set_ok [simp]: "tm_ok (Date_set off s)" "tm_stamp off (Date_set off s) = s"
  using stamp_of_localtime [of off s] by (simp_all add: Date_set_def)

lemma Date_stamp_eq: "Date_stamp off d = (tm_stamp off d, Date_set off (tm_stamp off d))"
  by (simp add: Date_stamp_def mktime_def Let_def Date_set_def)

lemma c_mod_zero_iff: "0 < k \<Longrightarrow> c_mod x k = 0 \<longleftrightarrow> x mod k = 0"
  using less_imp_neq [OF pos_mod_bound [of k x]]
  by (cases "0 \<le> x") (auto simp: c_mod_nonneg c_mod_neg zmod_zminus1_eq_if simp del: pos_mod_bound)

lemma getMonthDays_eq:
  assumes "0 \<le> tm_mon d" and "tm_mon d < 12"
  shows "getMonthDays d = month_length (Date_year d) (tm_mon d)
    - (if tm_mon d = 1 \<and> Date_year d mod 400 = 0 then 1 else 0)"
proof -
  have "tm_mon d = 0 \<or> tm_mon d = 1 \<or> tm_mon d = 2 \<or> tm_mon d = 3 \<or> tm_mon d = 4 \<or> tm_mon d = 5
     \<or> tm_mon d = 6 \<or> tm_mon d = 7 \<or> tm_mon d = 8 \<or> tm_mon d = 9 \<or> tm_mon d = 10 \<or> tm_mon d = 11"
    using assms by presburger
  moreover have "Date_year d mod 400 = 0 \<Longrightarrow> Date_year d mod 100 = 0 \<and> Date_year d mod 4 = 0"
    using mod_mod_cancel [of 100 400 "Date_year d"] mod_mod_cancel [of 4 400 "Date_year d"] by simp
  ultimately show ?thesis
    by (auto simp: getMonthDays_def Date_month_def month_length_def isLeapYear_def leap_def c_mod_zero_iff Let_def)
qed

lemma c_div_mod_12:
  assumes "m < 0"
  shows "c_mod m 12 \<le> 0 \<and> - 12 < c_mod m 12 \<and> 12 * c_div m 12 + c_mod m 12 = m"
  using assms c_div_mod_eq [of m 12] by (simp add: c_mod_neg)



lemma tm_stamp_parts:
  assumes "tm_ok d"
  shows "(tm_stamp off d + off) mod 86400 = tm_hour d * 3600 + tm_min d * 60 + tm_sec d"
    and "(tm_stamp off d + off) mod 3600 = tm_min d * 60 + tm_sec d"
    and "(tm_stamp off d + off) mod 60 = tm_sec d"
    and "(tm_stamp off d + off) div 86400 = tm_day d - epoch_day"
proof -
  let ?x = "tm_stamp off d + off"
  have x: "?x = 86400 * (tm_day d - epoch_day) + (tm_hour d * 3600 + tm_min d * 60 + tm_sec d)"
    "?x = 3600 * (24 * (tm_day d - epoch_day) + tm_hour d) + (tm_min d * 60 + tm_sec d)"
    "?x = 60 * (1440 * (tm_day d - epoch_day) + tm_hour d * 60 + tm_min d) + tm_sec d"
    by (simp_all add: tm_stamp_def)
  show "?x mod 86400 = tm_hour d * 3600 + tm_min d * 60 + tm_sec d"
    "?x div 86400 = tm_day d - epoch_day"
    using int_mod_pos_eq [OF x(1)] int_div_pos_eq [OF x(1)] assms by (simp_all add: tm_ok_def)
  show "?x mod 3600 = tm_min d * 60 + tm_sec d" using int_mod_pos_eq [OF x(2)] assms by (simp add: tm_ok_def)
  show "?x mod 60 = tm_sec d" using int_mod_pos_eq [OF x(3)] assms by (simp add: tm_ok_def)
qed

lemma to_int_id: "- (2 ^ 31) \<le> x \<Longrightarrow> x < 2 ^ 31 \<Longrightarrow> to_int x = x"
  by (simp add: to_int_def)

lemma sharpWeek_stamp:
  "tm_stamp off (sharpWeek off (Date_set off s)) = s - (s + off + 3 * DAY_SECONDS) mod WEEK_SECONDS"
proof -
  let ?d = "Date_set off s" and ?D = "sharpDay (Date_set off s)"
  define day sec where "day = (s + off) div 86400" and "sec = (s + off) mod 86400"
  have so: "s + off = 86400 * day + sec" "0 \<le> sec" "sec < 86400" by (simp_all add: day_def sec_def)
  have p: "day = tm_day ?d - epoch_day" "sec = tm_hour ?d * 3600 + tm_min ?d * 60 + tm_sec ?d"
    using tm_stamp_parts(1,4) [of ?d off] by (simp_all add: day_def sec_def)
  have D: "tm_day ?D = tm_day ?d" "tm_wday ?D = tm_wday ?d" by (simp_all add: sharpDay_def tm_day_def)
  have wd: "tm_wday ?d = (day + epoch_day + 1) mod 7"
    using Date_set_ok(1) [of off s] p(1) by (simp add: tm_ok_def)
  have wd': "tm_wday ?d = (day + 4) mod 7"
    using mod_mult_self2 [of "day + 4" 7 102737] wd by (simp add: epoch_day_def)
  have wk: "Date_week ?D - 1 = (day + 3) mod 7"
    unfolding Date_week_def D wd' by presburger
  then have "to_int ((1 - Date_week ?D) * DAY_SECONDS) = - ((day + 3) mod 7) * 86400"
    by (subst to_int_id) (auto simp: DAY_SECONDS_def HOUR_SECONDS_def)
  moreover have "tm_stamp off ?D = s - sec"
    using so p D by (simp add: tm_stamp_def sharpDay_def)
  ultimately have l: "tm_stamp off (sharpWeek off ?d) = s - sec - (day + 3) mod 7 * 86400"
    by (simp add: sharpWeek_def Let_def Date_addSecond_def Date_stamp_eq Time_addSecond_def Time_set_def)
  have "s + off + 3 * DAY_SECONDS = WEEK_SECONDS * ((day + 3) div 7) + ((day + 3) mod 7 * 86400 + sec)"
  proof -
    have "7 * ((day + 3) div 7) + (day + 3) mod 7 = day + 3" by (rule mult_div_mod_eq)
    then have "604800 * ((day + 3) div 7) + (day + 3) mod 7 * 86400 = 86400 * (day + 3)"
      by (simp only: ring_distribs)
    then show ?thesis using so(1) by (simp add: DAY_SECONDS_def WEEK_SECONDS_def HOUR_SECONDS_def)
  qed
  from int_mod_pos_eq [OF this] have "(s + off + 3 * DAY_SECONDS) mod WEEK_SECONDS = (day + 3) mod 7 * 86400 + sec"
    using so(2,3) pos_mod_bound [of 7 "day + 3"] by (simp add: DAY_SECONDS_def WEEK_SECONDS_def HOUR_SECONDS_def)
  then show ?thesis using l by simp
qed

text \<open>The \<open>sharp\<close> operations round a date down to the start of its minute, hour, day and week in
  local time; a week starts on Monday.\<close>

theorem sharp_rounds_down:
  "fst (Date_stamp off (sharpMinute (Date_set off s))) = s - (s + off) mod MINUTE_SECONDS
   \<and> fst (Date_stamp off (sharpHour (Date_set off s))) = s - (s + off) mod HOUR_SECONDS
   \<and> fst (Date_stamp off (sharpDay (Date_set off s))) = s - (s + off) mod DAY_SECONDS
   \<and> fst (Date_stamp off (sharpWeek off (Date_set off s))) = s - (s + off + 3 * DAY_SECONDS) mod WEEK_SECONDS"
proof -
  have st: "tm_stamp off (Date_set off s) = s" by simp
  have "tm_stamp off (sharpMinute (Date_set off s)) = s - tm_sec (Date_set off s)"
    "tm_stamp off (sharpHour (Date_set off s)) = s - (tm_min (Date_set off s) * 60 + tm_sec (Date_set off s))"
    "tm_stamp off (sharpDay (Date_set off s))
       = s - (tm_hour (Date_set off s) * 3600 + tm_min (Date_set off s) * 60 + tm_sec (Date_set off s))"
    using st by (simp_all add: tm_stamp_def tm_day_def sharpMinute_def sharpHour_def sharpDay_def)
  then show ?thesis
    using tm_stamp_parts(1-3) [of "Date_set off s" off] sharpWeek_stamp [of off s]
    by (simp add: Date_stamp_eq MINUTE_SECONDS_def HOUR_SECONDS_def DAY_SECONDS_def)
qed

text \<open>Adding months forwards. From a well-formed date, \<open>addMonth(k)\<close> with \<open>k \<ge> 0\<close> moves exactly \<open>k\<close>
  months on, carrying into the year, keeps the time of the day and the day of the month, and cuts the
  latter to the number of days that \<open>getMonthDays\<close> gives the new month, which is the length of that
  month except for February of a year divisible by 400.\<close>

theorem addMonth_forward:
  assumes "tm_ok d" and "0 \<le> k" and "r = addMonth k d"
  shows "12 * tm_year r + tm_mon r = 12 * tm_year d + tm_mon d + k \<and> 0 \<le> tm_mon r \<and> tm_mon r < 12
    \<and> tm_mday r = min (tm_mday d) (getMonthDays r)
    \<and> getMonthDays r = month_length (Date_year r) (tm_mon r)
        - (if tm_mon r = 1 \<and> Date_year r mod 400 = 0 then 1 else 0)
    \<and> (tm_hour r, tm_min r, tm_sec r) = (tm_hour d, tm_min d, tm_sec d)"
proof -
  let ?m = "tm_mon d + k"
  let ?e = "d\<lparr>tm_mon := ?m mod 12, tm_year := tm_year d + ?m div 12\<rparr>"
  have nn: "0 \<le> ?m" using assms by (simp add: tm_ok_def)
  then have r: "r = clip_day ?e"
    by (simp add: assms(3) addMonth_def Let_def c_div_nonneg c_mod_nonneg)
  have same: "tm_mon r = tm_mon ?e" "tm_year r = tm_year ?e" "tm_hour r = tm_hour d" "tm_min r = tm_min d"
    "tm_sec r = tm_sec d" by (simp_all add: r clip_day_def Let_def)
  then have g: "getMonthDays r = getMonthDays ?e"
    by (simp add: getMonthDays_def Date_month_def Date_year_def isLeapYear_def)
  have "tm_mday r = min (tm_mday d) (getMonthDays ?e)" by (simp add: r clip_day_def Let_def)
  moreover have "0 \<le> tm_mon r" "tm_mon r < 12" using same by simp_all
  moreover have "12 * tm_year r + tm_mon r = 12 * tm_year d + tm_mon d + k"
    using same by simp
  ultimately show ?thesis using same g getMonthDays_eq [of r] by simp
qed

theorem addMonth_forward_witness:
  "Date_toString (addMonth 13 (Date_set 28800 1706659200)) = ''2025-02-28 08:00:00''
   \<and> tm_mon (addMonth 13 (Date_set 28800 1706659200)) < 12"
proof -
  have "Date_toString (addMonth 13 (Date_set 28800 1706659200)) = ''2025-02-28 08:00:00''" by code_simp
  then show ?thesis using addMonth_forward [of "Date_set 28800 1706659200" 13, OF _ _ refl] by simp
qed

text \<open>Adding a negative number of months. When \<open>addMonth(-k)\<close> goes back before January of the year
  and the wanted month is not itself a January, the remainder of the division leaves a negative
  month, for which \<open>getMonthDays\<close> answers 0: the date then denotes the last day of the month
  \<^emph>\<open>before\<close> the wanted one, whatever the day was. One month back from any day of January is the
  30th of November.\<close>

theorem addMonth_backward:
  assumes "tm_ok d" and "0 \<le> m" and "m < 12" and "m \<noteq> 0" and "y < tm_year d"
    and "12 * y + m = 12 * tm_year d + tm_mon d - k"
  shows "tm_mday (addMonth (- k) d) = 0
    \<and> tm_day (addMonth (- k) d) = days_before_year (y + 1900) + days_before_month (y + 1900) (nat m) - 1"
proof -
  let ?M = "tm_mon d - k"
  let ?q = "c_div ?M 12" and ?r = "c_mod ?M 12"
  have neg: "?M < 0" and M: "?M = 12 * (y - tm_year d) + m" using assms by auto
  have b: "?r \<le> 0" "- 12 < ?r" "12 * ?q + ?r = ?M" using c_div_mod_12 [OF neg] by auto
  have "?M mod 12 = m" using M assms(2,3) by (intro int_mod_pos_eq [of _ _ "y - tm_year d"]) auto
  then have "?r \<noteq> 0" using c_mod_zero_iff [of 12 ?M] assms(4) by simp
  then have r: "?r < 0" using b(1) by simp
  have mm: "?r div 12 = - 1" "?r mod 12 = ?r + 12"
    using r b(2) int_div_pos_eq [of ?r 12 "- 1" "?r + 12"] int_mod_pos_eq [of ?r 12 "- 1" "?r + 12"] by auto
  have "q - 1 = z \<and> i + 12 = m" if "12 * q + i = 12 * z + m" "- 12 < i" "i < 0" for q i z
    using that assms(2-4) by presburger
  from this [of ?q ?r "y - tm_year d"] have e: "?r + 12 = m" "tm_year d + ?q - 1 = y"
    using b r M by auto
  let ?e = "d\<lparr>tm_mon := ?r, tm_year := tm_year d + ?q\<rparr>"
  have "getMonthDays ?e = 0" using r by (auto simp: getMonthDays_def Date_month_def Let_def)
  moreover have "1 \<le> tm_mday d" using assms(1) by (simp add: tm_ok_def)
  ultimately have a: "addMonth (- k) d = ?e\<lparr>tm_mday := 0\<rparr>"
    by (simp add: addMonth_def clip_day_def Let_def)
  have "tm_year d + ?q + 1900 + - 1 = y + 1900" using e(2) by simp
  then show ?thesis unfolding a by (simp add: tm_day_def Let_def mm e add.commute [of 1900])
qed

theorem addMonth_backward_witness:
  "Date_toString (snd (Date_stamp 0 (addMonth (- 1) (Date_set 0 1579046400)))) = ''2019-11-30 00:00:00''
   \<and> tm_mday (addMonth (- 1) (Date_set 0 1579046400)) = 0"
proof -
  have "Date_toString (snd (Date_stamp 0 (addMonth (- 1) (Date_set 0 1579046400)))) = ''2019-11-30 00:00:00''"
    by code_simp
  moreover have "tm_year (Date_set 0 1579046400) = 120" "tm_mon (Date_set 0 1579046400) = 0" by code_simp+
  ultimately show ?thesis using addMonth_backward [of "Date_set 0 1579046400" 11 119 1] by simp
qed

lemma getTimeZoneOffset_eq:
  assumes "- (2 ^ 31) < off" and "off < 2 ^ 31"
  shows "getTimeZoneOffset off junk INT_MIN = (- off, - off)"
    and "getTimeZoneOffset off junk (- off) = (- off, - off)"
proof -
  have "days_before_year 1970 = epoch_day" by (simp add: days_before_year_def epoch_day_def)
  then have "tm_stamp off (Date_ymd junk 1970 1 1 0 0 0) = - off"
    by (simp add: Date_ymd_def tm_stamp_def tm_day_def Let_def)
  then show "getTimeZoneOffset off junk INT_MIN = (- off, - off)"
    using assms by (simp add: getTimeZoneOffset_def Date_stamp_eq to_int_id Let_def)
  then show "getTimeZoneOffset off junk (- off) = (- off, - off)"
    using assms by (auto simp: getTimeZoneOffset_def INT_MIN_def)
qed

text \<open>\<open>getTimeZoneOffset\<close> is minus the offset of the zone, computed once. \<open>utcStamp\<close> adds it to a time
  stamp that already counts from the epoch in UTC, so that \<open>getFullDays\<close> does not change at midnight:
  in a zone \<open>off\<close> seconds ahead of UTC it changes twice that far into the local day.\<close>

theorem getFullDays_not_at_midnight:
  assumes "0 < off" and "2 * off < DAY_SECONDS" and "0 < n"
    and "tz = INT_MIN \<or> tz = - off"
  shows "(let t1 = Time_set (DAY_SECONDS * n + off - 1); t2 = Time_set (DAY_SECONDS * n + off)
     in tm_day (Time_toDate off t1) = tm_day (Time_toDate off t2)
        \<and> fst (getFullDays off junk tz t1) = n - 1 \<and> fst (getFullDays off junk tz t2) = n)"
proof -
  have day: "86400 = DAY_SECONDS" by (simp add: DAY_SECONDS_def HOUR_SECONDS_def)
  have z: "fst (getTimeZoneOffset off junk tz) = - off"
    using assms getTimeZoneOffset_eq [of off junk] day by auto
  have u: "fst (getFullDays off junk tz (Time_set s)) = c_div (s - off) DAY_SECONDS" for s
    using z by (cases "getTimeZoneOffset off junk tz")
      (simp add: getFullDays_def Time_utcStamp_def Time_set_def Let_def)
  have td: "tm_day (Time_toDate off (Time_set s)) = (s + off) div DAY_SECONDS + epoch_day" for s
    using tm_stamp_parts(4) [of "Date_set off s" off] by (simp add: Time_toDate_def Time_set_def day)
  have "(DAY_SECONDS * n + off - 1 + off) div DAY_SECONDS = n" "(DAY_SECONDS * n + off + off) div DAY_SECONDS = n"
    using assms(1,2) int_div_pos_eq [of "DAY_SECONDS * n + off - 1 + off" DAY_SECONDS n "2 * off - 1"]
      int_div_pos_eq [of "DAY_SECONDS * n + off + off" DAY_SECONDS n "2 * off"] by simp_all
  moreover have "c_div (DAY_SECONDS * n - 1) DAY_SECONDS = n - 1" "c_div (DAY_SECONDS * n) DAY_SECONDS = n"
    using assms(3) int_div_pos_eq [of "DAY_SECONDS * n - 1" DAY_SECONDS "n - 1" "DAY_SECONDS - 1"]
    by (simp_all add: c_div_nonneg day [symmetric])
  ultimately show ?thesis by (simp add: Let_def td u)
qed

theorem getFullDays_not_at_midnight_witness:
  "(let t1 = Time_set (86400 * 20000 + 28799); t2 = Time_set (86400 * 20000 + 28800)
     in Date_toString (Time_toDate 28800 t2) = ''2024-10-04 16:00:00''
      \<and> fst (getFullDays 28800 (Date_set 0 0) INT_MIN t1) = 19999
      \<and> fst (getFullDays 28800 (Date_set 0 0) INT_MIN t2) = 20000)"
proof -
  have "Date_toString (Time_toDate 28800 (Time_set (86400 * 20000 + 28800))) = ''2024-10-04 16:00:00''"
    by code_simp
  then show ?thesis
    using getFullDays_not_at_midnight [of 28800 20000 INT_MIN "Date_set 0 0"]
    by (simp add: Let_def DAY_SECONDS_def HOUR_SECONDS_def)
qed

text \<open>\<open>nextPeriod\<close> moves a time by exactly the given number of minutes, hours, days or weeks as long as
  the number of seconds fits an \<open>int\<close>; beyond that the conversion wraps, and for example 24856 days
  forwards goes back in time.\<close>

theorem nextPeriod_seconds:
  assumes "(type, p) \<in> {(kPeriodMinute, MINUTE_SECONDS), (kPeriodHour, HOUR_SECONDS), (kPeriodDay, DAY_SECONDS),
      (kPeriodWeek, WEEK_SECONDS)}"
  shows "(- (2 ^ 31) \<le> p * n \<longrightarrow> p * n < 2 ^ 31 \<longrightarrow> tv_sec (nextPeriod off type n t) = tv_sec t + p * n)
    \<and> (2 ^ 31 \<le> p * n \<longrightarrow> p * n < 2 ^ 32 \<longrightarrow> tv_sec (nextPeriod off type n t) < tv_sec t)"
proof -
  have e: "tv_sec (nextPeriod off type n t) = tv_sec t + to_int (p * n)"
    using assms by (auto simp: nextPeriod_def Time_addSecond_def)
  have "to_int x < 0" if "2 ^ 31 \<le> x" "x < 2 ^ 32" for x
  proof -
    have "(x + 2 ^ 31) mod 2 ^ 32 = x - 2 ^ 31"
      using that by (intro int_mod_pos_eq [of _ _ 1]) auto
    then show ?thesis using that by (simp add: to_int_def)
  qed
  then show ?thesis unfolding e using to_int_id by auto
qed

theorem nextPeriod_seconds_witness:
  "tv_sec (nextPeriod 0 kPeriodWeek 3 (Time_set 5)) = 1814405
   \<and> tv_sec (nextPeriod 0 kPeriodDay 24856 (Time_set 5)) < 5"
  using nextPeriod_seconds [of kPeriodWeek WEEK_SECONDS 3 0 "Time_set 5"]
    nextPeriod_seconds [of kPeriodDay DAY_SECONDS 24856 0 "Time_set 5"]
  by (simp add: Time_set_def WEEK_SECONDS_def DAY_SECONDS_def HOUR_SECONDS_def)

end
