(* ===== verification/EcData.thy ===== *)
theory EcData
  imports EcStream
begin

text \<open>
  \<open>Data\<close> of \<open>src/libeventc++11/include/ec/data.h\<close>: a block of bytes with its size, the payload of
  the event loop's messages. The pointer is \<open>None\<close> for null. The class frees its block in
  \<open>reset\<close> only; it has no destructor.
\<close>

record data =
  data_ptr :: "bytes option"
  data_size :: u16

definition Data :: data where
  "Data = \<lparr>data_ptr = None, data_size = 0\<rparr>"

text \<open>The copy constructor moves: it returns the new object and what it leaves of the old one.\<close>

definition Data_copy :: "data \<Rightarrow> data \<times> data" where
  "Data_copy d = (\<lparr>data_ptr = data_ptr d, data_size = data_size d\<rparr>, d\<lparr>data_ptr := None, data_size := 0\<rparr>)"

definition Data_reset :: "data \<Rightarrow> data" where
  "Data_reset d = d\<lparr>data_ptr := None, data_size := 0\<rparr>"

text \<open>\<open>set(data, dataSize)\<close>: the argument is \<open>None\<close> for null; the block it points to has at least
  \<open>dataSize\<close> bytes.\<close>

definition Data_set :: "bytes option \<Rightarrow> u16 \<Rightarrow> data \<Rightarrow> data" where
  "Data_set dat dataSize d =
     (case dat of
        None \<Rightarrow> d
      | Some bs \<Rightarrow>
          if dataSize > 0
          then (Data_reset d)\<lparr>data_ptr := Some (take (unat dataSize) bs), data_size := dataSize\<rparr>
          else d)"

definition Data_of :: "bytes option \<Rightarrow> u16 \<Rightarrow> data" where
  "Data_of dat dataSize = Data_set dat dataSize Data"

definition Data_put :: "'t pod \<Rightarrow> 't \<Rightarrow> data \<Rightarrow> data" where
  "Data_put p value d = Data_set (Some (pod_bytes p value)) (word_of_nat (pod_size p)) (Data_reset d)"

text \<open>\<open>get\<close> copies the size of the wanted type; \<open>None\<close> is a read outside the block.\<close>

definition Data_get :: "'t pod \<Rightarrow> data \<Rightarrow> 't option" where
  "Data_get p d =
     (case data_ptr d of
        None \<Rightarrow> None
      | Some bs \<Rightarrow> if pod_size p \<le> length bs then Some (pod_of p (take (pod_size p) bs)) else None)"

text \<open>The pointer and the size agree.\<close>

definition data_ok :: "data \<Rightarrow> bool" where
  "data_ok d \<longleftrightarrow>
     (case data_ptr d of None \<Rightarrow> data_size d = 0 | Some bs \<Rightarrow> bs \<noteq> [] \<and> length bs = unat (data_size d))"

lemma data_ok_set:
  "data_ok d \<Longrightarrow> (\<And>bs. dat = Some bs \<Longrightarrow> unat n \<le> length bs) \<Longrightarrow> data_ok (Data_set dat n d)"
  by (auto simp: data_ok_def Data_set_def Data_reset_def word_less_nat_alt split: option.splits if_splits)

lemma data_ok_ops:
  "data_ok Data" "data_ok (Data_reset d)" "data_ok d \<Longrightarrow> data_ok (fst (Data_copy d)) \<and> data_ok (snd (Data_copy d))"
  by (auto simp: data_ok_def Data_def Data_reset_def Data_copy_def split: option.splits)

text \<open>What was stored as a value of a plain type is read back, whatever the object held before. Where
  the size is 0 or the pointer null, \<open>set\<close> leaves the old contents in place.\<close>

lemma Data_put_get:
  assumes "pod_ok p" and "0 < pod_size p" and "pod_size p < 65536"
  shows "Data_get p (Data_put p v d) = Some v"
proof -
  have "unat (word_of_nat (pod_size p) :: u16) = pod_size p" using assms(3) by (simp add: unat_of_nat)
  then show ?thesis
    using assms by (simp add: Data_get_def Data_put_def Data_set_def Data_reset_def word_less_nat_alt pod_ok_def)
qed

lemma Data_set_empty: "Data_set dat 0 d = d" "Data_set None n d = d"
  by (simp_all add: Data_set_def split: option.split)

end
