(* ===== verification/EcLoop.thy ===== *)
theory EcLoop
  imports EcData Queues "HOL-Library.AList"
begin

text \<open>
  The event loop of \<open>src/libeventc++11\<close>: \<open>Loop\<close> (\<open>include/ec/loop.h\<close>, \<open>src/loop.cpp\<close>) and the messages
  between loops (\<open>include/ec/async.h\<close>).

  The state is a heap of \<open>Loop\<close> objects by address, the static registry \<open>s_loops\<close> from identifiers to
  addresses, the identifier generator, and the state of the application, which the registered
  handlers change. A handler returns the new application state and whether it threw. What a handler
  asks of the loops (another \<open>async\<close>, a \<open>stop\<close>) only enters locked queues and flags and is a step of
  its own. The methods of libevent are parameters: whether \<open>event_new\<close> and \<open>event_add\<close> succeed, and
  what \<open>event_base_loop\<close> does to the state; a call of \<open>event_base_loopexit\<close> is recorded in the loop.

  The lemmas show that the registry is sound, that a frame handles every queued message once and in
  order and returns each request to the loop it came from, and how the count of pending requests that
  \<open>stop\<close> waits for goes wrong between two loops.
\<close>

section \<open>Messages and loops\<close>

type_synonym Command = u16

text \<open>An asynchronous handler sees command, request and response and may replace the response.\<close>

type_synonym 'a async_handler = "Command \<Rightarrow> data \<Rightarrow> data \<Rightarrow> 'a \<Rightarrow> 'a \<times> data \<times> bool"
type_synonym 'a post_handler = "data \<Rightarrow> 'a \<Rightarrow> 'a \<times> bool"
type_synonym 'a frame_handler = "u64 \<Rightarrow> 'a \<Rightarrow> 'a \<times> bool"

datatype event = kEventStart | kEventRun | kEventEnd

text \<open>An event handler also returns a flag.\<close>

type_synonym 'a event_handler = "event \<Rightarrow> 'a \<Rightarrow> 'a \<times> bool \<times> bool"

record 'a AsyncContext =
  ctx_loopId :: u32
  ctx_cmd :: Command
  ctx_request :: data
  ctx_response :: data
  ctx_handler :: "'a async_handler option"

text \<open>An empty function object is \<open>None\<close>. The virtual methods are fields; \<open>onAsync\<close> and the others
  of the class itself do nothing.\<close>

record 'a loop =
  loop_id :: u32
  loop_thread :: bool
  frameEvent :: bool
  frameRound :: u64
  isStopping :: bool
  loopexit :: bool
  asyncPosts :: "data safe_queue"
  asyncRequests :: "'a AsyncContext safe_queue"
  asyncResponses :: "'a AsyncContext safe_queue"
  asyncPendingCount :: "32 word"
  asyncHandlers :: "Command \<Rightarrow> 'a async_handler option option"
  postHandler :: "'a post_handler option"
  eventHandlers :: "event \<Rightarrow> 'a event_handler option"
  frameHandlerFn :: "'a frame_handler option"
  onAsync :: "'a async_handler"
  onPost :: "'a post_handler"
  onEvent :: "'a event_handler"
  onFrame :: "'a frame_handler"

record 'a world =
  heap :: "nat \<Rightarrow> 'a loop option"
  s_loops :: "(u32 \<times> nat) list"
  s_idGenerater :: u32
  inits :: int
  app :: 'a

definition world0 :: "'a \<Rightarrow> 'a world" where
  "world0 a = \<lparr>heap = (\<lambda>_. None), s_loops = [], s_idGenerater = 0, inits = 0, app = a\<rparr>"

definition upd :: "nat \<Rightarrow> ('a loop \<Rightarrow> 'a loop) \<Rightarrow> 'a world \<Rightarrow> 'a world" where
  "upd p f w = w\<lparr>heap := (heap w)(p := map_option f (heap w p))\<rparr>"

definition Loop0 :: "'a loop" where
  "Loop0 = \<lparr>loop_id = 0, loop_thread = False, frameEvent = False, frameRound = 0, isStopping = False,
     loopexit = False, asyncPosts = \<lparr>sq_elements = []\<rparr>, asyncRequests = \<lparr>sq_elements = []\<rparr>,
     asyncResponses = \<lparr>sq_elements = []\<rparr>, asyncPendingCount = 0, asyncHandlers = (\<lambda>_. None),
     postHandler = None, eventHandlers = (\<lambda>_. None), frameHandlerFn = None,
     onAsync = (\<lambda>cmd request response a. (a, response, False)), onPost = (\<lambda>d a. (a, False)),
     onEvent = (\<lambda>e a. (a, True, False)), onFrame = (\<lambda>r a. (a, False))\<rparr>"

section \<open>Creation and destruction\<close>

text \<open>\<open>Loop::init\<close> and \<open>Loop::uninit\<close> prepare and clean up the thread support of libevent; the model
  counts the calls. The constructor of an object at the fresh address \<open>p\<close>, whose class overrides the
  virtual methods as \<open>cls\<close> does.\<close>

definition Loop_init :: "'a world \<Rightarrow> 'a world" where
  "Loop_init w = w\<lparr>inits := inits w + 1\<rparr>"

definition Loop_uninit :: "'a world \<Rightarrow> 'a world" where
  "Loop_uninit w = w\<lparr>inits := inits w - 1\<rparr>"

definition Loop_new :: "nat \<Rightarrow> ('a loop \<Rightarrow> 'a loop) \<Rightarrow> 'a world \<Rightarrow> 'a world" where
  "Loop_new p cls w =
     (let g = s_idGenerater w + 1;
          w1 = w\<lparr>s_idGenerater := g\<rparr>;
          w2 = (if s_loops w1 = [] then Loop_init w1 else w1);
          w3 = w2\<lparr>s_loops := AList.update g p (s_loops w2)\<rparr>
      in w3\<lparr>heap := (heap w3)(p := Some ((cls Loop0)\<lparr>loop_id := g\<rparr>))\<rparr>)"

definition Loop_delete :: "nat \<Rightarrow> 'a world \<Rightarrow> 'a world" where
  "Loop_delete p w =
     (case heap w p of
        None \<Rightarrow> w
      | Some l \<Rightarrow>
          let w1 = w\<lparr>s_loops := AList.delete (loop_id l) (s_loops w)\<rparr>;
              w2 = (if s_loops w1 = [] then Loop_uninit w1 else w1)
          in w2\<lparr>heap := (heap w2)(p := None)\<rparr>)"

definition Loop_get :: "u32 \<Rightarrow> 'a world \<Rightarrow> nat option" where
  "Loop_get i w = map_of (s_loops w) i"

section \<open>Requests\<close>

definition Loop_regAsyncHandler :: "nat \<Rightarrow> Command \<Rightarrow> 'a async_handler option \<Rightarrow> 'a world \<Rightarrow> 'a world" where
  "Loop_regAsyncHandler p cmd h = upd p (\<lambda>l. l\<lparr>asyncHandlers := (asyncHandlers l)(cmd := Some h)\<rparr>)"

definition Loop_regPostHandler :: "nat \<Rightarrow> 'a post_handler option \<Rightarrow> 'a world \<Rightarrow> 'a world" where
  "Loop_regPostHandler p h = upd p (\<lambda>l. l\<lparr>postHandler := h\<rparr>)"

definition Loop_regEventHandler :: "nat \<Rightarrow> event \<Rightarrow> 'a event_handler option \<Rightarrow> 'a world \<Rightarrow> 'a world" where
  "Loop_regEventHandler p e h = upd p (\<lambda>l. l\<lparr>eventHandlers := (eventHandlers l)(e := h)\<rparr>)"

definition Loop_regFrameHandler :: "nat \<Rightarrow> 'a frame_handler option \<Rightarrow> 'a world \<Rightarrow> 'a world" where
  "Loop_regFrameHandler p h = upd p (\<lambda>l. l\<lparr>frameHandlerFn := h\<rparr>)"

text \<open>\<open>async\<close> on the loop at \<open>p\<close>, called on a thread whose current loop is \<open>cur\<close>.\<close>

definition Loop_async ::
  "nat option \<Rightarrow> nat \<Rightarrow> Command \<Rightarrow> bytes option \<Rightarrow> u16 \<Rightarrow> 'a async_handler option \<Rightarrow> 'a world \<Rightarrow> 'a world" where
  "Loop_async cur p cmd dat dataSize handler w =
     (let curLoop = Option.bind cur (heap w);
          context = \<lparr>ctx_loopId = (case curLoop of Some c \<Rightarrow> loop_id c | None \<Rightarrow> 0), ctx_cmd = cmd,
            ctx_request = Data_set dat dataSize Data, ctx_response = Data, ctx_handler = handler\<rparr>;
          counted = curLoop \<noteq> None \<and> handler \<noteq> None
      in upd p (\<lambda>l. l\<lparr>asyncPendingCount := (if counted then asyncPendingCount l + 1 else asyncPendingCount l),
            asyncRequests := SafeQueue_push (asyncRequests l) context\<rparr>) w)"

definition Loop_post :: "nat \<Rightarrow> bytes option \<Rightarrow> u16 \<Rightarrow> 'a world \<Rightarrow> 'a world" where
  "Loop_post p dat dataSize =
     upd p (\<lambda>l. l\<lparr>asyncPosts := SafeQueue_push (asyncPosts l) (Data_of dat dataSize)\<rparr>)"

definition Loop_stop :: "nat \<Rightarrow> bool \<Rightarrow> 'a world \<Rightarrow> 'a world" where
  "Loop_stop p pending =
     upd p (\<lambda>l. if pending then l\<lparr>isStopping := True\<rparr> else l\<lparr>loopexit := True\<rparr>)"

section \<open>Frames\<close>

definition call_post :: "'a loop \<Rightarrow> data \<Rightarrow> 'a \<Rightarrow> 'a" where
  "call_post l d a = fst (case postHandler l of Some h \<Rightarrow> h d a | None \<Rightarrow> onPost l d a)"

text \<open>A call of an empty function object throws.\<close>

definition call_async :: "'a loop \<Rightarrow> 'a AsyncContext \<Rightarrow> 'a \<Rightarrow> 'a \<times> data" where
  "call_async l c a =
     (case asyncHandlers l (ctx_cmd c) of
        Some None \<Rightarrow> (a, ctx_response c)
      | Some (Some h) \<Rightarrow> let (a', r, threw) = h (ctx_cmd c) (ctx_request c) (ctx_response c) a in (a', r)
      | None \<Rightarrow> let (a', r, threw) = onAsync l (ctx_cmd c) (ctx_request c) (ctx_response c) a in (a', r))"

text \<open>One request of the loop \<open>l\<close>: the handler runs, and the context goes back to the loop it came from
  or is deleted.\<close>

definition frame_request :: "'a loop \<Rightarrow> 'a world \<Rightarrow> 'a AsyncContext \<Rightarrow> 'a world" where
  "frame_request l w c =
     (let (a', r) = call_async l c (app w);
          c' = c\<lparr>ctx_response := r\<rparr>;
          w' = w\<lparr>app := a'\<rparr>
      in case Loop_get (ctx_loopId c) w' of
           None \<Rightarrow> w'
         | Some from_p \<Rightarrow>
             if ctx_handler c = None then w'
             else upd from_p (\<lambda>f. f\<lparr>asyncResponses := SafeQueue_push (asyncResponses f) c'\<rparr>) w')"

text \<open>The responses: the handler's exception is not caught, which is the result \<open>None\<close>; only contexts
  with a handler are ever put in the queue, a call of an empty one throws.\<close>

fun frame_responses :: "nat \<Rightarrow> 'a AsyncContext list \<Rightarrow> 'a world \<Rightarrow> 'a world option" where
  "frame_responses p [] w = Some w"
| "frame_responses p (c # cs) w =
     (let w1 = upd p (\<lambda>l. l\<lparr>asyncPendingCount := asyncPendingCount l - 1\<rparr>) w
      in case ctx_handler c of
           None \<Rightarrow> None
         | Some h \<Rightarrow>
             let (a', r, threw) = h (ctx_cmd c) (ctx_request c) (ctx_response c) (app w1)
             in if threw then None else frame_responses p cs (w1\<lparr>app := a'\<rparr>))"

definition call_frame :: "'a loop \<Rightarrow> 'a \<Rightarrow> 'a" where
  "call_frame l a =
     fst (case frameHandlerFn l of Some h \<Rightarrow> h (frameRound l) a | None \<Rightarrow> onFrame l (frameRound l) a)"

text \<open>The phases of \<open>frameHandler\<close>. The queues are emptied at the start of their phase.\<close>

definition frame_begin :: "nat \<Rightarrow> 'a world \<Rightarrow> 'a world" where
  "frame_begin p = upd p (\<lambda>l. l\<lparr>frameRound := frameRound l + 1\<rparr>)"

definition frame_posts :: "nat \<Rightarrow> 'a world \<Rightarrow> 'a world option" where
  "frame_posts p w = do {
     l \<leftarrow> heap w p;
     let (posts, q) = SafeQueue_moveAll (asyncPosts l);
     let w1 = upd p (\<lambda>l. l\<lparr>asyncPosts := q\<rparr>) w;
     Some (w1\<lparr>app := foldl (\<lambda>a d. call_post l d a) (app w1) posts\<rparr>)
   }"

definition frame_requests :: "nat \<Rightarrow> 'a world \<Rightarrow> 'a world option" where
  "frame_requests p w = do {
     l \<leftarrow> heap w p;
     let (requests, q) = SafeQueue_moveAll (asyncRequests l);
     Some (foldl (frame_request l) (upd p (\<lambda>l. l\<lparr>asyncRequests := q\<rparr>) w) requests)
   }"

definition frame_returns :: "nat \<Rightarrow> 'a world \<Rightarrow> 'a world option" where
  "frame_returns p w = do {
     l \<leftarrow> heap w p;
     let (responses, q) = SafeQueue_moveAll (asyncResponses l);
     frame_responses p responses (upd p (\<lambda>l. l\<lparr>asyncResponses := q\<rparr>) w)
   }"

definition frame_end :: "nat \<Rightarrow> 'a world \<Rightarrow> 'a world option" where
  "frame_end p w = do {
     l \<leftarrow> heap w p;
     let w1 = w\<lparr>app := call_frame l (app w)\<rparr>;
     Some (if isStopping l \<and> asyncPendingCount l = 0 then Loop_stop p False w1 else w1)
   }"

definition frameHandler :: "nat \<Rightarrow> 'a world \<Rightarrow> 'a world option" where
  "frameHandler p w = do {
     w1 \<leftarrow> frame_posts p (frame_begin p w);
     w2 \<leftarrow> frame_requests p w1;
     w3 \<leftarrow> frame_returns p w2;
     frame_end p w3
   }"

section \<open>Running\<close>

definition doEvent :: "nat \<Rightarrow> event \<Rightarrow> 'a world \<Rightarrow> bool \<times> 'a world" where
  "doEvent p e w =
     (case heap w p of
        None \<Rightarrow> (False, w)
      | Some l \<Rightarrow>
          let (a', r, threw) = (case eventHandlers l e of Some h \<Rightarrow> h e (app w) | None \<Rightarrow> onEvent l e (app w))
          in (if threw then False else r, w\<lparr>app := a'\<rparr>))"

text \<open>What libevent does: the results of \<open>event_new\<close> and \<open>event_add\<close>, and the run of the event loop,
  which calls the frame event until it is told to exit.\<close>

record 'a libevent =
  event_new :: bool
  event_add :: bool
  event_base_loop :: "nat \<Rightarrow> 'a world \<Rightarrow> 'a world"

definition Loop_run :: "'a libevent \<Rightarrow> nat \<Rightarrow> 'a world \<Rightarrow> 'a world" where
  "Loop_run ev p w =
     (if \<not> event_new ev then upd p (\<lambda>l. l\<lparr>frameEvent := False\<rparr>) w
      else if \<not> event_add ev then upd p (\<lambda>l. l\<lparr>frameEvent := False\<rparr>) w
      else let w1 = upd p (\<lambda>l. l\<lparr>frameEvent := True\<rparr>) w;
               w2 = snd (doEvent p kEventRun w1);
               w3 = event_base_loop ev p w2;
               w4 = snd (doEvent p kEventEnd w3)
           in upd p (\<lambda>l. l\<lparr>loop_thread := False\<rparr>) w4)"

definition Loop_start :: "'a libevent \<Rightarrow> nat \<Rightarrow> 'a world \<Rightarrow> bool \<times> 'a world" where
  "Loop_start ev p w =
     (let (ok, w1) = doEvent p kEventStart w in if \<not> ok then (False, w1) else (True, Loop_run ev p w1))"

text \<open>\<open>startThread\<close> leaves the run to the new thread.\<close>

definition Loop_startThread :: "nat \<Rightarrow> 'a world \<Rightarrow> bool \<times> 'a world" where
  "Loop_startThread p w =
     (let (ok, w1) = doEvent p kEventStart w
      in if \<not> ok then (False, w1) else (True, upd p (\<lambda>l. l\<lparr>loop_thread := True\<rparr>) w1))"

text \<open>\<open>waitThread\<close> joins when there is a thread object: the answer is whether it waits.\<close>

definition Loop_waitThread :: "nat \<Rightarrow> 'a world \<Rightarrow> bool" where
  "Loop_waitThread p w = (case heap w p of None \<Rightarrow> False | Some l \<Rightarrow> loop_thread l)"

section \<open>Steps of the system\<close>

text \<open>One step of one of the threads: a loop is created or destroyed, a message is sent, or a loop
  processes a frame. The frames of a destroyed loop and uncaught exceptions have no step.\<close>

inductive loop_step :: "'a world \<Rightarrow> 'a world \<Rightarrow> bool" where
  New: "heap w p = None \<Longrightarrow> loop_step w (Loop_new p cls w)"
| Delete: "heap w p \<noteq> None \<Longrightarrow> loop_step w (Loop_delete p w)"
| Async: "heap w p \<noteq> None \<Longrightarrow> loop_step w (Loop_async cur p cmd dat n h w)"
| Post: "heap w p \<noteq> None \<Longrightarrow> loop_step w (Loop_post p dat n w)"
| Stop: "loop_step w (Loop_stop p b w)"
| RegAsync: "loop_step w (Loop_regAsyncHandler p cmd h w)"
| RegPost: "loop_step w (Loop_regPostHandler p ph w)"
| Frame: "frameHandler p w = Some w' \<Longrightarrow> loop_step w w'"

text \<open>The runs from the empty registry, with the number of loops created so far.\<close>

inductive loops_reachable :: "'a world \<Rightarrow> nat \<Rightarrow> bool" where
  start: "loops_reachable (world0 a) 0"
| new: "loops_reachable w n \<Longrightarrow> heap w p = None \<Longrightarrow> n + 1 < 2 ^ 32 \<Longrightarrow>
     loops_reachable (Loop_new p cls w) (n + 1)"
| other: "loops_reachable w n \<Longrightarrow> loop_step w w' \<Longrightarrow> s_idGenerater w' = s_idGenerater w \<Longrightarrow>
     loops_reachable w' n"

text \<open>The registry and the heap name the same loops.\<close>

definition registry_ok :: "'a world \<Rightarrow> bool" where
  "registry_ok w \<longleftrightarrow>
     (\<forall>i p. Loop_get i w = Some p \<longrightarrow> (\<exists>l. heap w p = Some l \<and> loop_id l = i \<and> i \<noteq> 0 \<and> i \<le> s_idGenerater w))
     \<and> (\<forall>p l. heap w p = Some l \<longrightarrow> Loop_get (loop_id l) w = Some p)"

text \<open>The operations that leave the registry alone.\<close>

definition same_registry :: "'a world \<Rightarrow> 'a world \<Rightarrow> bool" where
  "same_registry w w' \<longleftrightarrow> s_loops w' = s_loops w \<and> s_idGenerater w' = s_idGenerater w \<and> inits w' = inits w
     \<and> (\<forall>p. map_option loop_id (heap w' p) = map_option loop_id (heap w p))"

text \<open>A loop with nothing in its queues, and a number of frames of a loop in a row.\<close>

definition idle :: "'a loop \<Rightarrow> bool" where
  "idle l \<longleftrightarrow> sq_elements (asyncPosts l) = [] \<and> sq_elements (asyncRequests l) = []
     \<and> sq_elements (asyncResponses l) = []"

fun frames :: "nat \<Rightarrow> nat \<Rightarrow> 'a world \<Rightarrow> 'a world option" where
  "frames p 0 w = Some w"
| "frames p (Suc n) w = do { w1 \<leftarrow> frameHandler p w; frames p n w1 }"

section \<open>What the operations keep\<close>

lemma upd_simps [simp]:
  "heap (upd p f w) q = (if q = p then map_option f (heap w p) else heap w q)"
  "s_loops (upd p f w) = s_loops w" "s_idGenerater (upd p f w) = s_idGenerater w"
  "inits (upd p f w) = inits w" "app (upd p f w) = app w"
  by (simp_all add: upd_def)

lemma Loop_get_upd [simp]: "Loop_get i (upd p f w) = Loop_get i w" "Loop_get i (w\<lparr>app := a\<rparr>) = Loop_get i w"
  by (simp_all add: Loop_get_def)

lemma same_refl [simp]: "same_registry w w"
  by (simp add: same_registry_def)

lemma same_trans [trans]: "same_registry w w' \<Longrightarrow> same_registry w' w'' \<Longrightarrow> same_registry w w''"
  by (simp add: same_registry_def)

lemma same_upd: "(\<And>l. loop_id (f l) = loop_id l) \<Longrightarrow> same_registry w (upd p f w)"
  by (simp add: same_registry_def option.map_comp comp_def)

lemma same_app [simp]: "same_registry w (w\<lparr>app := a\<rparr>)"
  by (simp add: same_registry_def)

lemma same_ok:
  assumes "registry_ok w" and "same_registry w w'"
  shows "registry_ok w'"
proof -
  have h: "heap w' p = Some l \<Longrightarrow> \<exists>k. heap w p = Some k \<and> loop_id k = loop_id l" for p l
    using assms(2) by (metis map_option_eq_Some option.simps(9) same_registry_def)
  have h': "heap w p = Some l \<Longrightarrow> \<exists>k. heap w' p = Some k \<and> loop_id k = loop_id l" for p l
    using assms(2) by (metis map_option_eq_Some option.simps(9) same_registry_def)
  have g: "Loop_get i w' = Loop_get i w" "s_idGenerater w' = s_idGenerater w" for i
    using assms(2) by (simp_all add: same_registry_def Loop_get_def)
  show ?thesis unfolding registry_ok_def g
    using assms(1) h h' unfolding registry_ok_def by metis
qed

lemma same_frame_request: "same_registry w (frame_request l w c)"
  by (auto simp: frame_request_def Let_def split: prod.splits option.splits
      intro: same_trans [OF same_app same_upd])

lemma same_foldl: "(\<And>w c. same_registry w (f w c)) \<Longrightarrow> same_registry w (foldl f w cs)"
  by (induction cs arbitrary: w) (auto intro: same_trans)

lemma same_frame_responses: "frame_responses p cs w = Some w' \<Longrightarrow> same_registry w w'"
proof (induction p cs w rule: frame_responses.induct)
  case (2 p c cs w)
  let ?w1 = "upd p (\<lambda>l. l\<lparr>asyncPendingCount := asyncPendingCount l - 1\<rparr>) w"
  obtain a' where "frame_responses p cs (?w1\<lparr>app := a'\<rparr>) = Some w'"
    and "same_registry (?w1\<lparr>app := a'\<rparr>) w'"
    using 2 by (auto simp: Let_def split: option.splits prod.splits if_splits)
  moreover have "same_registry w (?w1\<lparr>app := a'\<rparr>)"
    by (rule same_trans [OF same_upd same_app]) simp
  ultimately show ?case by (blast intro: same_trans)
qed simp

lemma same_frame:
  assumes "frameHandler p w = Some w'"
  shows "same_registry w w'"
proof -
  obtain w1 w2 w3 where f: "frame_posts p (frame_begin p w) = Some w1" "frame_requests p w1 = Some w2"
    "frame_returns p w2 = Some w3" "frame_end p w3 = Some w'"
    using assms by (auto simp: frameHandler_def bind_eq_Some_conv)
  have "same_registry w (frame_begin p w)" unfolding frame_begin_def by (rule same_upd) simp
  also have "same_registry (frame_begin p w) w1"
    using f(1) by (auto simp: frame_posts_def bind_eq_Some_conv Let_def SafeQueue_moveAll_def
        intro!: same_trans [OF same_upd same_app])
  also have "same_registry w1 w2"
    using f(2) by (auto simp: frame_requests_def bind_eq_Some_conv Let_def SafeQueue_moveAll_def
        intro!: same_trans [OF same_upd same_foldl] same_frame_request)
  also have "same_registry w2 w3"
    using f(3) same_upd [of "\<lambda>l. l\<lparr>asyncResponses := q\<rparr>" w2 p for q]
    by (auto simp: frame_returns_def bind_eq_Some_conv Let_def SafeQueue_moveAll_def
        dest!: same_frame_responses intro: same_trans)
  also have "same_registry w3 w'"
    using f(4) by (auto simp: frame_end_def bind_eq_Some_conv Let_def Loop_stop_def
        intro!: same_trans [OF same_app same_upd])
  finally show ?thesis .
qed

lemma registry_new:
  assumes "registry_ok w" and "heap w p = None" and "s_idGenerater w + 1 \<noteq> 0"
  shows "registry_ok (Loop_new p cls w)"
proof -
  let ?g = "s_idGenerater w + 1"
  have gt: "s_idGenerater w < ?g" using assms(3) unatSuc [of "s_idGenerater w"]
    by (simp add: word_less_nat_alt add.commute)
  have get: "Loop_get i (Loop_new p cls w) = (if i = ?g then Some p else Loop_get i w)" for i
    by (simp add: Loop_get_def Loop_new_def Let_def Loop_init_def update_conv')
  have hp: "heap (Loop_new p cls w) q = (if q = p then Some ((cls Loop0)\<lparr>loop_id := ?g\<rparr>) else heap w q)" for q
    by (simp add: Loop_new_def Let_def Loop_init_def)
  have gen: "s_idGenerater (Loop_new p cls w) = ?g"
    by (simp add: Loop_new_def Let_def Loop_init_def)
  have old: "Loop_get i w = Some q \<Longrightarrow> q \<noteq> p \<and> i \<noteq> ?g \<and> i \<le> ?g
      \<and> (\<exists>l. heap w q = Some l \<and> loop_id l = i \<and> i \<noteq> 0)" for i q
    using assms(1,2) gt unfolding registry_ok_def by force
  have "\<exists>l. heap (Loop_new p cls w) q = Some l \<and> loop_id l = i \<and> i \<noteq> 0 \<and> i \<le> s_idGenerater (Loop_new p cls w)"
    if "Loop_get i (Loop_new p cls w) = Some q" for i q
    using that old [of i q] assms(3) unfolding get hp gen by (auto split: if_splits)
  moreover have "Loop_get (loop_id l) (Loop_new p cls w) = Some q" if "heap (Loop_new p cls w) q = Some l" for q l
  proof (cases "q = p")
    case False
    then have "heap w q = Some l" using that hp by simp
    then have "Loop_get (loop_id l) w = Some q" using assms(1) by (simp add: registry_ok_def)
    then show ?thesis using old [of "loop_id l" q] get by simp
  qed (use that hp get in auto)
  ultimately show ?thesis unfolding registry_ok_def by blast
qed

lemma registry_delete:
  assumes "registry_ok w"
  shows "registry_ok (Loop_delete p w)"
proof (cases "heap w p")
  case (Some l)
  have "s_loops (Loop_delete p w) = AList.delete (loop_id l) (s_loops w)"
    using Some by (simp add: Loop_delete_def Let_def Loop_uninit_def)
  then have get: "Loop_get i (Loop_delete p w) = (if i = loop_id l then None else Loop_get i w)" for i
    by (simp add: Loop_get_def delete_conv')
  have hp: "heap (Loop_delete p w) q = (if q = p then None else heap w q)" for q
    using Some by (simp add: Loop_delete_def Let_def Loop_uninit_def)
  have gen: "s_idGenerater (Loop_delete p w) = s_idGenerater w"
    using Some by (simp add: Loop_delete_def Let_def Loop_uninit_def)
  have id: "Loop_get (loop_id l) w = Some p" using assms Some by (simp add: registry_ok_def)
  show ?thesis unfolding registry_ok_def get hp gen
    using assms id Some unfolding registry_ok_def by (auto split: if_splits) (force | metis option.inject)+
qed (use assms in \<open>simp add: Loop_delete_def\<close>)

lemma same_ops:
  "same_registry w (Loop_async cur p cmd dat n h w)" "same_registry w (Loop_post p dat n w)"
  "same_registry w (Loop_stop p b w)" "same_registry w (Loop_regAsyncHandler p cmd h w)"
  "same_registry w (Loop_regPostHandler p ph w)"
  unfolding Loop_async_def Loop_post_def Loop_stop_def Loop_regAsyncHandler_def Loop_regPostHandler_def Let_def
  by (rule same_upd, simp)+

lemma registry_step:
  assumes "loop_step w w'" and "registry_ok w" and "s_idGenerater w' = s_idGenerater w"
  shows "registry_ok w'"
  using assms
proof (induction rule: loop_step.induct)
  case (New w p cls)
  then show ?case by (simp add: Loop_new_def Let_def Loop_init_def split: if_splits)
qed (auto intro: registry_delete same_ok same_ops same_frame)

lemma inits_step:
  assumes "loop_step w w'" and "registry_ok w" and "s_idGenerater w' = s_idGenerater w"
    and "inits w = (if s_loops w = [] then 0 else 1)"
  shows "inits w' = (if s_loops w' = [] then 0 else 1)"
proof -
  have same: "inits w' = (if s_loops w' = [] then 0 else 1)" if "same_registry w w'"
    using that assms(4) by (simp add: same_registry_def)
  show ?thesis
    using assms(1)
  proof cases
    case (New p cls)
    then show ?thesis using assms(3) by (simp add: Loop_new_def Let_def Loop_init_def split: if_splits)
  next
    case (Delete p)
    then obtain l where l: "heap w p = Some l" by auto
    then have "Loop_get (loop_id l) w = Some p" using assms(2) by (simp add: registry_ok_def)
    then have "s_loops w \<noteq> []" by (auto simp: Loop_get_def)
    then show ?thesis using l Delete assms(4) by (simp add: Loop_delete_def Let_def Loop_uninit_def)
  qed (rule same, simp add: same_ops same_frame)+
qed


section \<open>The properties of the event loop\<close>

lemma call_frame_queues [simp]:
  "call_frame (l\<lparr>asyncPosts := q\<rparr>) = call_frame l" "call_frame (l\<lparr>asyncRequests := r\<rparr>) = call_frame l"
  "call_frame (l\<lparr>asyncResponses := r\<rparr>) = call_frame l" "call_frame (l\<lparr>asyncPendingCount := n\<rparr>) = call_frame l"
  "call_frame (l\<lparr>asyncPendingCount := n, frameRound := k\<rparr>) = call_frame (l\<lparr>frameRound := k\<rparr>)"
  "call_frame (l\<lparr>asyncResponses := r, frameRound := k\<rparr>) = call_frame (l\<lparr>frameRound := k\<rparr>)"
  by (simp_all add: call_frame_def fun_eq_iff split: option.split)

lemma call_post_queues [simp]:
  "call_post (l\<lparr>frameRound := r\<rparr>) = call_post l"
  by (simp add: call_post_def fun_eq_iff split: option.split)

lemma call_async_queues [simp]:
  "call_async (l\<lparr>frameRound := r\<rparr>) = call_async l" "call_async (l\<lparr>asyncPosts := q\<rparr>) = call_async l"
  "call_async (l\<lparr>asyncRequests := s\<rparr>) = call_async l" "call_async (l\<lparr>asyncPendingCount := n\<rparr>) = call_async l"
  by (simp_all add: call_async_def fun_eq_iff split: option.split)

lemmas frame_defs = frameHandler_def frame_begin_def frame_posts_def frame_requests_def frame_returns_def
  frame_end_def SafeQueue_moveAll_def Loop_stop_def Let_def

lemma frame_idle:
  assumes "heap w p = Some l" and "sq_elements (asyncRequests l) = []" and "sq_elements (asyncResponses l) = []"
  shows "\<exists>w' l'. frameHandler p w = Some w' \<and> heap w' p = Some l' \<and> idle l'
     \<and> asyncPendingCount l' = asyncPendingCount l \<and> isStopping l' = isStopping l
     \<and> loopexit l' = (loopexit l \<or> (isStopping l \<and> asyncPendingCount l = 0))
     \<and> app w' = call_frame (l\<lparr>frameRound := frameRound l + 1\<rparr>)
          (foldl (\<lambda>a d. call_post l d a) (app w) (sq_elements (asyncPosts l)))"
  using assms by (simp add: frame_defs idle_def) blast

lemma exchange:
  assumes "registry_ok w" and "heap w p = Some lp" and "heap w c = Some lc" and "p \<noteq> c"
    and "idle lp" and "idle lc" and "\<not> isStopping lp" and "\<not> isStopping lc"
    and "\<forall>r a. \<not> snd (snd (h cmd (Data_of dat n) r a))"
    and "(a1, resp) = call_async lp \<lparr>ctx_loopId = loop_id lc, ctx_cmd = cmd, ctx_request = Data_of dat n,
        ctx_response = Data, ctx_handler = Some h\<rparr> (app w)"
  shows "\<exists>w2 w3 lp' lc'. frameHandler p (Loop_async (Some c) p cmd dat n (Some h) w) = Some w2
    \<and> frameHandler c w2 = Some w3 \<and> heap w3 p = Some lp' \<and> heap w3 c = Some lc' \<and> idle lp' \<and> idle lc'
    \<and> asyncPendingCount lp' = asyncPendingCount lp + 1 \<and> asyncPendingCount lc' = asyncPendingCount lc - 1
    \<and> \<not> isStopping lp' \<and> \<not> isStopping lc' \<and> loopexit lp' = loopexit lp \<and> loopexit lc' = loopexit lc
    \<and> app w3 = call_frame (lc\<lparr>frameRound := frameRound lc + 1\<rparr>) (fst (h cmd (Data_of dat n) resp
         (call_frame (lp\<lparr>frameRound := frameRound lp + 1\<rparr>) a1)))"
proof -
  have get: "Loop_get (loop_id lc) w = Some c" using assms(1,3) by (simp add: registry_ok_def)
  obtain r1 r2 where "h cmd (Data_of dat n) resp (call_frame (lp\<lparr>frameRound := frameRound lp + 1\<rparr>) a1) = (r1, r2, False)"
    using assms(9) by (metis prod.collapse)
  then show ?thesis
    using assms(2-8) assms(10) [symmetric] get unfolding idle_def Data_of_def
    by (simp add: frame_defs Loop_async_def SafeQueue_push_def frame_request_def Let_def)
qed

lemma stopped_hangs:
  assumes "heap w p = Some l" and "idle l" and "asyncPendingCount l \<noteq> 0" and "\<not> loopexit l"
  shows "\<exists>w' l'. frames p k w = Some w' \<and> heap w' p = Some l' \<and> \<not> loopexit l'"
  using assms
proof (induction k arbitrary: w l)
  case (Suc k)
  then show ?case using frame_idle [of w p l] by (force simp: idle_def)
qed auto

lemma same_reachable_witness:
  "loops_reachable (Loop_new 9 id (Loop_new 5 id (world0 a))) 2"
proof -
  have "loops_reachable (Loop_new 9 id (Loop_new 5 id (world0 a))) (0 + 1 + 1)"
    by (intro loops_reachable.new loops_reachable.start)
      (simp_all add: world0_def Loop_new_def Let_def Loop_init_def)
  then show ?thesis by (simp only: add_0 one_add_one)
qed


text \<open>C35: posted messages. Whatever blocks are posted to a loop with no requests waiting, its next frame
  calls the post handler on each of them exactly once, after the messages that were waiting and in
  the order of the calls, then the frame handler, and leaves the queue empty.\<close>

theorem posts_delivered_in_order:
  assumes "heap w p = Some l" and "sq_elements (asyncRequests l) = []" and "sq_elements (asyncResponses l) = []"
    and "w1 = foldl (\<lambda>w d. Loop_post p (fst d) (snd d) w) w ds"
  shows "\<exists>w' l'. frameHandler p w1 = Some w' \<and> heap w' p = Some l' \<and> sq_elements (asyncPosts l') = []
    \<and> app w' = call_frame (l\<lparr>frameRound := frameRound l + 1\<rparr>)
        (foldl (\<lambda>a d. call_post l d a) (app w)
           (sq_elements (asyncPosts l) @ map (\<lambda>d. Data_of (fst d) (snd d)) ds))"
proof -
  let ?q = "sq_elements (asyncPosts l) @ map (\<lambda>d. Data_of (fst d) (snd d)) ds"
  have "heap (foldl (\<lambda>w d. Loop_post p (fst d) (snd d) w) v es) p
      = Some (k\<lparr>asyncPosts := foldl SafeQueue_push (asyncPosts k) (map (\<lambda>d. Data_of (fst d) (snd d)) es)\<rparr>)
    \<and> app (foldl (\<lambda>w d. Loop_post p (fst d) (snd d) w) v es) = app v"
    if "heap v p = Some k" for v k es
    using that by (induction es arbitrary: v k) (simp_all add: Loop_post_def)
  from this [OF assms(1), of ds] have
    h: "heap w1 p = Some (l\<lparr>asyncPosts := foldl SafeQueue_push (asyncPosts l) (map (\<lambda>d. Data_of (fst d) (snd d)) ds)\<rparr>)"
    and a: "app w1 = app w" by (simp_all add: assms(4))
  have q: "sq_elements (foldl SafeQueue_push (asyncPosts l) ds') = sq_elements (asyncPosts l) @ ds'" for ds'
    by (induction ds' arbitrary: rule: rev_induct) (simp_all add: SafeQueue_push_def)
  have cp: "call_post (l\<lparr>asyncPosts := x\<rparr>) = call_post l" for x
    by (simp add: call_post_def fun_eq_iff split: option.split)
  have cf: "call_frame (l\<lparr>asyncPosts := x, frameRound := k\<rparr>) = call_frame (l\<lparr>frameRound := k\<rparr>)" for x k
    by (simp add: call_frame_def fun_eq_iff split: option.split)
  show ?thesis
    using frame_idle [OF h] assms(2,3) by (simp add: q a cp cf idle_def) blast
qed

theorem posts_delivered_in_order_witness:
  "\<exists>w' l'. frameHandler 5 (Loop_post 5 (Some [2]) 1 (Loop_post 5 (Some [1]) 1
       (Loop_regPostHandler 5 (Some (\<lambda>d a. (a @ [data_ptr d], False))) (Loop_new 5 id (world0 []))))) = Some w'
     \<and> heap w' 5 = Some l' \<and> sq_elements (asyncPosts l') = [] \<and> app w' = [Some [1], Some [2]]"
proof -
  let ?w = "Loop_regPostHandler 5 (Some (\<lambda>d a. (a @ [data_ptr d], False))) (Loop_new 5 id (world0 []))"
  have h: "heap ?w 5 = Some (Loop0\<lparr>loop_id := 1, postHandler := Some (\<lambda>d a. (a @ [data_ptr d], False))\<rparr>)"
    "app ?w = []"
    by (simp_all add: Loop_regPostHandler_def Loop_new_def Let_def Loop_init_def world0_def)
  show ?thesis
    using posts_delivered_in_order [OF h(1) _ _ refl, of "[(Some [1], 1), (Some [2], 1)]"] h(2)
    by (simp add: Loop0_def call_frame_def call_post_def Data_of_def Data_set_def Data_def Data_reset_def)
qed

text \<open>C36: an asynchronous call. A request sent from loop \<open>c\<close> to another loop \<open>p\<close> is answered in two frames:
  the next frame of \<open>p\<close> runs the handler of the command there, and the next frame of \<open>c\<close> runs the
  caller's handler on the response; both queues are then empty again.\<close>

theorem async_round_trip:
  assumes "registry_ok w" and "heap w p = Some lp" and "heap w c = Some lc" and "p \<noteq> c"
    and "idle lp" and "idle lc" and "\<not> isStopping lp" and "\<not> isStopping lc"
    and "\<forall>r a. \<not> snd (snd (h cmd (Data_of dat n) r a))"
    and "(a1, resp) = call_async lp \<lparr>ctx_loopId = loop_id lc, ctx_cmd = cmd, ctx_request = Data_of dat n,
        ctx_response = Data, ctx_handler = Some h\<rparr> (app w)"
  shows "\<exists>w2 w3 lp' lc'. frameHandler p (Loop_async (Some c) p cmd dat n (Some h) w) = Some w2
    \<and> frameHandler c w2 = Some w3 \<and> heap w3 p = Some lp' \<and> heap w3 c = Some lc' \<and> idle lp' \<and> idle lc'
    \<and> app w3 = call_frame (lc\<lparr>frameRound := frameRound lc + 1\<rparr>) (fst (h cmd (Data_of dat n) resp
         (call_frame (lp\<lparr>frameRound := frameRound lp + 1\<rparr>) a1)))"
  using exchange [OF assms] by blast

definition two_loops :: "bytes option list world" where
  "two_loops = Loop_regAsyncHandler 5 7 (Some (\<lambda>cmd req resp a. (a @ [data_ptr req], Data_of (Some [42]) 1, False)))
     (Loop_new 9 id (Loop_new 5 id (world0 [])))"

lemma two_loops_eq:
  "registry_ok two_loops"
  "heap two_loops 5 = Some (Loop0\<lparr>loop_id := 1,
     asyncHandlers := (\<lambda>_. None)(7 := Some (Some (\<lambda>cmd req resp a. (a @ [data_ptr req], Data_of (Some [42]) 1, False))))\<rparr>)"
  "heap two_loops 9 = Some (Loop0\<lparr>loop_id := 2\<rparr>)" "app two_loops = []"
proof -
  have "registry_ok (world0 ([] :: bytes option list))" by (simp add: registry_ok_def world0_def Loop_get_def)
  then have "registry_ok (Loop_new 5 id (world0 ([] :: bytes option list)))"
    by (rule registry_new) (simp_all add: world0_def)
  then have "registry_ok (Loop_new 9 id (Loop_new 5 id (world0 ([] :: bytes option list))))"
    by (rule registry_new) (simp_all add: Loop_new_def world0_def Let_def Loop_init_def)
  then show "registry_ok two_loops" unfolding two_loops_def by (rule same_ok) (rule same_ops)
qed (simp_all add: two_loops_def Loop_regAsyncHandler_def Loop_new_def Let_def Loop_init_def world0_def Loop0_def)

theorem async_round_trip_witness:
  "\<exists>w2 w3. frameHandler 5 (Loop_async (Some 9) 5 7 (Some [1]) 1 (Some (\<lambda>cmd req resp a. (a @ [data_ptr resp], resp, False)))
       two_loops) = Some w2 \<and> frameHandler 9 w2 = Some w3 \<and> app w3 = [Some [1], Some [42]]"
  using async_round_trip [OF two_loops_eq(1-3), where h = "\<lambda>cmd req resp a. (a @ [data_ptr resp], resp, False)"
      and cmd = 7 and dat = "Some [1]" and n = 1 and ?a1.0 = "[Some [1]]" and resp = "Data_of (Some [42]) 1"] two_loops_eq(4)
  by (auto simp: idle_def Loop0_def call_async_def call_frame_def Data_of_def Data_set_def Data_def Data_reset_def)

text \<open>C37: stopping. \<open>stop()\<close> ends the event loop of a loop that never exchanged requests at its next frame.
  But \<open>async\<close> counts a pending request in the loop it is sent to, while the response is subtracted in
  the loop it came from: after one call from loop \<open>c\<close> to loop \<open>p\<close> was answered completely, neither of
  the two ever stops, however many frames pass.\<close>

theorem stop_hangs_after_exchange:
  assumes "registry_ok w" and "heap w p = Some lp" and "heap w c = Some lc" and "p \<noteq> c"
    and "idle lp" and "idle lc" and "\<not> isStopping lp" and "\<not> isStopping lc"
    and "\<forall>r a. \<not> snd (snd (h cmd (Data_of dat n) r a))"
    and "asyncPendingCount lp = 0" and "asyncPendingCount lc = 0" and "\<not> loopexit lp" and "\<not> loopexit lc"
  shows "(\<exists>w' l'. frameHandler p (Loop_stop p True w) = Some w' \<and> heap w' p = Some l' \<and> loopexit l')
    \<and> (\<exists>w2 w3. frameHandler p (Loop_async (Some c) p cmd dat n (Some h) w) = Some w2 \<and> frameHandler c w2 = Some w3
        \<and> (\<forall>k. \<exists>w' l'. frames p k (Loop_stop p True w3) = Some w' \<and> heap w' p = Some l' \<and> \<not> loopexit l')
        \<and> (\<forall>k. \<exists>w' l'. frames c k (Loop_stop c True w3) = Some w' \<and> heap w' c = Some l' \<and> \<not> loopexit l'))"
proof
  have "heap (Loop_stop p True w) p = Some (lp\<lparr>isStopping := True\<rparr>)" using assms(2) by (simp add: Loop_stop_def)
  from frame_idle [OF this] assms(5,10)
  show "\<exists>w' l'. frameHandler p (Loop_stop p True w) = Some w' \<and> heap w' p = Some l' \<and> loopexit l'"
    by (force simp: idle_def)
next
  obtain w2 w3 lp' lc' where x: "frameHandler p (Loop_async (Some c) p cmd dat n (Some h) w) = Some w2"
    "frameHandler c w2 = Some w3" "heap w3 p = Some lp'" "heap w3 c = Some lc'" "idle lp'" "idle lc'"
    "asyncPendingCount lp' = 1" "asyncPendingCount lc' = - 1" "\<not> loopexit lp'" "\<not> loopexit lc'"
    using exchange [where h = h and cmd = cmd and dat = dat and n = n, OF assms(1-9) prod.collapse] assms(10-13) by auto
  have "heap (Loop_stop p True w3) p = Some (lp'\<lparr>isStopping := True\<rparr>)"
    "heap (Loop_stop c True w3) c = Some (lc'\<lparr>isStopping := True\<rparr>)"
    using x by (simp_all add: Loop_stop_def)
  from this [THEN stopped_hangs] x
  show "\<exists>w2 w3. frameHandler p (Loop_async (Some c) p cmd dat n (Some h) w) = Some w2 \<and> frameHandler c w2 = Some w3
        \<and> (\<forall>k. \<exists>w' l'. frames p k (Loop_stop p True w3) = Some w' \<and> heap w' p = Some l' \<and> \<not> loopexit l')
        \<and> (\<forall>k. \<exists>w' l'. frames c k (Loop_stop c True w3) = Some w' \<and> heap w' c = Some l' \<and> \<not> loopexit l')"
    by (simp add: idle_def)
qed

theorem stop_hangs_after_exchange_witness:
  "\<exists>w2 w3. frameHandler 5 (Loop_async (Some 9) 5 7 (Some [1]) 1 (Some (\<lambda>cmd req resp a. (a, resp, False))) two_loops) = Some w2
     \<and> frameHandler 9 w2 = Some w3
     \<and> (\<forall>k. \<exists>w' l'. frames 5 k (Loop_stop 5 True w3) = Some w' \<and> heap w' 5 = Some l' \<and> \<not> loopexit l')"
  using stop_hangs_after_exchange [OF two_loops_eq(1-3), where h = "\<lambda>cmd req resp a. (a, resp, False)"
      and cmd = 7 and dat = "Some [1]" and n = 1]
  by (auto simp: idle_def Loop0_def)

end
