(* ===== verification/EcTimer.thy ===== *)
theory EcTimer
  imports Prelude "HOL-Library.Monad_Syntax"
begin

text \<open>
  \<open>Timer\<close> of \<open>src/libeventc++11/include/ec/timer.h\<close> and \<open>src/libeventc++11/src/timer.cpp\<close>. The event of
  libevent is the record \<open>event\<close>: its flag \<open>EV_PERSIST\<close> and the interval it was added with; the results
  of \<open>event_new\<close> and \<open>event_add\<close> are parameters. libevent runs the callback of a pending event when its
  interval has passed; an event without \<open>EV_PERSIST\<close> is then no longer pending, one with it is until
  it is deleted. That contract is the definition \<open>fire\<close>.

  A handler is one the user gave, or the one \<open>startAfter\<close> makes. User handlers act on the state of
  the application.
\<close>

section \<open>The timer\<close>

datatype 'h handler = User 'h | After u32 u64 "'h handler"

record event =
  ev_persist :: bool
  ev_sec :: u32
  ev_usec :: u32
  ev_pending :: bool

record 'h timer =
  tevent :: "event option"
  interval :: u32
  round :: u64
  curRound :: u64
  handler :: "'h handler option"

definition Timer :: "'h timer" where
  "Timer = \<lparr>tevent = None, interval = 0, round = 1, curRound = 0, handler = None\<rparr>"

definition Timer_isFinished :: "'h timer \<Rightarrow> bool" where
  "Timer_isFinished t \<longleftrightarrow> curRound t \<ge> round t"

text \<open>Freeing an event also removes it from the event loop.\<close>

definition Timer_reset :: "'h timer \<Rightarrow> 'h timer" where
  "Timer_reset t = t\<lparr>tevent := None\<rparr>"

text \<open>The results of \<open>event_new\<close> and \<open>event_add\<close> are the arguments \<open>new_ok\<close> and \<open>add_ok\<close>.\<close>

definition Timer_startRounds :: "bool \<times> bool \<Rightarrow> u32 \<Rightarrow> u64 \<Rightarrow> 'h handler \<Rightarrow> 'h timer \<Rightarrow> bool \<times> 'h timer" where
  "Timer_startRounds ok intv rnd h t =
     (if tevent t \<noteq> None then (False, t)
      else if \<not> fst ok then (False, t\<lparr>tevent := None\<rparr>)
      else let ev = \<lparr>ev_persist = rnd > 1, ev_sec = intv div 1000, ev_usec = intv mod 1000 * 1000,
                 ev_pending = False\<rparr>;
               t1 = t\<lparr>tevent := Some ev\<rparr>
           in if \<not> snd ok then (False, Timer_reset t1)
              else (True, t1\<lparr>tevent := Some (ev\<lparr>ev_pending := True\<rparr>), interval := intv, round := rnd,
                      curRound := 0, handler := Some h\<rparr>))"

definition Timer_startOnce :: "bool \<times> bool \<Rightarrow> u32 \<Rightarrow> 'h handler \<Rightarrow> 'h timer \<Rightarrow> bool \<times> 'h timer" where
  "Timer_startOnce ok intv h = Timer_startRounds ok intv 1 h"

text \<open>The number of rounds is \<open>uint32_t(-1)\<close>, widened to 64 bits.\<close>

definition Timer_startForever :: "bool \<times> bool \<Rightarrow> u32 \<Rightarrow> 'h handler \<Rightarrow> 'h timer \<Rightarrow> bool \<times> 'h timer" where
  "Timer_startForever ok intv h = Timer_startRounds ok intv (ucast (- 1 :: u32)) h"

definition Timer_startAfter ::
  "bool \<times> bool \<Rightarrow> u32 \<Rightarrow> u32 \<Rightarrow> u64 \<Rightarrow> 'h handler \<Rightarrow> 'h timer \<Rightarrow> bool \<times> 'h timer" where
  "Timer_startAfter ok after intv rnd h = Timer_startOnce ok after (After intv rnd h)"

text \<open>A call of a handler: a user handler is run on the application's state by \<open>user\<close>; the handler of
  \<open>startAfter\<close> starts the timer again. An empty handler would throw.\<close>

definition call_handler ::
  "('h \<Rightarrow> 'a \<Rightarrow> 'a) \<Rightarrow> bool \<times> bool \<Rightarrow> 'h handler option \<Rightarrow> 'h timer \<times> 'a \<Rightarrow> ('h timer \<times> 'a) option" where
  "call_handler user ok h = (\<lambda>(t, a).
     case h of
       None \<Rightarrow> None
     | Some (User u) \<Rightarrow> Some (t, user u a)
     | Some (After intv rnd h') \<Rightarrow> Some (snd (Timer_startRounds ok intv rnd h' t), a))"

definition Timer_eventHandler ::
  "('h \<Rightarrow> 'a \<Rightarrow> 'a) \<Rightarrow> bool \<times> bool \<Rightarrow> 'h timer \<times> 'a \<Rightarrow> ('h timer \<times> 'a) option" where
  "Timer_eventHandler user ok = (\<lambda>(t, a).
     let h = handler t;
         t1 = t\<lparr>curRound := curRound t + 1\<rparr>;
         t2 = (if curRound t1 \<ge> round t1 then Timer_reset t1 else t1)
     in call_handler user ok h (t2, a))"

section \<open>The events of the loop\<close>

definition pending :: "'h timer \<Rightarrow> bool" where
  "pending t \<longleftrightarrow> (case tevent t of None \<Rightarrow> False | Some ev \<Rightarrow> ev_pending ev)"

text \<open>The interval of a pending event passes: libevent runs the callback.\<close>

definition fire :: "('h \<Rightarrow> 'a \<Rightarrow> 'a) \<Rightarrow> bool \<times> bool \<Rightarrow> 'h timer \<times> 'a \<Rightarrow> ('h timer \<times> 'a) option" where
  "fire user ok s =
     (case tevent (fst s) of
        Some ev \<Rightarrow>
          if ev_pending ev
          then Timer_eventHandler user ok
                 ((fst s)\<lparr>tevent := Some (ev\<lparr>ev_pending := ev_persist ev\<rparr>)\<rparr>, snd s)
          else None
      | None \<Rightarrow> None)"

fun fires :: "('h \<Rightarrow> 'a \<Rightarrow> 'a) \<Rightarrow> bool \<times> bool \<Rightarrow> nat \<Rightarrow> 'h timer \<times> 'a \<Rightarrow> ('h timer \<times> 'a) option" where
  "fires user ok 0 s = Some s"
| "fires user ok (Suc n) s = do { s1 \<leftarrow> fires user ok n s; fire user ok s1 }"

text \<open>The state \<open>k\<close> rounds after a start with a user handler.\<close>

definition after_rounds :: "'h timer \<Rightarrow> u64 \<Rightarrow> 'h \<Rightarrow> nat \<Rightarrow> bool" where
  "after_rounds t rnd u k \<longleftrightarrow> round t = rnd \<and> unat (curRound t) = k \<and> handler t = Some (User u)
     \<and> (if k < max 1 (unat rnd)
        then (case tevent t of Some ev \<Rightarrow> ev_pending ev \<and> ev_persist ev = (rnd > 1) | None \<Rightarrow> False)
        else tevent t = None)"

section \<open>The properties of timers\<close>

lemma fire_round:
  assumes "after_rounds t rnd u k" and "k < max 1 (unat rnd)"
  shows "\<exists>t'. fire user ok (t, a) = Some (t', user u a) \<and> after_rounds t' rnd u (k + 1)"
proof -
  obtain ev where ev: "tevent t = Some ev" "ev_pending ev" "ev_persist ev = (rnd > 1)"
    using assms by (auto simp: after_rounds_def split: option.splits)
  have t: "round t = rnd" "unat (curRound t) = k" "handler t = Some (User u)"
    using assms by (simp_all add: after_rounds_def)
  have "unat rnd < 2 ^ LENGTH(64)" by (rule unsigned_less)
  then have c: "unat (curRound t + 1) = k + 1" using t(2) assms(2) by (simp add: unat_word_ariths)
  have r: "(rnd > 1) = (unat rnd > 1)" by (simp add: word_less_nat_alt)
  show ?thesis
    using ev t c assms(2) r
    by (auto simp: fire_def Timer_eventHandler_def call_handler_def Timer_reset_def after_rounds_def
        word_le_nat_alt Let_def)
qed

lemma fires_rounds:
  assumes "after_rounds t rnd u 0" and "k \<le> max 1 (unat rnd)"
  shows "\<exists>t'. fires user ok k (t, a) = Some (t', (user u ^^ k) a) \<and> after_rounds t' rnd u k"
  using assms(2)
proof (induction k)
  case (Suc k)
  then obtain t' where "fires user ok k (t, a) = Some (t', (user u ^^ k) a)" "after_rounds t' rnd u k" by auto
  then show ?case using fire_round [of t' rnd u k user ok "(user u ^^ k) a"] Suc.prems by auto
qed (use assms in auto)

lemma start_rounds:
  "tevent t = None \<Longrightarrow> Timer_startRounds (True, True) intv rnd (User u) t = (True, t') \<Longrightarrow>
   after_rounds t' rnd u 0"
  by (auto simp: Timer_startRounds_def after_rounds_def Let_def)

lemma rounds_then_finished:
  assumes "tevent t = None"
  shows "\<exists>t1. Timer_startRounds (True, True) intv rnd (User u) t = (True, t1)
    \<and> (\<forall>k < max 1 (unat rnd). \<exists>t2. fires user ok k (t1, a) = Some (t2, (user u ^^ k) a)
         \<and> pending t2 \<and> unat (curRound t2) = k)
    \<and> (\<exists>t3. fires user ok (max 1 (unat rnd)) (t1, a) = Some (t3, (user u ^^ max 1 (unat rnd)) a)
         \<and> Timer_isFinished t3 \<and> tevent t3 = None)"
proof -
  obtain t1 where t1: "Timer_startRounds (True, True) intv rnd (User u) t = (True, t1)"
    using assms by (simp add: Timer_startRounds_def Let_def)
  note r = start_rounds [OF assms t1]
  have "\<exists>t2. fires user ok k (t1, a) = Some (t2, (user u ^^ k) a) \<and> pending t2 \<and> unat (curRound t2) = k"
    if k: "k < max 1 (unat rnd)" for k
    using fires_rounds [OF r, of k user ok a] k
    by (auto simp: after_rounds_def pending_def split: option.splits)
  moreover have "\<exists>t3. fires user ok (max 1 (unat rnd)) (t1, a) = Some (t3, (user u ^^ max 1 (unat rnd)) a)
         \<and> Timer_isFinished t3 \<and> tevent t3 = None"
    using fires_rounds [OF r order.refl, of user ok a]
    by (auto simp: after_rounds_def Timer_isFinished_def word_le_nat_alt)
  ultimately show ?thesis using t1 by blast
qed

text \<open>C38: a timer started for \<open>n \<ge> 1\<close> rounds calls its handler exactly \<open>n\<close> times: it is pending again
  after each of the first \<open>n - 1\<close> calls, and after the last one it is finished, its event is freed and
  it can be started again. A timer started for 0 rounds calls its handler once.\<close>

theorem timer_runs_rounds:
  assumes "tevent t = None"
  shows "\<exists>t1. Timer_startRounds (True, True) intv rnd (User u) t = (True, t1)
    \<and> (\<forall>k < max 1 (unat rnd). \<exists>t2. fires user ok k (t1, a) = Some (t2, (user u ^^ k) a)
         \<and> pending t2 \<and> unat (curRound t2) = k)
    \<and> (\<exists>t3. fires user ok (max 1 (unat rnd)) (t1, a) = Some (t3, (user u ^^ max 1 (unat rnd)) a)
         \<and> Timer_isFinished t3 \<and> tevent t3 = None)"
  using assms by (rule rounds_then_finished)

theorem timer_runs_rounds_witness:
  "\<exists>t1 t3. Timer_startRounds (True, True) 1500 3 (User ()) Timer = (True, t1)
    \<and> fires (\<lambda>_. Suc) (True, True) 3 (t1, 0) = Some (t3, 3) \<and> Timer_isFinished t3 \<and> tevent t3 = None"
  using timer_runs_rounds [of Timer 1500 3 "()" "\<lambda>_. Suc" "(True, True)" 0]
  by (auto simp: Timer_def simp del: fires.simps)

text \<open>\<open>startForever\<close> is not for ever: after 4294967295 rounds the timer is finished and its event is
  freed.\<close>

theorem startForever_ends:
  "\<exists>t1 t3. Timer_startForever (True, True) intv (User u) Timer = (True, t1)
    \<and> fires user ok 4294967295 (t1, a) = Some (t3, (user u ^^ 4294967295) a)
    \<and> Timer_isFinished t3 \<and> tevent t3 = None"
proof -
  have n: "max 1 (unat (ucast (- 1 :: u32) :: u64)) = 4294967295"
    by (simp add: unat_ucast_up unsigned_minus_1_eq_mask mask_eq_exp_minus_1)
  have "tevent Timer = None" by (simp add: Timer_def)
  from rounds_then_finished [OF this, of intv "ucast (- 1 :: u32)" u user ok a]
  show ?thesis unfolding n Timer_startForever_def by (elim exE conjE) (intro exI conjI)
qed

lemma startRounds_failure:
  "fst (Timer_startRounds ok intv rnd h t) \<longleftrightarrow> tevent t = None \<and> fst ok \<and> snd ok"
  "\<not> fst (Timer_startRounds ok intv rnd h t) \<Longrightarrow> snd (Timer_startRounds ok intv rnd h t) = t"
  by (auto simp: Timer_startRounds_def Timer_reset_def Let_def)

lemma startAfter_restarts:
  assumes "tevent t = None"
  shows "\<exists>t1 t2. Timer_startAfter (True, True) d intv rnd (User u) t = (True, t1)
    \<and> fires user (True, True) 1 (t1, a) = Some (t2, a) \<and> after_rounds t2 rnd u 0 \<and> interval t2 = intv"
  using assms
  by (auto simp: Timer_startAfter_def Timer_startOnce_def Timer_startRounds_def fire_def Timer_eventHandler_def
      call_handler_def Timer_reset_def after_rounds_def Let_def)

end
