(* ===== verification/EcTcp.thy ===== *)
theory EcTcp
  imports EcLoop
begin

text \<open>
  The TCP classes of \<open>src/libeventc++11\<close>: \<open>TcpSocket\<close>, \<open>TcpSession\<close>, \<open>TcpServerDispatcher\<close>, \<open>TcpServer\<close> and \<open>TcpClient\<close>
  (\<open>include/ec/tcp*.h\<close>, \<open>src/tcp*.cpp\<close>).

  What the classes ask of libevent and of the system is recorded as a list of calls, with the virtual methods
  that the user overrides; what libevent answers is an environment of each operation. A dispatcher is a loop
  of \<open>EcLoop\<close> that overrides \<open>onPost\<close>: a new connection reaches it as a posted block of bytes. The address
  of the server and the name resolution do not matter here and are left out of the calls.
\<close>

section \<open>Calls and answers\<close>

type_synonym SocketFd = u32
type_synonym SessionId = u64

abbreviation SOCKET_FD_INVALID :: SocketFd where "SOCKET_FD_INVALID \<equiv> - 1"

text \<open>\<open>Bev_new fd c\<close>: a buffer event on \<open>fd\<close>, with \<open>BEV_OPT_CLOSE_ON_FREE\<close> if \<open>c\<close>.\<close>

datatype tcall =
    Bev_new SocketFd bool | Bev_setcb nat | Bev_enable nat | Bev_disable nat bool bool | Bev_free nat
  | Bev_write nat bytes | Bev_connect nat | Drain_input nat u32 | Remove_input nat u32 | Pullup_input nat u32
  | Getpeername SocketFd | Shutdown SocketFd | Close_socket SocketFd | Nonblocking SocketFd
  | Listener_new nat | Listener_free nat
  | On_new SessionId | On_read SessionId | On_disconnected SessionId | On_listen_error
  | Client_read | Client_disconnected | Client_connected int | Bad_read

record lev_env =
  ev_fd :: "nat \<Rightarrow> SocketFd"
  ev_out :: "nat \<Rightarrow> nat"
  ev_in :: "nat \<Rightarrow> nat"
  ev_write :: bool
  ev_remove :: bool
  ev_pullup :: "bytes option"
  ev_new :: "nat option"
  ev_enable :: bool
  ev_connect :: bool
  ev_error :: int

section \<open>TcpSocket\<close>

record tcp_socket =
  bev :: "nat option"
  isClosing :: bool

definition TcpSocket :: tcp_socket where
  "TcpSocket = \<lparr>bev = None, isClosing = False\<rparr>"

definition TcpSocket_delete :: "tcp_socket \<Rightarrow> tcp_socket \<times> tcall list" where
  "TcpSocket_delete s = (case bev s of None \<Rightarrow> (s, []) | Some b \<Rightarrow> (s\<lparr>bev := None\<rparr>, [Bev_free b]))"

definition TcpSocket_isInited :: "tcp_socket \<Rightarrow> bool" where
  "TcpSocket_isInited s \<longleftrightarrow> bev s \<noteq> None"

definition TcpSocket_getSocket :: "lev_env \<Rightarrow> tcp_socket \<Rightarrow> SocketFd" where
  "TcpSocket_getSocket en s = (case bev s of None \<Rightarrow> SOCKET_FD_INVALID | Some b \<Rightarrow> ev_fd en b)"

text \<open>\<open>sizeof(struct sockaddr_in)\<close> is 16.\<close>

definition TcpSocket_getAddr :: "lev_env \<Rightarrow> u32 \<Rightarrow> tcp_socket \<Rightarrow> tcall list" where
  "TcpSocket_getAddr en sz s = (if bev s = None \<or> sz < 16 then [] else [Getpeername (TcpSocket_getSocket en s)])"

definition TcpSocket_send :: "lev_env \<Rightarrow> bytes \<Rightarrow> tcp_socket \<Rightarrow> bool \<times> tcall list" where
  "TcpSocket_send en d s =
     (case bev s of
        None \<Rightarrow> (False, [])
      | Some b \<Rightarrow> if isClosing s then (False, []) else (ev_write en, [Bev_write b d]))"

definition TcpSocket_clearInputBuffer :: "tcp_socket \<Rightarrow> tcall list" where
  "TcpSocket_clearInputBuffer s = (case bev s of None \<Rightarrow> [] | Some b \<Rightarrow> [Drain_input b (- 1)])"

text \<open>\<open>closeImpl\<close> of a socket whose buffer event is \<open>b\<close>.\<close>

definition TcpSocket_closeImpl :: "lev_env \<Rightarrow> nat \<Rightarrow> tcp_socket \<Rightarrow> tcp_socket \<times> tcall list" where
  "TcpSocket_closeImpl en b s =
     (s\<lparr>isClosing := False\<rparr>,
      TcpSocket_clearInputBuffer s @ [Bev_disable b False True, Shutdown (TcpSocket_getSocket en s)])"

definition TcpSocket_close :: "lev_env \<Rightarrow> bool \<Rightarrow> tcp_socket \<Rightarrow> tcp_socket \<times> tcall list" where
  "TcpSocket_close en pending s =
     (case bev s of
        None \<Rightarrow> (s, [])
      | Some b \<Rightarrow> if pending \<and> ev_out en b > 0 then (s\<lparr>isClosing := True\<rparr>, []) else TcpSocket_closeImpl en b s)"

definition TcpSocket_getInputBufferLength :: "lev_env \<Rightarrow> tcp_socket \<Rightarrow> u32" where
  "TcpSocket_getInputBufferLength en s = (case bev s of None \<Rightarrow> 0 | Some b \<Rightarrow> word_of_nat (ev_in en b))"

definition TcpSocket_viewInputBuffer :: "lev_env \<Rightarrow> u32 \<Rightarrow> tcp_socket \<Rightarrow> bytes option \<times> tcall list" where
  "TcpSocket_viewInputBuffer en sz s = (case bev s of None \<Rightarrow> (None, []) | Some b \<Rightarrow> (ev_pullup en, [Pullup_input b sz]))"

definition TcpSocket_readInputBuffer :: "lev_env \<Rightarrow> u32 \<Rightarrow> tcp_socket \<Rightarrow> bool \<times> tcall list" where
  "TcpSocket_readInputBuffer en sz s = (case bev s of None \<Rightarrow> (False, []) | Some b \<Rightarrow> (ev_remove en, [Remove_input b sz]))"

text \<open>\<open>checkClosing\<close>; \<open>None\<close> is the use of a null buffer event.\<close>

definition TcpSocket_checkClosing :: "lev_env \<Rightarrow> tcp_socket \<Rightarrow> (tcp_socket \<times> tcall list) option" where
  "TcpSocket_checkClosing en s =
     (if \<not> isClosing s then Some (s, [])
      else map_option (\<lambda>b. if ev_out en b = 0 then TcpSocket_closeImpl en b (s\<lparr>isClosing := False\<rparr>) else (s, [])) (bev s))"

section \<open>TcpClient\<close>

datatype bev_event = BEV_EVENT_EOF | BEV_EVENT_ERROR | BEV_EVENT_TIMEOUT | BEV_EVENT_CONNECTED

record tcp_client =
  tcp :: tcp_socket
  isConnected :: bool

definition TcpClient :: tcp_client where
  "TcpClient = \<lparr>tcp = TcpSocket, isConnected = False\<rparr>"

definition TcpClient_connect :: "lev_env \<Rightarrow> tcp_client \<Rightarrow> bool \<times> tcp_client \<times> tcall list" where
  "TcpClient_connect en c =
     (if bev (tcp c) \<noteq> None then (False, c, [])
      else (case ev_new en of
              None \<Rightarrow> (False, c, [Bev_new SOCKET_FD_INVALID True])
            | Some b \<Rightarrow>
                let calls = [Bev_new SOCKET_FD_INVALID True, Bev_setcb b, Bev_enable b]
                in if \<not> ev_enable en then (False, c, calls @ [Bev_free b])
                   else if \<not> ev_connect en then (False, c, calls @ [Bev_connect b, Bev_free b])
                   else (True, c\<lparr>tcp := (tcp c)\<lparr>bev := Some b\<rparr>\<rparr>, calls @ [Bev_connect b, Nonblocking (ev_fd en b)])))"

text \<open>The errors \<open>ECONNREFUSED\<close> and \<open>ETIMEDOUT\<close> of Linux.\<close>

definition ECONNREFUSED :: int where "ECONNREFUSED = 111"
definition ETIMEDOUT :: int where "ETIMEDOUT = 110"

definition TcpClient_handleEvent :: "lev_env \<Rightarrow> bev_event list \<Rightarrow> nat \<Rightarrow> tcp_client \<Rightarrow> tcp_client \<times> tcall list" where
  "TcpClient_handleEvent en events b c =
     (if BEV_EVENT_EOF \<in> set events \<or> BEV_EVENT_ERROR \<in> set events \<or> BEV_EVENT_TIMEOUT \<in> set events
      then (c\<lparr>isConnected := False, tcp := (tcp c)\<lparr>bev := None\<rparr>\<rparr>,
            [Bev_disable b True True, Close_socket (TcpSocket_getSocket en (tcp c)), Client_disconnected, Bev_free b])
      else if BEV_EVENT_CONNECTED \<in> set events
      then (if ev_error en \<noteq> ECONNREFUSED \<and> ev_error en \<noteq> ETIMEDOUT
            then (c\<lparr>isConnected := True\<rparr>, [Client_connected 0]) else (c, [Client_connected (ev_error en)]))
      else (c, []))"

definition TcpClient_readCallback :: "tcp_client \<Rightarrow> tcall list" where
  "TcpClient_readCallback c = [Client_read]"

definition TcpClient_writeCallback :: "lev_env \<Rightarrow> tcp_client \<Rightarrow> (tcp_client \<times> tcall list) option" where
  "TcpClient_writeCallback en c = map_option (\<lambda>(s, cs). (c\<lparr>tcp := s\<rparr>, cs)) (TcpSocket_checkClosing en (tcp c))"

section \<open>Sessions and dispatchers\<close>

record session =
  ses_sock :: tcp_socket
  ses_id :: SessionId

definition TcpSession :: "SessionId \<Rightarrow> session" where
  "TcpSession i = \<lparr>ses_sock = TcpSocket, ses_id = i\<rparr>"

definition TcpSession_attach :: "lev_env \<Rightarrow> SocketFd \<Rightarrow> session \<Rightarrow> session \<times> tcall list" where
  "TcpSession_attach en sock s =
     (if sock = SOCKET_FD_INVALID then (s, [])
      else (case ev_new en of
              None \<Rightarrow> (s\<lparr>ses_sock := (ses_sock s)\<lparr>bev := None\<rparr>\<rparr>, [Bev_new sock False])
            | Some b \<Rightarrow>
                if \<not> ev_enable en
                then (s\<lparr>ses_sock := (ses_sock s)\<lparr>bev := None\<rparr>\<rparr>, [Bev_new sock False, Bev_setcb b, Bev_enable b, Bev_free b])
                else (s\<lparr>ses_sock := (ses_sock s)\<lparr>bev := Some b\<rparr>\<rparr>, [Bev_new sock False, Bev_setcb b, Bev_enable b])))"

text \<open>The state of the application that the loops of a server act on: the sessions of each dispatcher by its
  address, the identifier generator, and the calls so far.\<close>

record tcp_app =
  t_sessions :: "nat \<Rightarrow> (SessionId \<times> session) list"
  t_idGenerator :: SessionId
  t_calls :: "tcall list"

definition TcpServerDispatcher_getSession :: "nat \<Rightarrow> SessionId \<Rightarrow> tcp_app \<Rightarrow> session option" where
  "TcpServerDispatcher_getSession p i a = map_of (t_sessions a p) i"

definition TcpServerDispatcher_addSession :: "nat \<Rightarrow> session \<Rightarrow> tcp_app \<Rightarrow> tcp_app" where
  "TcpServerDispatcher_addSession p s a =
     a\<lparr>t_sessions := (t_sessions a)(p := AList.update (ses_id s) s (t_sessions a p))\<rparr>"

definition TcpServerDispatcher_removeSession :: "nat \<Rightarrow> SessionId \<Rightarrow> tcp_app \<Rightarrow> tcp_app" where
  "TcpServerDispatcher_removeSession p i a = a\<lparr>t_sessions := (t_sessions a)(p := AList.delete i (t_sessions a p))\<rparr>"

definition calls :: "tcall list \<Rightarrow> tcp_app \<Rightarrow> tcp_app" where
  "calls cs a = a\<lparr>t_calls := t_calls a @ cs\<rparr>"

text \<open>\<open>NewSessionData\<close>: the socket in four bytes, four bytes of padding, and the identifier in eight.\<close>

definition new_session_pod :: "bytes \<Rightarrow> (SocketFd \<times> SessionId) pod" where
  "new_session_pod pad =
     \<lparr>pod_size = 16, pod_bytes = (\<lambda>(sock, i). le_bytes 4 (unat sock) @ pad @ le_bytes 8 (unat i)),
      pod_of = (\<lambda>bs. (word_of_nat (le_val (take 4 bs)), word_of_nat (le_val (drop 8 bs))))\<rparr>"

text \<open>\<open>onPost\<close> after the block has been read; \<open>lev\<close> are the answers of libevent for each session.\<close>

definition new_session :: "(SessionId \<Rightarrow> lev_env) \<Rightarrow> nat \<Rightarrow> SocketFd \<times> SessionId \<Rightarrow> tcp_app \<Rightarrow> tcp_app" where
  "new_session lev p d a =
     (let (s, cs) = TcpSession_attach (lev (snd d)) (fst d) (TcpSession (snd d)); a1 = calls cs a
      in if \<not> TcpSocket_isInited (ses_sock s) then a1
         else calls [On_new (ses_id s)] (TcpServerDispatcher_addSession p s a1))"

definition TcpServerDispatcher_onPost :: "(SessionId \<Rightarrow> lev_env) \<Rightarrow> nat \<Rightarrow> tcp_app post_handler" where
  "TcpServerDispatcher_onPost lev p d a =
     (case Data_get (new_session_pod []) d of
        None \<Rightarrow> (calls [Bad_read] a, False)
      | Some x \<Rightarrow> (new_session lev p x a, False))"

text \<open>The callbacks of a session; removing it from the table destroys it.\<close>

definition TcpSession_readCallback :: "session \<Rightarrow> tcp_app \<Rightarrow> tcp_app" where
  "TcpSession_readCallback s a = calls [On_read (ses_id s)] a"

definition TcpSession_writeCallback :: "lev_env \<Rightarrow> nat \<Rightarrow> session \<Rightarrow> tcp_app \<Rightarrow> tcp_app option" where
  "TcpSession_writeCallback en p s a =
     map_option (\<lambda>(k, cs). calls cs (TcpServerDispatcher_addSession p (s\<lparr>ses_sock := k\<rparr>) a)) (TcpSocket_checkClosing en (ses_sock s))"

definition TcpSession_handleEvent :: "lev_env \<Rightarrow> nat \<Rightarrow> nat \<Rightarrow> session \<Rightarrow> tcp_app \<Rightarrow> tcp_app" where
  "TcpSession_handleEvent en p b s a =
     (let a1 = calls [Bev_disable b True True, Close_socket (TcpSocket_getSocket en (ses_sock s)), On_disconnected (ses_id s)] a
      in calls (snd (TcpSocket_delete (ses_sock s))) (TcpServerDispatcher_removeSession p (ses_id s) a1))"

section \<open>TcpServer\<close>

record tcp_server =
  master :: nat
  slavers :: "nat list"
  eventListener :: "nat option"

text \<open>The class of the dispatcher at address \<open>p\<close>.\<close>

definition dispatcher_class :: "(SessionId \<Rightarrow> lev_env) \<Rightarrow> nat \<Rightarrow> tcp_app loop \<Rightarrow> tcp_app loop" where
  "dispatcher_class lev p l = l\<lparr>onPost := TcpServerDispatcher_onPost lev p\<rparr>"

definition new_dispatcher :: "(SessionId \<Rightarrow> lev_env) \<Rightarrow> nat \<Rightarrow> tcp_app world \<Rightarrow> tcp_app world" where
  "new_dispatcher lev p w =
     Loop_new p (dispatcher_class lev p) (w\<lparr>app := (app w)\<lparr>t_sessions := (t_sessions (app w))(p := [])\<rparr>\<rparr>)"

text \<open>\<open>ps\<close> are the addresses that \<open>new\<close> returns, one for each thread.\<close>

definition TcpServer_setThreads ::
  "(SessionId \<Rightarrow> lev_env) \<Rightarrow> nat list \<Rightarrow> tcp_server \<Rightarrow> tcp_app world \<Rightarrow> tcp_server \<times> tcp_app world" where
  "TcpServer_setThreads lev ps srv w =
     (if slavers srv \<noteq> [] then (srv, w) else (srv\<lparr>slavers := ps\<rparr>, fold (new_dispatcher lev) ps w))"

definition TcpServer ::
  "(SessionId \<Rightarrow> lev_env) \<Rightarrow> nat \<Rightarrow> nat list \<Rightarrow> tcp_app world \<Rightarrow> tcp_server \<times> tcp_app world" where
  "TcpServer lev m ps w =
     TcpServer_setThreads lev ps \<lparr>master = m, slavers = [], eventListener = None\<rparr> (new_dispatcher lev m w)"

definition TcpServer_delete :: "tcp_server \<Rightarrow> tcp_app world \<Rightarrow> tcp_app world" where
  "TcpServer_delete srv w =
     (let w1 = fold Loop_delete (slavers srv) (Loop_delete (master srv) w)
      in case eventListener srv of None \<Rightarrow> w1 | Some k \<Rightarrow> w1\<lparr>app := calls [Listener_free k] (app w1)\<rparr>)"

text \<open>\<open>k\<close> is the listener, if libevent could create and bind it.\<close>

definition TcpServer_listen :: "nat option \<Rightarrow> tcp_server \<Rightarrow> tcp_app world \<Rightarrow> bool \<times> tcp_server \<times> tcp_app world" where
  "TcpServer_listen k srv w =
     (case k of
        None \<Rightarrow> (False, srv\<lparr>eventListener := None\<rparr>, w)
      | Some n \<Rightarrow>
          let (ok, w1) = Loop_startThread (master srv) (w\<lparr>app := calls [Listener_new n] (app w)\<rparr>)
          in if \<not> ok then (False, srv\<lparr>eventListener := None\<rparr>, w1\<lparr>app := calls [Listener_free n] (app w1)\<rparr>)
             else (True, srv\<lparr>eventListener := Some n\<rparr>, fold (\<lambda>p w. snd (Loop_startThread p w)) (slavers srv) w1))"

definition TcpServer_stop :: "tcp_server \<Rightarrow> tcp_app world \<Rightarrow> tcp_app world" where
  "TcpServer_stop srv w = fold (\<lambda>p. Loop_stop p True) (slavers srv) (Loop_stop (master srv) True w)"

definition TcpServer_wait :: "tcp_server \<Rightarrow> tcp_app world \<Rightarrow> bool" where
  "TcpServer_wait srv w \<longleftrightarrow> Loop_waitThread (master srv) w \<or> (\<exists>p \<in> set (slavers srv). Loop_waitThread p w)"

definition TcpServer_getSessionDispatcher :: "SessionId \<Rightarrow> tcp_server \<Rightarrow> nat" where
  "TcpServer_getSessionDispatcher i srv =
     (if slavers srv = [] then master srv else slavers srv ! (unat i mod length (slavers srv)))"

definition TcpServer_listenEventCallback :: "bytes \<Rightarrow> tcp_server \<Rightarrow> SocketFd \<Rightarrow> tcp_app world \<Rightarrow> tcp_app world" where
  "TcpServer_listenEventCallback pad srv sock w =
     (let i = t_idGenerator (app w) + 1;
          a = (calls [Nonblocking sock] (app w))\<lparr>t_idGenerator := i\<rparr>
      in Loop_post (TcpServer_getSessionDispatcher i srv) (Some (pod_bytes (new_session_pod pad) (sock, i))) 16 (w\<lparr>app := a\<rparr>))"

definition TcpServer_listenErrorCallback :: "tcp_app world \<Rightarrow> tcp_app world" where
  "TcpServer_listenErrorCallback w = w\<lparr>app := calls [On_listen_error] (app w)\<rparr>"

section \<open>Closing\<close>

text \<open>A socket whose close waits for unsent data refuses new data; when the data has been sent, and not before, the
  write callback shuts the connection down.\<close>

lemma pending_close:
  assumes "bev s = Some b" and "ev_out en b > 0"
  shows "TcpSocket_close en True s = (s\<lparr>isClosing := True\<rparr>, [])"
    and "TcpSocket_send en' d (s\<lparr>isClosing := True\<rparr>) = (False, [])"
    and "TcpSocket_checkClosing en' (s\<lparr>isClosing := True\<rparr>) = Some
      (if ev_out en' b > 0 then (s\<lparr>isClosing := True\<rparr>, [])
       else (s\<lparr>isClosing := False\<rparr>, [Drain_input b (- 1), Bev_disable b False True, Shutdown (ev_fd en' b)]))"
  using assms
  by (simp_all add: TcpSocket_close_def TcpSocket_send_def TcpSocket_checkClosing_def TcpSocket_closeImpl_def
      TcpSocket_clearInputBuffer_def TcpSocket_getSocket_def)

text \<open>The operations of a program and of libevent on a socket, each with its answers: sending, closing, the write
  callback.\<close>

datatype sock_op = Send bytes | Close bool | Written

fun sock_step :: "lev_env \<times> sock_op \<Rightarrow> tcp_socket \<times> tcall list \<Rightarrow> (tcp_socket \<times> tcall list) option" where
  "sock_step (en, Send d) (s, cs) = Some (s, cs @ snd (TcpSocket_send en d s))"
| "sock_step (en, Close pending) (s, cs) = (let (s', c) = TcpSocket_close en pending s in Some (s', cs @ c))"
| "sock_step (en, Written) (s, cs) = map_option (\<lambda>(s', c). (s', cs @ c)) (TcpSocket_checkClosing en s)"

fun sock_run :: "(lev_env \<times> sock_op) list \<Rightarrow> tcp_socket \<times> tcall list \<Rightarrow> (tcp_socket \<times> tcall list) option" where
  "sock_run [] s = Some s"
| "sock_run (x # xs) s = Option.bind (sock_step x s) (sock_run xs)"

text \<open>What a run does to a closing socket, read off its operations: nothing until the first write callback that finds
  the data sent, or the first close that does not wait or has nothing to wait for.\<close>

fun ends_closing :: "nat \<Rightarrow> lev_env \<times> sock_op \<Rightarrow> bool" where
  "ends_closing b (en, Send d) = False"
| "ends_closing b (en, Close pending) = (\<not> pending \<or> ev_out en b = 0)"
| "ends_closing b (en, Written) = (ev_out en b = 0)"

lemma closing_step:
  assumes "bev s = Some b" and "isClosing s"
  shows "sock_step x (s, cs) = Some (if ends_closing b x
    then (s\<lparr>isClosing := False\<rparr>, cs @ [Drain_input b (- 1), Bev_disable b False True, Shutdown (ev_fd (fst x) b)]) else (s, cs))"
  using assms
  by (cases "(b, x)" rule: ends_closing.cases)
    (auto simp: TcpSocket_send_def TcpSocket_close_def TcpSocket_checkClosing_def TcpSocket_closeImpl_def
      TcpSocket_clearInputBuffer_def TcpSocket_getSocket_def)

lemma closing_run:
  assumes "bev s = Some b" and "isClosing s" and "\<not> list_ex (ends_closing b) xs"
  shows "sock_run xs (s, cs) = Some (s, cs)"
  using assms(3) by (induction xs) (simp_all add: closing_step [OF assms(1,2)])

text \<open>C16: Closing a socket that still has unsent data: whatever the program does next, no data is accepted any more and
  the connection is left alone, until the write callback finds the data sent or the program closes without
  waiting; that operation shuts the connection down, after dropping unread input and stopping
  the output.\<close>

theorem tcp_pending_close:
  assumes "bev s = Some b" and "ev_out en b > 0" and "\<not> list_ex (ends_closing b) xs" and "ends_closing b x"
  shows "sock_run ((en, Close True) # xs) (s, cs) = Some (s\<lparr>isClosing := True\<rparr>, cs)
    \<and> sock_run ((en, Close True) # xs @ [x]) (s, cs)
      = Some (s\<lparr>isClosing := False\<rparr>, cs @ [Drain_input b (- 1), Bev_disable b False True, Shutdown (ev_fd (fst x) b)])"
proof -
  let ?s = "s\<lparr>isClosing := True\<rparr>"
  have c: "sock_step (en, Close True) (s, cs) = Some (?s, cs)" using pending_close(1) [OF assms(1,2)] by simp
  have r: "sock_run (xs @ ys) z = Option.bind (sock_run xs z) (sock_run ys)" for xs ys z
    by (induction xs arbitrary: z) (simp_all, metis bind_assoc)
  have "sock_run xs (?s, cs) = Some (?s, cs)" by (rule closing_run [OF _ _ assms(3)]) (simp_all add: assms(1))
  then show ?thesis using c closing_step [of ?s b x cs] assms(1,4) by (simp add: r)
qed

definition quiet_env :: "nat \<Rightarrow> lev_env" where
  "quiet_env n =
     \<lparr>ev_fd = (\<lambda>b. word_of_nat b + 100), ev_out = (\<lambda>_. n), ev_in = (\<lambda>_. 0), ev_write = True, ev_remove = True, ev_pullup = None,
      ev_new = Some 7, ev_enable = True, ev_connect = True, ev_error = 0\<rparr>"

theorem tcp_pending_close_witness:
  "sock_run [(quiet_env 5, Close True), (quiet_env 5, Send [1]), (quiet_env 3, Written), (quiet_env 0, Written)]
     (\<lparr>bev = Some 7, isClosing = False\<rparr>, [])
   = Some (\<lparr>bev = Some 7, isClosing = False\<rparr>, [Drain_input 7 (- 1), Bev_disable 7 False True, Shutdown 107])"
  using tcp_pending_close [of "\<lparr>bev = Some 7, isClosing = False\<rparr>" 7 "quiet_env 5" "[(quiet_env 5, Send [1]), (quiet_env 3, Written)]"
      "(quiet_env 0, Written)" "[]"]
  by (simp add: quiet_env_def)

section \<open>The client\<close>

text \<open>C40: A connection that breaks while a close of the client waits for unsent data leaves the client closing. When it is
  connected again, the new connection is mute: every \<open>send\<close> fails.\<close>

theorem client_reconnect_mute:
  assumes "bev (tcp c) = Some b" and "isClosing (tcp c)" and "BEV_EVENT_EOF \<in> set events"
    and "ev_new en' = Some b'" and "ev_enable en'" and "ev_connect en'"
  shows "let c1 = fst (TcpClient_handleEvent en events b c); (ok, c2, cs) = TcpClient_connect en' c1
    in ok \<and> bev (tcp c2) = Some b' \<and> (\<forall>en2 d. TcpSocket_send en2 d (tcp c2) = (False, []))"
  using assms by (simp add: TcpClient_handleEvent_def TcpClient_connect_def TcpSocket_send_def Let_def)

theorem client_reconnect_mute_witness:
  "let c = \<lparr>tcp = \<lparr>bev = Some 3, isClosing = True\<rparr>, isConnected = True\<rparr>;
       c1 = fst (TcpClient_handleEvent (quiet_env 1) [BEV_EVENT_EOF] 3 c);
       (ok, c2, cs) = TcpClient_connect (quiet_env 0) c1
   in ok \<and> TcpSocket_send (quiet_env 0) [1, 2] (tcp c2) = (False, [])"
  using client_reconnect_mute [of "\<lparr>tcp = \<lparr>bev = Some 3, isClosing = True\<rparr>, isConnected = True\<rparr>" 3 "[BEV_EVENT_EOF]" "quiet_env 0" 7 "quiet_env 1"]
  by (simp add: quiet_env_def Let_def split: prod.splits)

text \<open>How often a descriptor is closed: by the code, and by libevent when it frees a buffer event that was made
  with \<open>BEV_OPT_CLOSE_ON_FREE\<close> (\<open>cof\<close>).\<close>

fun closings :: "(nat \<Rightarrow> SocketFd) \<Rightarrow> (nat \<Rightarrow> bool) \<Rightarrow> SocketFd \<Rightarrow> tcall list \<Rightarrow> nat" where
  "closings fd cof k [] = 0"
| "closings fd cof k (Close_socket j # cs) = of_bool (j = k) + closings fd cof k cs"
| "closings fd cof k (Bev_free b # cs) = of_bool (cof b \<and> fd b = k) + closings fd cof k cs"
| "closings fd cof k (c # cs) = closings fd cof k cs"

lemma closings_append: "closings fd cof k (xs @ ys) = closings fd cof k xs + closings fd cof k ys"
  by (induction fd cof k xs rule: closings.induct) simp_all

text \<open>A client closes its descriptor twice when the connection ends, a session once; a session that could not be
  attached never closes it.\<close>

lemma client_closes_twice:
  assumes "bev (tcp c) = Some b" and "BEV_EVENT_EOF \<in> set events" and "cof b"
  shows "closings (ev_fd en) cof (ev_fd en b) (snd (TcpClient_handleEvent en events b c)) = 2"
  using assms by (simp add: TcpClient_handleEvent_def TcpSocket_getSocket_def)

lemma session_closes_once:
  assumes "bev (ses_sock s) = Some b" and "t_calls a = []"
  shows "closings (ev_fd en) (\<lambda>_. False) (ev_fd en b) (t_calls (TcpSession_handleEvent en p b s a)) = 1"
  using assms
  by (simp add: TcpSession_handleEvent_def calls_def TcpServerDispatcher_removeSession_def TcpSocket_delete_def
      TcpSocket_getSocket_def Let_def)

lemma attach_failure_leaks:
  assumes "ev_new (lev i) = None \<or> \<not> ev_enable (lev i)" and "t_calls a = []"
  shows "closings fd (\<lambda>_. False) sock (t_calls (new_session lev p (sock, i) a)) = 0"
    and "t_sessions (new_session lev p (sock, i) a) = t_sessions a"
  using assms
  by (auto simp: new_session_def TcpSession_attach_def TcpSession_def TcpSocket_def TcpSocket_isInited_def calls_def Let_def
      split: option.splits)

section \<open>The server\<close>

lemma new_session_pod_get:
  assumes "length pad = 4"
  shows "Data_get (new_session_pod []) (Data_of (Some (pod_bytes (new_session_pod pad) x)) 16) = Some x"
proof -
  obtain sock i where x: "x = (sock, i)" by fastforce
  have "le_val (le_bytes 4 (unat sock)) = unat sock" "le_val (le_bytes 8 (unat i)) = unat i"
    using unsigned_less [of sock, where ?'a = nat] unsigned_less [of i, where ?'a = nat] by (simp_all add: le_val_le_bytes)
  then show ?thesis
    using assms x by (simp add: Data_get_def Data_of_def Data_set_def Data_reset_def Data_def new_session_pod_def)
qed

text \<open>The connections with the identifiers they get.\<close>

fun numbered :: "SessionId \<Rightarrow> SocketFd list \<Rightarrow> (SocketFd \<times> SessionId) list" where
  "numbered g [] = []"
| "numbered g (s # ss) = (s, g + 1) # numbered (g + 1) ss"

definition accept_all :: "bytes \<Rightarrow> tcp_server \<Rightarrow> SocketFd list \<Rightarrow> tcp_app world \<Rightarrow> tcp_app world" where
  "accept_all pad srv socks w = fold (TcpServer_listenEventCallback pad srv) socks w"

text \<open>The connections of the dispatcher at \<open>p\<close>.\<close>

definition assigned :: "tcp_server \<Rightarrow> nat \<Rightarrow> (SocketFd \<times> SessionId) list \<Rightarrow> (SocketFd \<times> SessionId) list" where
  "assigned srv p xs = filter (\<lambda>(s, i). TcpServer_getSessionDispatcher i srv = p) xs"

lemma accept_posts:
  assumes "heap w p = Some l"
  shows "\<exists>q. heap (accept_all pad srv socks w) p = Some (l\<lparr>asyncPosts := q\<rparr>)
    \<and> sq_elements q = sq_elements (asyncPosts l)
        @ map (\<lambda>x. Data_of (Some (pod_bytes (new_session_pod pad) x)) 16) (assigned srv p (numbered (t_idGenerator (app w)) socks))
    \<and> t_sessions (app (accept_all pad srv socks w)) = t_sessions (app w)"
  using assms
proof (induction socks arbitrary: w l)
  case Nil
  then show ?case by (intro exI [of _ "asyncPosts l"]) (simp add: accept_all_def assigned_def)
next
  case (Cons s socks)
  let ?g = "t_idGenerator (app w) + 1"
  let ?w1 = "TcpServer_listenEventCallback pad srv s w"
  define q1 where "q1 = (if TcpServer_getSessionDispatcher ?g srv = p
    then SafeQueue_push (asyncPosts l) (Data_of (Some (pod_bytes (new_session_pod pad) (s, ?g))) 16) else asyncPosts l)"
  have "heap ?w1 p = Some (l\<lparr>asyncPosts := q1\<rparr>)" "t_idGenerator (app ?w1) = ?g" "t_sessions (app ?w1) = t_sessions (app w)"
    using Cons.prems by (auto simp: TcpServer_listenEventCallback_def Loop_post_def calls_def q1_def Let_def)
  with Cons.IH [of ?w1 "l\<lparr>asyncPosts := q1\<rparr>"] show ?case
    by (auto simp: accept_all_def assigned_def q1_def SafeQueue_push_def)
qed

lemma numbered_ids:
  "unat g + length socks < 2 ^ 64 \<Longrightarrow> map (unat \<circ> snd) (numbered g socks) = [unat g + 1..<unat g + 1 + length socks]"
proof (induction socks arbitrary: g)
  case (Cons s socks)
  then have "unat (g + 1) = unat g + 1" by (subst unat_plus_simple [THEN iffD1]) (auto simp: no_olen_add_nat)
  moreover have "[unat g + 1..<unat g + 1 + length (s # socks)] = (unat g + 1) # [unat g + 2..<unat g + 2 + length socks]"
    by (subst upt_conv_Cons) simp_all
  ultimately show ?case using Cons.IH [of "g + 1"] Cons.prems by (simp del: upt_Suc)
qed simp

text \<open>The session of a connection that libevent accepts.\<close>

definition attached :: "lev_env \<Rightarrow> SocketFd \<times> SessionId \<Rightarrow> session option" where
  "attached en x =
     (if fst x \<noteq> SOCKET_FD_INVALID \<and> ev_enable en
      then map_option (\<lambda>b. \<lparr>ses_sock = \<lparr>bev = Some b, isClosing = False\<rparr>, ses_id = snd x\<rparr>) (ev_new en) else None)"

lemma new_session_get:
  "TcpServerDispatcher_getSession p j (new_session lev p x a) =
     (if j = snd x \<and> attached (lev j) x \<noteq> None then attached (lev j) x else TcpServerDispatcher_getSession p j a)"
  by (auto simp: new_session_def TcpSession_attach_def TcpSession_def TcpSocket_def TcpSocket_isInited_def attached_def calls_def
      TcpServerDispatcher_addSession_def TcpServerDispatcher_getSession_def update_conv Let_def split: option.splits)

lemma new_sessions_get:
  assumes "distinct (map snd xs)" and "x \<in> set xs"
  shows "TcpServerDispatcher_getSession p (snd x) (fold (new_session lev p) xs a) =
    (case attached (lev (snd x)) x of None \<Rightarrow> TcpServerDispatcher_getSession p (snd x) a | Some s \<Rightarrow> Some s)"
proof -
  have other: "TcpServerDispatcher_getSession p j (fold (new_session lev p) ys b) = TcpServerDispatcher_getSession p j b"
    if "j \<notin> snd ` set ys" for j ys b
    using that by (induction ys arbitrary: b) (simp_all add: new_session_get)
  from assms show ?thesis
    by (induction xs arbitrary: a) (auto simp: other new_session_get split: option.splits)
qed

lemma distinct_numbered:
  assumes "unat g + length socks < 2 ^ 64"
  shows "distinct (map snd (assigned srv p (numbered g socks)))"
proof -
  have "distinct (map unat (map snd (numbered g socks)))"
    using numbered_ids [OF assms] by (simp add: comp_def)
  then have "distinct (map snd (numbered g socks))" by (rule distinct_map [THEN iffD1, THEN conjunct1])
  then show ?thesis unfolding assigned_def by (rule distinct_map_filter)
qed

text \<open>C9: New connections are handled once each, by the dispatcher that their identifier selects, in the order in which they
  were accepted: the next frame of a dispatcher creates a session for each of its connections, under
  identifiers that are all different, and the session is then found in its table - unless libevent could
  not attach it.\<close>

theorem tcp_sessions_dispatched:
  assumes "heap w p = Some l" and "idle l" and "postHandler l = None" and "onPost l = TcpServerDispatcher_onPost lev p"
    and "frameHandlerFn l = None" and "onFrame l = (\<lambda>r a. (a, False))" and "length pad = 4"
    and "unat (t_idGenerator (app w)) + length socks < 2 ^ 64"
    and "x \<in> set (assigned srv p (numbered (t_idGenerator (app w)) socks))"
  shows "\<exists>w'. frameHandler p (accept_all pad srv socks w) = Some w'
    \<and> app w' = fold (new_session lev p) (assigned srv p (numbered (t_idGenerator (app w)) socks)) (app (accept_all pad srv socks w))
    \<and> TcpServerDispatcher_getSession p (snd x) (app w')
        = (case attached (lev (snd x)) x of None \<Rightarrow> TcpServerDispatcher_getSession p (snd x) (app w) | Some s \<Rightarrow> Some s)"
proof -
  let ?xs = "assigned srv p (numbered (t_idGenerator (app w)) socks)"
  let ?w1 = "accept_all pad srv socks w"
  obtain q where q: "heap ?w1 p = Some (l\<lparr>asyncPosts := q\<rparr>)"
    "sq_elements q = map (\<lambda>x. Data_of (Some (pod_bytes (new_session_pod pad) x)) 16) ?xs"
    "t_sessions (app ?w1) = t_sessions (app w)"
    using accept_posts [OF assms(1), of pad srv socks] assms(2) by (auto simp: idle_def)
  have post: "call_post (l\<lparr>asyncPosts := q\<rparr>) (Data_of (Some (pod_bytes (new_session_pod pad) y)) 16) a = new_session lev p y a" for y a
    using assms(3,4) new_session_pod_get [OF assms(7), of y] by (simp add: call_post_def TcpServerDispatcher_onPost_def)
  have frame: "call_frame (l\<lparr>asyncPosts := q, frameRound := k\<rparr>) a = a" for k a
    using assms(5,6) by (simp add: call_frame_def)
  have "foldl (\<lambda>a d. call_post (l\<lparr>asyncPosts := q\<rparr>) d a) a (map (\<lambda>x. Data_of (Some (pod_bytes (new_session_pod pad) x)) 16) ys)
      = fold (new_session lev p) ys a" for ys a
    by (induction ys arbitrary: a) (simp_all add: post)
  then obtain w' where w': "frameHandler p ?w1 = Some w'" "app w' = fold (new_session lev p) ?xs (app ?w1)"
    using frame_idle [OF q(1)] assms(2) q(2) frame by (auto simp: idle_def)
  have "TcpServerDispatcher_getSession p (snd x) (app ?w1) = TcpServerDispatcher_getSession p (snd x) (app w)"
    by (simp add: TcpServerDispatcher_getSession_def q(3))
  then show ?thesis
    using w' new_sessions_get [OF distinct_numbered [OF assms(8)] assms(9), of p lev "app ?w1"] by (simp split: option.split)
qed

definition two_dispatchers :: "tcp_server \<times> tcp_app world" where
  "two_dispatchers =
     TcpServer (\<lambda>_. quiet_env 0) 1 [2, 3] (world0 \<lparr>t_sessions = (\<lambda>_. []), t_idGenerator = 0, t_calls = []\<rparr>)"

lemma two_dispatchers_eq:
  "heap (snd two_dispatchers) 2 = Some (Loop0\<lparr>loop_id := 2, onPost := TcpServerDispatcher_onPost (\<lambda>_. quiet_env 0) 2\<rparr>)"
  "app (snd two_dispatchers) = \<lparr>t_sessions = (\<lambda>_. []), t_idGenerator = 0, t_calls = []\<rparr>" "slavers (fst two_dispatchers) = [2, 3]"
  by (simp_all add: two_dispatchers_def TcpServer_def TcpServer_setThreads_def new_dispatcher_def dispatcher_class_def Loop_new_def
      Loop_init_def world0_def Let_def fun_eq_iff)

theorem tcp_sessions_dispatched_witness:
  "\<exists>w'. frameHandler 2 (accept_all [0, 0, 0, 0] (fst two_dispatchers) [50, 51, 52] (snd two_dispatchers)) = Some w'
     \<and> TcpServerDispatcher_getSession 2 2 (app w') = Some \<lparr>ses_sock = \<lparr>bev = Some 7, isClosing = False\<rparr>, ses_id = 2\<rparr>"
proof -
  have x: "(51, 2) \<in> set (assigned (fst two_dispatchers) 2 (numbered (t_idGenerator (app (snd two_dispatchers))) [50, 51, 52]))"
    by (simp add: two_dispatchers_eq assigned_def TcpServer_getSessionDispatcher_def flip: numeral_2_eq_2)
  show ?thesis
    using tcp_sessions_dispatched [OF two_dispatchers_eq(1) _ _ _ _ _ _ _ x, of "\<lambda>_. quiet_env 0" "[0, 0, 0, 0]"]
    by (auto simp: two_dispatchers_eq(2) Loop0_def idle_def attached_def quiet_env_def)
qed

end
