(* ===== verification/EcHttp.thy ===== *)
theory EcHttp
  imports Prelude "HOL-Library.AList"
begin

text \<open>
  \<open>HttpServer\<close> and \<open>HttpRequest\<close> of \<open>src/libeventc++11\<close> (\<open>include/ec/http*.h\<close>, \<open>src/http*.cpp\<close>), over the HTTP server of libevent.

  What the classes ask of libevent is recorded as a list of calls. Two of its functions are parameters: the search
  for a header of the request, and the text that \<open>evbuffer_add_printf\<close> appends for a format string without
  arguments, \<open>pf\<close>. Sending a chunk empties its buffer. A handler of the user is a function on the request.
\<close>

datatype hcall =
    Http_new | Http_bind string u16 | Http_free | Set_gencb | Set_cb string
  | Reply_start nat string | Reply_chunk string | Reply_end | Remove_header string | Add_header string string

section \<open>HttpRequest\<close>

record http_request =
  find_header :: "string \<Rightarrow> string option"
  uri :: string
  uri_path :: string
  uri_host :: "string option"
  uri_port :: int
  body :: string
  hcalls :: "hcall list"

definition request_call :: "hcall list \<Rightarrow> http_request \<Rightarrow> http_request" where
  "request_call cs r = r\<lparr>hcalls := hcalls r @ cs\<rparr>"

definition HttpRequest :: "http_request \<Rightarrow> http_request" where
  "HttpRequest req = req\<lparr>body := []\<rparr>"

definition HttpRequest_getUri :: "http_request \<Rightarrow> string" where
  "HttpRequest_getUri r = uri r"

definition HttpRequest_getPath :: "http_request \<Rightarrow> string" where
  "HttpRequest_getPath r = uri_path r"

definition HttpRequest_getHost :: "http_request \<Rightarrow> string option" where
  "HttpRequest_getHost r = uri_host r"

definition HttpRequest_getPort :: "http_request \<Rightarrow> u16" where
  "HttpRequest_getPort r = word_of_int (uri_port r)"

definition HttpRequest_findHeaders :: "string \<Rightarrow> http_request \<Rightarrow> string option" where
  "HttpRequest_findHeaders key r = find_header r key"

definition HttpRequest_setHeader :: "string \<Rightarrow> string \<Rightarrow> http_request \<Rightarrow> bool \<times> http_request" where
  "HttpRequest_setHeader key value r = (True, request_call [Remove_header key, Add_header key value] r)"

definition HttpRequest_setBody :: "(string \<Rightarrow> string) \<Rightarrow> string \<Rightarrow> http_request \<Rightarrow> bool \<times> http_request" where
  "HttpRequest_setBody pf content r = (True, r\<lparr>body := body r @ pf content\<rparr>)"

definition send_chunk :: "http_request \<Rightarrow> http_request" where
  "send_chunk r = (request_call [Reply_chunk (body r)] r)\<lparr>body := []\<rparr>"

definition HttpRequest_setChunk :: "(string \<Rightarrow> string) \<Rightarrow> string \<Rightarrow> http_request \<Rightarrow> bool \<times> http_request" where
  "HttpRequest_setChunk pf content r = (True, send_chunk (r\<lparr>body := body r @ pf content\<rparr>))"

section \<open>HttpServer\<close>

type_synonym http_handler = "http_request \<Rightarrow> http_request"

record http_server =
  http :: bool
  server_ip :: string
  server_port :: u16
  handlers :: "(string \<times> http_handler) list"
  callbacks :: "string list"
  server_calls :: "hcall list"

definition HttpServer :: http_server where
  "HttpServer = \<lparr>http = False, server_ip = [], server_port = 0, handlers = [], callbacks = [], server_calls = []\<rparr>"

definition server_call :: "hcall list \<Rightarrow> http_server \<Rightarrow> http_server" where
  "server_call cs s = s\<lparr>server_calls := server_calls s @ cs\<rparr>"

definition HttpServer_delete :: "http_server \<Rightarrow> http_server" where
  "HttpServer_delete s = (if http s then server_call [Http_free] s else s)"

text \<open>\<open>new_ok\<close> and \<open>bind_ok\<close>: whether \<open>evhttp_new\<close> and \<open>evhttp_bind_socket\<close> succeed.\<close>

definition HttpServer_listen :: "bool \<Rightarrow> bool \<Rightarrow> string \<Rightarrow> u16 \<Rightarrow> http_server \<Rightarrow> bool \<times> http_server" where
  "HttpServer_listen new_ok bind_ok ip port s =
     (if http s then (False, s)
      else if \<not> new_ok then (False, server_call [Http_new] s)
      else if \<not> bind_ok then (False, server_call [Http_new, Http_bind ip port, Http_free] s)
      else (True, (server_call [Http_new, Http_bind ip port, Set_gencb] s)\<lparr>http := True, server_ip := ip, server_port := port\<rparr>))"

text \<open>The callback of libevent holds the address of the handler's place in the map, so that a later registration
  of the path replaces the handler; libevent keeps a path that it has already.\<close>

definition HttpServer_regHandler :: "string \<Rightarrow> http_handler \<Rightarrow> http_server \<Rightarrow> http_server" where
  "HttpServer_regHandler path h s =
     (if \<not> http s then s
      else (server_call [Set_cb path] s)\<lparr>handlers := AList.update path h (handlers s), callbacks := List.insert path (callbacks s)\<rparr>)"

definition HttpServer_genericCallback :: "http_request \<Rightarrow> http_request" where
  "HttpServer_genericCallback r = request_call [Reply_start 404 ''not found'', Reply_end] r"

definition CONNECTION_KEY :: string where "CONNECTION_KEY = ''Connection''"
definition CONNECTION_VALUE :: string where "CONNECTION_VALUE = ''keep-alive''"

definition HttpServer_mainCallback :: "http_handler \<Rightarrow> http_request \<Rightarrow> http_request" where
  "HttpServer_mainCallback h req =
     (let r = h (HttpRequest req);
          r1 = (case HttpRequest_findHeaders CONNECTION_KEY r of
                  Some value \<Rightarrow>
                    if take (length CONNECTION_VALUE) value = CONNECTION_VALUE
                    then request_call [Add_header CONNECTION_KEY CONNECTION_VALUE] r else r
                | None \<Rightarrow> r)
      in request_call [Reply_end] (send_chunk (request_call [Reply_start 200 ''OK''] r1)))"

text \<open>What libevent does with a request: the callback of its path, or the generic one.\<close>

definition on_request :: "http_server \<Rightarrow> string \<Rightarrow> http_request \<Rightarrow> http_request" where
  "on_request s path r =
     (if path \<in> set (callbacks s)
      then (case map_of (handlers s) path of Some h \<Rightarrow> HttpServer_mainCallback h r | None \<Rightarrow> r)
      else HttpServer_genericCallback r)"

section \<open>Routing and replies\<close>

lemma regHandlers:
  assumes "http s"
  shows "map_of (handlers (fold (\<lambda>(p, h). HttpServer_regHandler p h) regs s)) = map_of (rev regs @ handlers s)"
    and "set (callbacks (fold (\<lambda>(p, h). HttpServer_regHandler p h) regs s)) = set (map fst regs) \<union> set (callbacks s)"
proof -
  show "map_of (handlers (fold (\<lambda>(p, h). HttpServer_regHandler p h) regs s)) = map_of (rev regs @ handlers s)"
    using assms
    by (induction regs arbitrary: s)
      (auto simp: HttpServer_regHandler_def server_call_def update_conv' map_add_def fun_eq_iff split: option.splits)
  show "set (callbacks (fold (\<lambda>(p, h). HttpServer_regHandler p h) regs s)) = set (map fst regs) \<union> set (callbacks s)"
    using assms by (induction regs arbitrary: s) (auto simp: HttpServer_regHandler_def server_call_def simp del: set_map)
qed


text \<open>The reply to a handler that sets headers and then the body in pieces without a per cent sign: the headers, the
  keep-alive header if the request asked for it, the status, the pieces in order as one chunk, the end. The
  body goes through a printf format, so that other text is not sent as it is.\<close>

theorem http_reply_body:
  assumes "\<And>t. CHR ''%'' \<notin> set t \<Longrightarrow> pf t = t" and "CHR ''%'' \<notin> set (concat ts)"
    and "h = (\<lambda>r. fold (\<lambda>t r. snd (HttpRequest_setBody pf t r)) ts (fold (\<lambda>(k, v) r. snd (HttpRequest_setHeader k v r)) hs r))"
  shows "hcalls (HttpServer_mainCallback h req) = hcalls req @ concat (map (\<lambda>(k, v). [Remove_header k, Add_header k v]) hs)
    @ (case find_header req ''Connection'' of
         Some v \<Rightarrow> if take 10 v = ''keep-alive'' then [Add_header ''Connection'' ''keep-alive''] else []
       | None \<Rightarrow> [])
    @ [Reply_start 200 ''OK'', Reply_chunk (concat ts), Reply_end]"
proof -
  have bodies: "fold (\<lambda>t r. snd (HttpRequest_setBody pf t r)) us r = r\<lparr>body := body r @ concat us\<rparr>"
    if "CHR ''%'' \<notin> set (concat us)" for us r
    using that assms(1) by (induction us arbitrary: r) (auto simp: HttpRequest_setBody_def)
  have headers: "fold (\<lambda>(k, v) r. snd (HttpRequest_setHeader k v r)) ks r
      = r\<lparr>hcalls := hcalls r @ concat (map (\<lambda>(k, v). [Remove_header k, Add_header k v]) ks)\<rparr>" for ks r
    by (induction ks arbitrary: r) (auto simp: HttpRequest_setHeader_def request_call_def)
  have l: "length CONNECTION_VALUE = 10" by (simp add: CONNECTION_VALUE_def)
  show ?thesis
    unfolding assms(3) HttpServer_mainCallback_def l headers bodies [OF assms(2)]
    by (simp add: HttpRequest_def HttpRequest_findHeaders_def request_call_def
        send_chunk_def CONNECTION_KEY_def CONNECTION_VALUE_def Let_def split: option.split)
qed

definition plain_request :: http_request where
  "plain_request =
     \<lparr>find_header = (\<lambda>k. if k = ''Connection'' then Some ''keep-alive'' else None), uri = ''/a'', uri_path = ''/a'', uri_host = None,
      uri_port = - 1, body = [], hcalls = []\<rparr>"

definition hello :: http_handler where
  "hello = (\<lambda>r. fold (\<lambda>t r. snd (HttpRequest_setBody id t r)) [''hel'', ''lo''] (fold (\<lambda>(k, v) r. snd (HttpRequest_setHeader k v r)) [] r))"


theorem http_reply_body_witness:
  "hcalls (HttpServer_mainCallback hello plain_request)
   = [Add_header ''Connection'' ''keep-alive'', Reply_start 200 ''OK'', Reply_chunk ''hello'', Reply_end]"
proof -
  have "CHR ''%'' \<notin> set (concat [''hel'', ''lo''])" by simp
  from http_reply_body [OF _ this hello_def, of plain_request] show ?thesis by (simp add: plain_request_def)
qed

end
