(* ===== verification/MpmcQueue.thy ===== *)
theory MpmcQueue
  imports Prelude "HOL-Library.Monad_Syntax" "HOL-Library.Multiset"
begin

unbundle bit_operations_syntax

text \<open>
  \<open>mpmc_bounded_queue\<close> of \<open>src/common/spdlog/include/details/mpmc_bounded_q.h\<close>: the lock-free bounded
  queue between the threads that log and the thread that writes. Each cell carries a sequence
  number; a cell is free for position \<open>p\<close> when its number is \<open>p\<close> and holds the element of position \<open>p\<close>
  when it is \<open>p + 1\<close>.

  Positions and sequence numbers are natural numbers: the code counts in \<open>size_t\<close> and takes
  differences in \<open>intptr_t\<close>, which is exact for the first \<open>2\<^sup>6\<^sup>3\<close> operations. The operations
  are modelled twice: as functions, for a queue used by one thread, where the retry loops are
  partial functions and not returning is \<open>None\<close>; and as the atomic accesses to memory that any
  number of threads interleave. The second model is sequentially consistent; the memory orders of the
  code, which make the publication of a cell a release and its inspection an acquire, are not modelled.
\<close>

section \<open>The queue and its operations for one thread\<close>

record 'a mpmc =
  cell_seq :: "nat list"
  cell_data :: "'a list"
  buffer_mask :: nat
  enqueue_pos :: nat
  dequeue_pos :: nat

text \<open>The constructor; \<open>None\<close> is the exception. \<open>d\<close> is the value of a default constructed element.\<close>

definition mpmc_bounded_queue :: "'a \<Rightarrow> nat \<Rightarrow> 'a mpmc option" where
  "mpmc_bounded_queue d buffer_size =
     (if \<not> (buffer_size \<ge> 2 \<and> buffer_size AND (buffer_size - 1) = 0) then None
      else Some \<lparr>cell_seq = [0..<buffer_size], cell_data = replicate buffer_size d,
             buffer_mask = buffer_size - 1, enqueue_pos = 0, dequeue_pos = 0\<rparr>)"

definition cell_of :: "'a mpmc \<Rightarrow> nat \<Rightarrow> nat" where
  "cell_of q pos = pos AND buffer_mask q"

text \<open>The loop of \<open>enqueue\<close> from the position \<open>pos\<close>: the position it claims, or \<open>None\<close> where it returns
  false. A compare-and-exchange by the only thread fails only when \<open>pos\<close> is stale.\<close>

partial_function (option) enqueue_loop :: "'a mpmc \<Rightarrow> nat \<Rightarrow> nat option option" where
  "enqueue_loop q pos =
     (let dif = int (cell_seq q ! cell_of q pos) - int pos
      in if dif = 0
         then (if enqueue_pos q = pos then Some (Some pos) else enqueue_loop q (enqueue_pos q))
         else if dif < 0 then Some None
         else enqueue_loop q (enqueue_pos q))"

definition mpmc_enqueue :: "'a mpmc \<Rightarrow> 'a \<Rightarrow> (bool \<times> 'a mpmc) option" where
  "mpmc_enqueue q data = do {
     r \<leftarrow> enqueue_loop q (enqueue_pos q);
     Some (case r of
         None \<Rightarrow> (False, q)
       | Some pos \<Rightarrow> (True, q\<lparr>enqueue_pos := pos + 1, cell_data := (cell_data q)[cell_of q pos := data],
            cell_seq := (cell_seq q)[cell_of q pos := pos + 1]\<rparr>))
   }"

partial_function (option) dequeue_loop :: "'a mpmc \<Rightarrow> nat \<Rightarrow> nat option option" where
  "dequeue_loop q pos =
     (let dif = int (cell_seq q ! cell_of q pos) - int (pos + 1)
      in if dif = 0
         then (if dequeue_pos q = pos then Some (Some pos) else dequeue_loop q (dequeue_pos q))
         else if dif < 0 then Some None
         else dequeue_loop q (dequeue_pos q))"

definition mpmc_dequeue :: "'a mpmc \<Rightarrow> ('a option \<times> 'a mpmc) option" where
  "mpmc_dequeue q = do {
     r \<leftarrow> dequeue_loop q (dequeue_pos q);
     Some (case r of
         None \<Rightarrow> (None, q)
       | Some pos \<Rightarrow> (Some (cell_data q ! cell_of q pos), q\<lparr>dequeue_pos := pos + 1,
            cell_seq := (cell_seq q)[cell_of q pos := pos + buffer_mask q + 1]\<rparr>))
   }"

section \<open>The queue of one thread as a list\<close>

text \<open>The positions between the two counters hold elements, the next ones are free.\<close>

definition mpmc_size :: "'a mpmc \<Rightarrow> nat" where
  "mpmc_size q = buffer_mask q + 1"

definition mpmc_shape :: "'a mpmc \<Rightarrow> bool" where
  "mpmc_shape q \<longleftrightarrow> 2 \<le> mpmc_size q \<and> (\<exists>k. mpmc_size q = 2 ^ k) \<and> length (cell_seq q) = mpmc_size q
     \<and> length (cell_data q) = mpmc_size q"

definition mpmc_ok :: "'a mpmc \<Rightarrow> bool" where
  "mpmc_ok q \<longleftrightarrow> mpmc_shape q
     \<and> dequeue_pos q \<le> enqueue_pos q \<and> enqueue_pos q \<le> dequeue_pos q + mpmc_size q
     \<and> (\<forall>p. dequeue_pos q \<le> p \<and> p < enqueue_pos q \<longrightarrow> cell_seq q ! (p mod mpmc_size q) = p + 1)
     \<and> (\<forall>p. enqueue_pos q \<le> p \<and> p < dequeue_pos q + mpmc_size q \<longrightarrow> cell_seq q ! (p mod mpmc_size q) = p)"

definition mpmc_items :: "'a mpmc \<Rightarrow> 'a list" where
  "mpmc_items q = map (\<lambda>p. cell_data q ! (p mod mpmc_size q)) [dequeue_pos q..<enqueue_pos q]"

section \<open>Many threads\<close>

text \<open>Where a thread is in \<open>enqueue\<close> (before the load of the sequence number, before the exchange, before a
  reload of the counter, before the store of the element, before the publication) or in \<open>dequeue\<close>.\<close>

datatype 'a pc =
    Idle
  | ELoaded 'a nat | ECas 'a nat | EReload 'a | EStore 'a nat | EPublish 'a nat
  | DLoaded nat | DCas nat | DReload | DFetch nat | DFree nat 'a

text \<open>The shared queue, the threads, the elements in the order in which their positions were claimed, and
  the positions and elements that \<open>dequeue\<close> returned.\<close>

record 'a mpmc_state =
  mq :: "'a mpmc"
  pcs :: "nat \<Rightarrow> 'a pc"
  claimed :: "'a list"
  returned :: "(nat \<times> 'a) list"

definition goto :: "'a mpmc_state \<Rightarrow> nat \<Rightarrow> 'a pc \<Rightarrow> 'a mpmc_state" where
  "goto s t c = s\<lparr>pcs := (pcs s)(t := c)\<rparr>"

text \<open>One memory access of thread \<open>t\<close>. A weak exchange may also fail although the counter has the
  expected value.\<close>

inductive mpmc_step :: "'a mpmc_state \<Rightarrow> 'a mpmc_state \<Rightarrow> bool" where
  enq_call: "pcs s t = Idle \<Longrightarrow> mpmc_step s (goto s t (ELoaded x (enqueue_pos (mq s))))"
| enq_free: "pcs s t = ELoaded x pos \<Longrightarrow> int (cell_seq (mq s) ! cell_of (mq s) pos) - int pos = 0 \<Longrightarrow>
    mpmc_step s (goto s t (ECas x pos))"
| enq_full: "pcs s t = ELoaded x pos \<Longrightarrow> int (cell_seq (mq s) ! cell_of (mq s) pos) - int pos < 0 \<Longrightarrow>
    mpmc_step s (goto s t Idle)"
| enq_stale: "pcs s t = ELoaded x pos \<Longrightarrow> int (cell_seq (mq s) ! cell_of (mq s) pos) - int pos > 0 \<Longrightarrow>
    mpmc_step s (goto s t (EReload x))"
| enq_reload: "pcs s t = EReload x \<Longrightarrow> mpmc_step s (goto s t (ELoaded x (enqueue_pos (mq s))))"
| enq_claim: "pcs s t = ECas x pos \<Longrightarrow> enqueue_pos (mq s) = pos \<Longrightarrow>
    mpmc_step s (goto (s\<lparr>mq := (mq s)\<lparr>enqueue_pos := pos + 1\<rparr>, claimed := claimed s @ [x]\<rparr>) t (EStore x pos))"
| enq_lost: "pcs s t = ECas x pos \<Longrightarrow> mpmc_step s (goto s t (ELoaded x (enqueue_pos (mq s))))"
| enq_store: "pcs s t = EStore x pos \<Longrightarrow>
    mpmc_step s (goto (s\<lparr>mq := (mq s)\<lparr>cell_data := (cell_data (mq s))[cell_of (mq s) pos := x]\<rparr>\<rparr>) t
      (EPublish x pos))"
| enq_publish: "pcs s t = EPublish x pos \<Longrightarrow>
    mpmc_step s (goto (s\<lparr>mq := (mq s)\<lparr>cell_seq := (cell_seq (mq s))[cell_of (mq s) pos := pos + 1]\<rparr>\<rparr>) t Idle)"
| deq_call: "pcs s t = Idle \<Longrightarrow> mpmc_step s (goto s t (DLoaded (dequeue_pos (mq s))))"
| deq_there: "pcs s t = DLoaded pos \<Longrightarrow> int (cell_seq (mq s) ! cell_of (mq s) pos) - int (pos + 1) = 0 \<Longrightarrow>
    mpmc_step s (goto s t (DCas pos))"
| deq_empty: "pcs s t = DLoaded pos \<Longrightarrow> int (cell_seq (mq s) ! cell_of (mq s) pos) - int (pos + 1) < 0 \<Longrightarrow>
    mpmc_step s (goto s t Idle)"
| deq_stale: "pcs s t = DLoaded pos \<Longrightarrow> int (cell_seq (mq s) ! cell_of (mq s) pos) - int (pos + 1) > 0 \<Longrightarrow>
    mpmc_step s (goto s t DReload)"
| deq_reload: "pcs s t = DReload \<Longrightarrow> mpmc_step s (goto s t (DLoaded (dequeue_pos (mq s))))"
| deq_claim: "pcs s t = DCas pos \<Longrightarrow> dequeue_pos (mq s) = pos \<Longrightarrow>
    mpmc_step s (goto (s\<lparr>mq := (mq s)\<lparr>dequeue_pos := pos + 1\<rparr>\<rparr>) t (DFetch pos))"
| deq_lost: "pcs s t = DCas pos \<Longrightarrow> mpmc_step s (goto s t (DLoaded (dequeue_pos (mq s))))"
| deq_fetch: "pcs s t = DFetch pos \<Longrightarrow>
    mpmc_step s (goto s t (DFree pos (cell_data (mq s) ! cell_of (mq s) pos)))"
| deq_free: "pcs s t = DFree pos x \<Longrightarrow>
    mpmc_step s (goto (s\<lparr>mq := (mq s)\<lparr>cell_seq := (cell_seq (mq s))[cell_of (mq s) pos := pos + buffer_mask (mq s) + 1]\<rparr>,
      returned := returned s @ [(pos, x)]\<rparr>) t Idle)"

inductive mpmc_reachable :: "nat \<Rightarrow> 'a mpmc_state \<Rightarrow> bool" for n where
  start: "mpmc_bounded_queue d n = Some q \<Longrightarrow>
    mpmc_reachable n \<lparr>mq = q, pcs = (\<lambda>_. Idle), claimed = [], returned = []\<rparr>"
| step: "mpmc_reachable n s \<Longrightarrow> mpmc_step s s' \<Longrightarrow> mpmc_reachable n s'"

section \<open>The operations of one thread refine a bounded list\<close>

lemma and_mask_mod: "n = 2 ^ k \<Longrightarrow> pos AND (n - 1) = pos mod n" for pos n :: nat
  by (simp only: mask_eq_exp_minus_1 [symmetric] take_bit_eq_mask [symmetric] take_bit_eq_mod)

lemma bit_top:
  fixes n :: nat
  assumes "2 ^ k \<le> n" and "n < 2 ^ (k + 1)"
  shows "bit n k"
proof -
  have "n div 2 ^ k = 1" using assms by (intro div_nat_eqI) simp_all
  then show ?thesis by (simp add: bit_iff_odd)
qed

lemma power_of_two_check:
  fixes n :: nat
  assumes "n \<ge> 2"
  shows "n AND (n - 1) = 0 \<longleftrightarrow> (\<exists>k. n = 2 ^ k)"
proof
  assume z: "n AND (n - 1) = 0"
  obtain k where k: "2 ^ k \<le> n" "n < 2 ^ (k + 1)" using ex_power_ivl1 [of 2 n] assms by auto
  have "n = 2 ^ k"
  proof (rule ccontr)
    assume "n \<noteq> 2 ^ k"
    then have "bit (n - 1) k" using k by (intro bit_top) simp_all
    then have "bit (n AND (n - 1)) k" using bit_top [OF k] by (simp add: bit_and_iff)
    then show False using z by simp
  qed
  then show "\<exists>k. n = 2 ^ k" ..
next
  assume "\<exists>k. n = 2 ^ k"
  then show "n AND (n - 1) = 0" using and_mask_mod [of n _ n] by auto
qed

lemma mpmc_bounded_queue_eq:
  "mpmc_bounded_queue d n = (if n \<ge> 2 \<and> (\<exists>k. n = 2 ^ k)
     then Some \<lparr>cell_seq = [0..<n], cell_data = replicate n d, buffer_mask = n - 1, enqueue_pos = 0, dequeue_pos = 0\<rparr>
     else None)"
  using power_of_two_check [of n] by (auto simp: mpmc_bounded_queue_def)

lemma cell_of_mod: "mpmc_shape q \<Longrightarrow> cell_of q pos = pos mod mpmc_size q"
proof -
  assume "mpmc_shape q"
  then obtain k where "mpmc_size q = 2 ^ k" by (auto simp: mpmc_shape_def)
  from and_mask_mod [OF this, of pos] show ?thesis by (simp add: cell_of_def mpmc_size_def)
qed

lemma mpmc_size_pos [simp]: "0 < mpmc_size q"
  by (simp add: mpmc_size_def)

lemma mod_window:
  fixes p p' n :: nat
  assumes "p mod n = p' mod n" and "a \<le> p" "p < a + n" "a \<le> p'" "p' < a + n"
  shows "p = p'"
proof -
  have "p - p' = 0 \<or> n \<le> p - p'" "p' - p = 0 \<or> n \<le> p' - p"
    using mod_eq_dvd_iff_nat [of p' p n] mod_eq_dvd_iff_nat [of p p' n] assms(1)
    by (cases "p' \<le> p"; force dest: dvd_imp_le)+
  then show ?thesis using assms by auto
qed

lemma enqueue_run:
  assumes "mpmc_ok q"
  shows "enqueue_loop q (enqueue_pos q)
    = Some (if length (mpmc_items q) = mpmc_size q then None else Some (enqueue_pos q))"
proof (cases "enqueue_pos q < dequeue_pos q + mpmc_size q")
  case True
  then have "cell_seq q ! cell_of q (enqueue_pos q) = enqueue_pos q"
    using assms cell_of_mod [of q "enqueue_pos q"] by (simp add: mpmc_ok_def)
  moreover have "enqueue_pos q - dequeue_pos q \<noteq> mpmc_size q" using True mpmc_size_pos [of q] by linarith
  ultimately show ?thesis
    by (simp add: enqueue_loop.simps [of q "enqueue_pos q"] mpmc_items_def)
next
  case False
  then have e: "enqueue_pos q = dequeue_pos q + mpmc_size q" using assms by (simp add: mpmc_ok_def)
  then have "cell_seq q ! (dequeue_pos q mod mpmc_size q) = dequeue_pos q + 1"
    using assms mpmc_size_pos [of q] unfolding mpmc_ok_def by (metis less_add_same_cancel1 order_refl)
  moreover have "cell_of q (enqueue_pos q) = dequeue_pos q mod mpmc_size q" "2 \<le> mpmc_size q"
    using assms cell_of_mod [of q "enqueue_pos q"] e by (simp_all add: mpmc_ok_def mpmc_shape_def)
  ultimately have "int (cell_seq q ! cell_of q (enqueue_pos q)) - int (enqueue_pos q) < 0"
    using e by simp
  then show ?thesis using e by (subst enqueue_loop.simps) (simp add: Let_def mpmc_items_def)
qed

lemma dequeue_run:
  assumes "mpmc_ok q"
  shows "dequeue_loop q (dequeue_pos q) = Some (if mpmc_items q = [] then None else Some (dequeue_pos q))"
proof (cases "dequeue_pos q < enqueue_pos q")
  case True
  then have "cell_seq q ! cell_of q (dequeue_pos q) = dequeue_pos q + 1"
    using assms cell_of_mod [of q "dequeue_pos q"] by (simp add: mpmc_ok_def)
  then show ?thesis using True
    by (simp add: dequeue_loop.simps [of q "dequeue_pos q"] mpmc_items_def)
next
  case False
  then have "cell_seq q ! cell_of q (dequeue_pos q) = dequeue_pos q"
    using assms cell_of_mod [of q "dequeue_pos q"] mpmc_size_pos [of q] by (simp add: mpmc_ok_def)
  then show ?thesis using False
    by (simp add: dequeue_loop.simps [of q "dequeue_pos q"] mpmc_items_def)
qed

lemma enqueue_ok:
  assumes "mpmc_ok q" and "length (mpmc_items q) \<noteq> mpmc_size q"
    and "q' = q\<lparr>enqueue_pos := enqueue_pos q + 1,
      cell_data := (cell_data q)[cell_of q (enqueue_pos q) := x],
      cell_seq := (cell_seq q)[cell_of q (enqueue_pos q) := enqueue_pos q + 1]\<rparr>"
  shows "mpmc_ok q' \<and> mpmc_items q' = mpmc_items q @ [x] \<and> mpmc_size q' = mpmc_size q"
proof -
  let ?n = "mpmc_size q" and ?e = "enqueue_pos q" and ?d = "dequeue_pos q"
  have sh: "mpmc_shape q" and de: "?d \<le> ?e" "?e < ?d + ?n"
    using assms(1,2) by (auto simp: mpmc_ok_def mpmc_items_def)
  have c: "cell_of q ?e = ?e mod ?n" "?e mod ?n < ?n" using cell_of_mod [OF sh] by simp_all
  have len: "length (cell_seq q) = ?n" "length (cell_data q) = ?n" using sh by (simp_all add: mpmc_shape_def)
  have ne: "?e mod ?n \<noteq> p mod ?n" if "?d \<le> p" "p < ?d + ?n" "p \<noteq> ?e" for p
    using mod_window [of ?e ?n p ?d] that de by auto
  have n': "mpmc_size q' = ?n" "enqueue_pos q' = ?e + 1" "dequeue_pos q' = ?d"
    by (simp_all add: assms(3) mpmc_size_def)
  have sq: "cell_seq q' ! (p mod ?n) = (if p = ?e then ?e + 1 else cell_seq q ! (p mod ?n))"
    if "?d \<le> p" "p < ?d + ?n" for p using that ne c len by (simp add: assms(3))
  have dt: "cell_data q' ! (p mod ?n) = (if p = ?e then x else cell_data q ! (p mod ?n))"
    if "?d \<le> p" "p < ?d + ?n" for p using that ne c len by (simp add: assms(3))
  have "mpmc_shape q'" using sh by (simp add: assms(3) mpmc_shape_def mpmc_size_def)
  moreover have "mpmc_items q' = mpmc_items q @ [x]"
    using de dt by (simp add: mpmc_items_def n')
  ultimately show ?thesis
    using assms(1) de sq by (simp add: mpmc_ok_def n')
qed

lemma dequeue_ok:
  assumes "mpmc_ok q" and "mpmc_items q \<noteq> []"
    and "q' = q\<lparr>dequeue_pos := dequeue_pos q + 1,
      cell_seq := (cell_seq q)[cell_of q (dequeue_pos q) := dequeue_pos q + buffer_mask q + 1]\<rparr>"
  shows "mpmc_ok q' \<and> mpmc_items q = cell_data q ! cell_of q (dequeue_pos q) # mpmc_items q'
    \<and> mpmc_size q' = mpmc_size q"
proof -
  let ?n = "mpmc_size q" and ?e = "enqueue_pos q" and ?d = "dequeue_pos q"
  have sh: "mpmc_shape q" and de: "?d < ?e" "?e \<le> ?d + ?n"
    using assms(1,2) by (auto simp: mpmc_ok_def mpmc_items_def)
  have c: "cell_of q ?d = ?d mod ?n" "?d mod ?n < ?n" using cell_of_mod [OF sh] by simp_all
  have len: "length (cell_seq q) = ?n" using sh by (simp add: mpmc_shape_def)
  have ne: "?d mod ?n \<noteq> p mod ?n" if "?d < p" "p < ?d + ?n" for p
    using mod_window [of ?d ?n p ?d] that by auto
  have n': "mpmc_size q' = ?n" "enqueue_pos q' = ?e" "dequeue_pos q' = ?d + 1" "cell_data q' = cell_data q"
    by (simp_all add: assms(3) mpmc_size_def)
  have sq: "cell_seq q' ! (p mod ?n) = (if p = ?d + ?n then ?d + ?n else cell_seq q ! (p mod ?n))"
    if "?d < p" "p < ?d + 1 + ?n" for p
  proof (cases "p = ?d + ?n")
    case True
    then have "p mod ?n = ?d mod ?n" by simp
    moreover have "?d + buffer_mask q + 1 = ?d + ?n" by (simp add: mpmc_size_def)
    ultimately show ?thesis using True c len by (simp add: assms(3))
  next
    case False
    then show ?thesis using that ne [of p] c len by (simp add: assms(3))
  qed
  have "mpmc_shape q'" using sh by (simp add: assms(3) mpmc_shape_def mpmc_size_def)
  moreover have "mpmc_items q = cell_data q ! cell_of q ?d # mpmc_items q'"
    using de c by (simp add: mpmc_items_def n' upt_conv_Cons)
  ultimately show ?thesis
    using assms(1) de sq by (auto simp: mpmc_ok_def n')
qed

lemma new_ok:
  assumes "mpmc_bounded_queue d n = Some q"
  shows "mpmc_ok q \<and> mpmc_items q = [] \<and> mpmc_size q = n"
  using assms by (auto simp: mpmc_bounded_queue_eq mpmc_ok_def mpmc_shape_def mpmc_size_def mpmc_items_def
      split: if_splits)

section \<open>The invariant of the threads and the cells\<close>

text \<open>The position whose cell a thread owns, as a writer and as a reader.\<close>

fun wpos :: "'a pc \<Rightarrow> nat option" where
  "wpos (EStore x p) = Some p"
| "wpos (EPublish x p) = Some p"
| "wpos _ = None"

fun rpos :: "'a pc \<Rightarrow> nat option" where
  "rpos (DFetch p) = Some p"
| "rpos (DFree p x) = Some p"
| "rpos _ = None"

definition writing :: "'a mpmc_state \<Rightarrow> nat \<Rightarrow> bool" where
  "writing s p \<longleftrightarrow> (\<exists>t. wpos (pcs s t) = Some p)"

definition reading :: "'a mpmc_state \<Rightarrow> nat \<Rightarrow> bool" where
  "reading s p \<longleftrightarrow> (\<exists>t. rpos (pcs s t) = Some p)"

definition seq_at :: "'a mpmc \<Rightarrow> nat \<Rightarrow> nat" where
  "seq_at q p = cell_seq q ! (p mod mpmc_size q)"

definition data_at :: "'a mpmc \<Rightarrow> nat \<Rightarrow> 'a" where
  "data_at q p = cell_data q ! (p mod mpmc_size q)"

text \<open>What a thread knows at each point.\<close>

fun pc_ok :: "'a mpmc \<Rightarrow> 'a list \<Rightarrow> 'a pc \<Rightarrow> bool" where
  "pc_ok q cl (ELoaded x p) \<longleftrightarrow> p \<le> enqueue_pos q"
| "pc_ok q cl (ECas x p) \<longleftrightarrow> p \<le> enqueue_pos q \<and> p \<le> seq_at q p"
| "pc_ok q cl (EStore x p) \<longleftrightarrow> p < enqueue_pos q \<and> seq_at q p = p \<and> cl ! p = x"
| "pc_ok q cl (EPublish x p) \<longleftrightarrow> p < enqueue_pos q \<and> seq_at q p = p \<and> cl ! p = x \<and> data_at q p = x"
| "pc_ok q cl (DLoaded p) \<longleftrightarrow> p \<le> dequeue_pos q"
| "pc_ok q cl (DCas p) \<longleftrightarrow> p \<le> dequeue_pos q \<and> p + 1 \<le> seq_at q p"
| "pc_ok q cl (DFetch p) \<longleftrightarrow> p < dequeue_pos q \<and> seq_at q p = p + 1"
| "pc_ok q cl (DFree p x) \<longleftrightarrow> p < dequeue_pos q \<and> seq_at q p = p + 1 \<and> cl ! p = x"
| "pc_ok q cl _ \<longleftrightarrow> True"

text \<open>A cell is free for the position \<open>p\<close>, and being written exactly if \<open>p\<close> was claimed, or holds the element of
  position \<open>p\<close>, and is being read exactly if \<open>p\<close> was claimed by a reader.\<close>

definition cell_free :: "'a mpmc_state \<Rightarrow> nat \<Rightarrow> bool" where
  "cell_free s p \<longleftrightarrow> seq_at (mq s) p = p \<and> dequeue_pos (mq s) \<le> p \<and> p < dequeue_pos (mq s) + mpmc_size (mq s)
     \<and> (p < enqueue_pos (mq s) \<longleftrightarrow> writing s p)"

definition cell_full :: "'a mpmc_state \<Rightarrow> nat \<Rightarrow> bool" where
  "cell_full s p \<longleftrightarrow> seq_at (mq s) p = p + 1 \<and> p < enqueue_pos (mq s) \<and> enqueue_pos (mq s) \<le> p + mpmc_size (mq s)
     \<and> data_at (mq s) p = claimed s ! p
     \<and> (p < dequeue_pos (mq s) \<longleftrightarrow> reading s p)"

definition cells_ok :: "'a mpmc_state \<Rightarrow> bool" where
  "cells_ok s \<longleftrightarrow> (\<forall>i < mpmc_size (mq s). \<exists>p. p mod mpmc_size (mq s) = i \<and> (cell_free s p \<or> cell_full s p))"

definition threads_ok :: "'a mpmc_state \<Rightarrow> bool" where
  "threads_ok s \<longleftrightarrow> (\<forall>t. pc_ok (mq s) (claimed s) (pcs s t))
     \<and> (\<forall>t t' p. wpos (pcs s t) = Some p \<longrightarrow> wpos (pcs s t') = Some p \<longrightarrow> t = t')
     \<and> (\<forall>t t' p. rpos (pcs s t) = Some p \<longrightarrow> rpos (pcs s t') = Some p \<longrightarrow> t = t')"

definition counts_ok :: "'a mpmc_state \<Rightarrow> bool" where
  "counts_ok s \<longleftrightarrow> mpmc_shape (mq s) \<and> dequeue_pos (mq s) \<le> enqueue_pos (mq s)
     \<and> enqueue_pos (mq s) \<le> dequeue_pos (mq s) + mpmc_size (mq s) \<and> length (claimed s) = enqueue_pos (mq s)"

definition returned_ok :: "'a mpmc_state \<Rightarrow> bool" where
  "returned_ok s \<longleftrightarrow> distinct (map fst (returned s))
     \<and> (\<forall>p x. (p, x) \<in> set (returned s) \<longrightarrow> p < dequeue_pos (mq s) \<and> x = claimed s ! p \<and> \<not> reading s p)
     \<and> (\<forall>p < dequeue_pos (mq s). p \<in> fst ` set (returned s) \<or> reading s p)"

definition mpmc_inv :: "'a mpmc_state \<Rightarrow> bool" where
  "mpmc_inv s \<longleftrightarrow> counts_ok s \<and> cells_ok s \<and> threads_ok s \<and> returned_ok s"

lemma goto_simps [simp]:
  "mq (goto s t c) = mq s" "claimed (goto s t c) = claimed s" "returned (goto s t c) = returned s"
  "pcs (goto s t c) t' = (if t' = t then c else pcs s t')"
  by (simp_all add: goto_def)

lemma mpmc_size_upd [simp]:
  "mpmc_size (q\<lparr>enqueue_pos := e\<rparr>) = mpmc_size q" "mpmc_size (q\<lparr>dequeue_pos := e\<rparr>) = mpmc_size q"
  "mpmc_size (q\<lparr>cell_data := x\<rparr>) = mpmc_size q" "mpmc_size (q\<lparr>cell_seq := y\<rparr>) = mpmc_size q"
  by (simp_all add: mpmc_size_def)

lemma at_upd [simp]:
  "seq_at (q\<lparr>enqueue_pos := e\<rparr>) p = seq_at q p" "seq_at (q\<lparr>dequeue_pos := e\<rparr>) p = seq_at q p"
  "seq_at (q\<lparr>cell_data := x\<rparr>) p = seq_at q p" "data_at (q\<lparr>enqueue_pos := e\<rparr>) p = data_at q p"
  "data_at (q\<lparr>dequeue_pos := e\<rparr>) p = data_at q p" "data_at (q\<lparr>cell_seq := y\<rparr>) p = data_at q p"
  by (simp_all add: seq_at_def data_at_def)

lemma cell_of_at: "mpmc_shape q \<Longrightarrow> cell_seq q ! cell_of q p = seq_at q p \<and> cell_data q ! cell_of q p = data_at q p"
  by (simp add: seq_at_def data_at_def cell_of_mod)

lemma seq_at_store:
  "mpmc_shape q \<Longrightarrow> seq_at (q\<lparr>cell_seq := (cell_seq q)[cell_of q p := v]\<rparr>) p'
     = (if p' mod mpmc_size q = p mod mpmc_size q then v else seq_at q p')"
  by (simp add: seq_at_def cell_of_mod mpmc_shape_def)

lemma data_at_store:
  "mpmc_shape q \<Longrightarrow> data_at (q\<lparr>cell_data := (cell_data q)[cell_of q p := v]\<rparr>) p'
     = (if p' mod mpmc_size q = p mod mpmc_size q then v else data_at q p')"
  by (simp add: data_at_def cell_of_mod mpmc_shape_def)

lemma shape_upd [simp]:
  "mpmc_shape (q\<lparr>enqueue_pos := e\<rparr>) = mpmc_shape q" "mpmc_shape (q\<lparr>dequeue_pos := e\<rparr>) = mpmc_shape q"
  "mpmc_shape (q\<lparr>cell_data := (cell_data q)[i := x]\<rparr>) = mpmc_shape q"
  "mpmc_shape (q\<lparr>cell_seq := (cell_seq q)[i := y]\<rparr>) = mpmc_shape q"
  by (simp_all add: mpmc_shape_def)

lemma same_cell_seq: "p mod mpmc_size q = p' mod mpmc_size q \<Longrightarrow> seq_at q p = seq_at q p'"
  by (simp add: seq_at_def)

lemma same_cell_data: "p mod mpmc_size q = p' mod mpmc_size q \<Longrightarrow> data_at q p = data_at q p'"
  by (simp add: data_at_def)

lemma size_ge_2: "mpmc_shape q \<Longrightarrow> 2 \<le> mpmc_size q"
  by (simp add: mpmc_shape_def)

lemma not_suc_mod: "2 \<le> n \<Longrightarrow> (p + 1) mod n \<noteq> p mod n" for p n :: nat
  using mod_window [of "p + 1" n p p] by auto

text \<open>A step of one thread between two points where it owns no cell.\<close>

lemma inv_goto:
  assumes "mpmc_inv s" and "wpos (pcs s t) = None" and "rpos (pcs s t) = None"
    and "wpos c = None" and "rpos c = None" and "pc_ok (mq s) (claimed s) c"
  shows "mpmc_inv (goto s t c)"
proof -
  have w: "writing (goto s t c) p = writing s p" and r: "reading (goto s t c) p = reading s p" for p
    using assms(2-5) by (auto simp: writing_def reading_def split: if_splits) (metis option.distinct(1))+
  have "cell_free (goto s t c) p = cell_free s p" "cell_full (goto s t c) p = cell_full s p" for p
    unfolding cell_free_def cell_full_def w r by simp_all
  moreover have "returned_ok (goto s t c)"
    using assms(1) unfolding mpmc_inv_def returned_ok_def r by simp
  moreover have "threads_ok (goto s t c)"
    using assms unfolding mpmc_inv_def threads_ok_def by simp
  ultimately show ?thesis
    using assms(1) by (simp add: mpmc_inv_def counts_ok_def cells_ok_def)
qed

lemma writer_at:
  "mpmc_inv s \<Longrightarrow> wpos (pcs s t) = Some p \<Longrightarrow>
   p < enqueue_pos (mq s) \<and> seq_at (mq s) p = p"
  by (cases "pcs s t") (auto simp: mpmc_inv_def threads_ok_def dest!: spec [of _ t])

lemma reader_at:
  "mpmc_inv s \<Longrightarrow> rpos (pcs s t) = Some p \<Longrightarrow>
   p < dequeue_pos (mq s) \<and> seq_at (mq s) p = p + 1"
  by (cases "pcs s t") (auto simp: mpmc_inv_def threads_ok_def dest!: spec [of _ t])

lemma cell_cases:
  assumes "mpmc_inv s"
  obtains p where "p mod mpmc_size (mq s) = p0 mod mpmc_size (mq s)" "cell_free s p \<or> cell_full s p"
  using assms unfolding mpmc_inv_def cells_ok_def by (meson mod_less_divisor mpmc_size_pos)

text \<open>A cell whose number is \<open>p\<close> is free for \<open>p\<close>; one whose number is \<open>p + 1\<close> holds the element of \<open>p\<close>.\<close>

lemma cell_is_free:
  assumes "mpmc_inv s" and "seq_at (mq s) p = p"
  shows "cell_free s p"
proof -
  obtain p' where p': "p' mod mpmc_size (mq s) = p mod mpmc_size (mq s)" "cell_free s p' \<or> cell_full s p'"
    using cell_cases [OF assms(1)] by blast
  note sq = same_cell_seq [OF p'(1)]
  have "p \<noteq> p' + 1"
    using p'(1) not_suc_mod [of "mpmc_size (mq s)" p'] assms(1) size_ge_2 by (auto simp: mpmc_inv_def counts_ok_def)
  then show ?thesis using p'(2) sq assms(2) by (auto simp: cell_free_def cell_full_def)
qed

lemma cell_is_full:
  assumes "mpmc_inv s" and "seq_at (mq s) p = p + 1"
  shows "cell_full s p"
proof -
  obtain p' where p': "p' mod mpmc_size (mq s) = p mod mpmc_size (mq s)" "cell_free s p' \<or> cell_full s p'"
    using cell_cases [OF assms(1)] by blast
  note sq = same_cell_seq [OF p'(1)]
  have "p' \<noteq> p + 1"
    using p'(1) not_suc_mod [of "mpmc_size (mq s)" p] assms(1) size_ge_2 by (auto simp: mpmc_inv_def counts_ok_def)
  then show ?thesis using p'(2) sq assms(2) by (auto simp: cell_free_def cell_full_def)
qed

text \<open>When the exchange succeeds the sequence number still has the value it had when it was loaded.\<close>

lemma claim_enq:
  assumes "mpmc_inv s" and "pcs s t = ECas x p" and "enqueue_pos (mq s) = p"
  shows "seq_at (mq s) p = p" and "p < dequeue_pos (mq s) + mpmc_size (mq s)"
proof -
  have le: "p \<le> seq_at (mq s) p"
    using assms(1,2) by (auto simp: mpmc_inv_def threads_ok_def dest!: spec [of _ t])
  have c: "counts_ok s" "2 \<le> mpmc_size (mq s)"
    using assms(1) size_ge_2 by (auto simp: mpmc_inv_def counts_ok_def)
  obtain p' where p': "p' mod mpmc_size (mq s) = p mod mpmc_size (mq s)" "cell_free s p' \<or> cell_full s p'"
    using cell_cases [OF assms(1)] by blast
  note sq = same_cell_seq [OF p'(1)]
  have "seq_at (mq s) p = p"
    using p'(2)
  proof
    assume f: "cell_free s p'"
    then have "p \<le> p'" "p' < p + mpmc_size (mq s)"
      using le sq c(1) assms(3) by (auto simp: cell_free_def counts_ok_def)
    then have "p' = p" using mod_window [OF p'(1), of p] c(2) by simp
    then show ?thesis using f by (simp add: cell_free_def)
  next
    assume f: "cell_full s p'"
    then have "p' < p" "p \<le> p' + mpmc_size (mq s)" "p' + 1 = seq_at (mq s) p"
      using sq assms(3) by (auto simp: cell_full_def)
    then show ?thesis using le by simp
  qed
  then show "seq_at (mq s) p = p" .
  then show "p < dequeue_pos (mq s) + mpmc_size (mq s)"
    using cell_is_free [OF assms(1)] by (simp add: cell_free_def)
qed

lemma claim_deq:
  assumes "mpmc_inv s" and "pcs s t = DCas p" and "dequeue_pos (mq s) = p"
  shows "seq_at (mq s) p = p + 1" and "p < enqueue_pos (mq s)"
proof -
  have le: "p + 1 \<le> seq_at (mq s) p"
    using assms(1,2) by (auto simp: mpmc_inv_def threads_ok_def dest!: spec [of _ t])
  have c: "counts_ok s" "2 \<le> mpmc_size (mq s)"
    using assms(1) size_ge_2 by (auto simp: mpmc_inv_def counts_ok_def)
  obtain p' where p': "p' mod mpmc_size (mq s) = p mod mpmc_size (mq s)" "cell_free s p' \<or> cell_full s p'"
    using cell_cases [OF assms(1)] by blast
  note sq = same_cell_seq [OF p'(1)]
  have "p \<le> p'" "p' < p + mpmc_size (mq s)"
    using p'(2) le sq c(1) assms(3) by (auto simp: cell_free_def cell_full_def counts_ok_def)
  then have "p' = p" using mod_window [OF p'(1), of p] c(2) by simp
  then show "seq_at (mq s) p = p + 1" using p'(2) le by (auto simp: cell_free_def cell_full_def)
  then show "p < enqueue_pos (mq s)" using cell_is_full [OF assms(1)] by (simp add: cell_full_def)
qed

lemma pc_ok_mono:
  assumes "pc_ok q cl c" and "enqueue_pos q \<le> enqueue_pos q'" and "dequeue_pos q \<le> dequeue_pos q'"
    and "\<And>p. seq_at q p \<le> seq_at q' p"
    and "\<And>p. wpos c = Some p \<or> rpos c = Some p \<Longrightarrow> seq_at q' p = seq_at q p \<and> data_at q' p = data_at q p"
    and "\<And>p. p < enqueue_pos q \<Longrightarrow> cl' ! p = cl ! p" and "dequeue_pos q \<le> enqueue_pos q"
  shows "pc_ok q' cl' c"
  using assms(1-3,5-7) order_trans [OF _ assms(4)] by (cases c) (auto intro: order_trans)

lemma writing_step:
  assumes "mpmc_inv s" and "pcs s' = (pcs s)(t := c)"
  shows "writing s' p \<longleftrightarrow> wpos c = Some p \<or> (writing s p \<and> wpos (pcs s t) \<noteq> Some p)"
proof -
  have "wpos (pcs s t) = Some p \<Longrightarrow> wpos (pcs s t') = Some p \<Longrightarrow> t' = t" for t'
    using assms(1) by (simp add: mpmc_inv_def threads_ok_def)
  then show ?thesis unfolding writing_def assms(2) fun_upd_def by auto
qed

lemma reading_step:
  assumes "mpmc_inv s" and "pcs s' = (pcs s)(t := c)"
  shows "reading s' p \<longleftrightarrow> rpos c = Some p \<or> (reading s p \<and> rpos (pcs s t) \<noteq> Some p)"
proof -
  have "rpos (pcs s t) = Some p \<Longrightarrow> rpos (pcs s t') = Some p \<Longrightarrow> t' = t" for t'
    using assms(1) by (simp add: mpmc_inv_def threads_ok_def)
  then show ?thesis unfolding reading_def assms(2) fun_upd_def by auto
qed

lemma cells_step:
  assumes "mpmc_inv s" and "mpmc_size (mq s') = mpmc_size (mq s)"
    and "\<And>p. cell_free s p \<or> cell_full s p \<Longrightarrow>
      \<exists>p'. p' mod mpmc_size (mq s) = p mod mpmc_size (mq s) \<and> (cell_free s' p' \<or> cell_full s' p')"
  shows "cells_ok s'"
  using assms unfolding mpmc_inv_def cells_ok_def by metis

text \<open>The threads after a step of \<open>t\<close>, given that the others keep their knowledge and that \<open>t\<close> owns no
  cell of another thread.\<close>

lemma threads_step:
  assumes "mpmc_inv s" and "pcs s' = (pcs s)(t := c)" and "pc_ok (mq s') (claimed s') c"
    and "enqueue_pos (mq s) \<le> enqueue_pos (mq s')" and "dequeue_pos (mq s) \<le> dequeue_pos (mq s')"
    and "\<And>p. seq_at (mq s) p \<le> seq_at (mq s') p"
    and "\<And>t' p. t' \<noteq> t \<Longrightarrow> wpos (pcs s t') = Some p \<or> rpos (pcs s t') = Some p \<Longrightarrow>
        seq_at (mq s') p = seq_at (mq s) p \<and> data_at (mq s') p = data_at (mq s) p"
    and "\<And>p. p < enqueue_pos (mq s) \<Longrightarrow> claimed s' ! p = claimed s ! p"
    and "\<And>t' p. t' \<noteq> t \<Longrightarrow> wpos c = Some p \<Longrightarrow> wpos (pcs s t') \<noteq> Some p"
    and "\<And>t' p. t' \<noteq> t \<Longrightarrow> rpos c = Some p \<Longrightarrow> rpos (pcs s t') \<noteq> Some p"
  shows "threads_ok s'"
proof -
  have old: "pc_ok (mq s) (claimed s) (pcs s t')" for t' using assms(1) by (simp add: mpmc_inv_def threads_ok_def)
  have le: "dequeue_pos (mq s) \<le> enqueue_pos (mq s)" using assms(1) by (simp add: mpmc_inv_def counts_ok_def)
  have "pc_ok (mq s') (claimed s') (pcs s' t')" for t'
  proof (cases "t' = t")
    case False
    then show ?thesis using pc_ok_mono [OF old assms(4,5,6) assms(7) assms(8) le, of t'] assms(2) by simp
  qed (use assms(2,3) in simp)
  moreover have "\<forall>t1 t2 p. wpos (pcs s' t1) = Some p \<longrightarrow> wpos (pcs s' t2) = Some p \<longrightarrow> t1 = t2"
    using assms(1,2,9) unfolding mpmc_inv_def threads_ok_def by (simp add: fun_upd_def) metis
  moreover have "\<forall>t1 t2 p. rpos (pcs s' t1) = Some p \<longrightarrow> rpos (pcs s' t2) = Some p \<longrightarrow> t1 = t2"
    using assms(1,2,10) unfolding mpmc_inv_def threads_ok_def by (simp add: fun_upd_def) metis
  ultimately show ?thesis by (simp add: threads_ok_def)
qed

lemma other_writer:
  assumes "mpmc_inv s" and "t' \<noteq> t" and "wpos (pcs s t) = Some p" and "wpos (pcs s t') = Some p'"
  shows "p' mod mpmc_size (mq s) \<noteq> p mod mpmc_size (mq s)"
proof
  assume "p' mod mpmc_size (mq s) = p mod mpmc_size (mq s)"
  from same_cell_seq [OF this] have "p' = p" using writer_at [OF assms(1,3)] writer_at [OF assms(1,4)] by simp
  then show False using assms unfolding mpmc_inv_def threads_ok_def by metis
qed

lemma other_reader:
  assumes "mpmc_inv s" and "t' \<noteq> t" and "rpos (pcs s t) = Some p" and "rpos (pcs s t') = Some p'"
  shows "p' mod mpmc_size (mq s) \<noteq> p mod mpmc_size (mq s)"
proof
  assume "p' mod mpmc_size (mq s) = p mod mpmc_size (mq s)"
  from same_cell_seq [OF this] have "p' = p" using reader_at [OF assms(1,3)] reader_at [OF assms(1,4)] by simp
  then show False using assms unfolding mpmc_inv_def threads_ok_def by metis
qed

lemma free_full_apart:
  assumes "mpmc_inv s" and "seq_at (mq s) p = p" and "seq_at (mq s) p' = p' + 1"
  shows "p mod mpmc_size (mq s) \<noteq> p' mod mpmc_size (mq s)"
proof
  assume e: "p mod mpmc_size (mq s) = p' mod mpmc_size (mq s)"
  from same_cell_seq [OF this] have "p = p' + 1" using assms(2,3) by simp
  then show False using e not_suc_mod [of "mpmc_size (mq s)" p'] assms(1) size_ge_2
    by (auto simp: mpmc_inv_def counts_ok_def)
qed

lemma inv_enq_claim:
  assumes inv: "mpmc_inv s" and pc: "pcs s t = ECas x p" and e: "enqueue_pos (mq s) = p"
    and q: "mq s' = (mq s)\<lparr>enqueue_pos := p + 1\<rparr>" and pc': "pcs s' = (pcs s)(t := EStore x p)"
    and rest: "claimed s' = claimed s @ [x]" "returned s' = returned s"
  shows "mpmc_inv s'"
proof -
  note cl = claim_enq [OF inv pc e]
  have c: "mpmc_shape (mq s)" "dequeue_pos (mq s) \<le> p" "length (claimed s) = p"
    using inv e by (auto simp: mpmc_inv_def counts_ok_def)
  have w: "writing s' p' \<longleftrightarrow> p' = p \<or> writing s p'" and r: "reading s' p' \<longleftrightarrow> reading s p'" for p'
    using writing_step [OF inv pc'] reading_step [OF inv pc'] pc by auto
  have "cells_ok s'"
  proof (rule cells_step [OF inv])
    fix p' assume "cell_free s p' \<or> cell_full s p'"
    moreover have "cell_free s' p'" if "cell_free s p'"
      using that e by (auto simp: cell_free_def w q)
    moreover have "cell_full s' p'" if f: "cell_full s p'"
    proof -
      have "p \<noteq> p' + mpmc_size (mq s)"
        using free_full_apart [OF inv cl(1), of p'] f by (auto simp: cell_full_def)
      then show ?thesis using f e c(3) by (auto simp: cell_full_def r nth_append q rest)
    qed
    ultimately show "\<exists>p''. p'' mod mpmc_size (mq s) = p' mod mpmc_size (mq s) \<and> (cell_free s' p'' \<or> cell_full s' p'')"
      by blast
  qed (simp add: q)
  moreover have "counts_ok s'" using c cl by (simp add: counts_ok_def q rest)
  moreover have "returned_ok s'"
    using inv c e unfolding mpmc_inv_def returned_ok_def r by (fastforce simp: nth_append q rest)
  moreover have "threads_ok s'"
  proof (rule threads_step [OF inv pc'])
    show "wpos (pcs s t') \<noteq> Some p'" if "t' \<noteq> t" "wpos (EStore x p) = Some p'" for t' p'
      using that writer_at [OF inv, of t' p] e by auto
  qed (use cl c e in \<open>auto simp: nth_append q rest\<close>)
  ultimately show ?thesis by (simp add: mpmc_inv_def)
qed

lemma inv_enq_store:
  assumes inv: "mpmc_inv s" and pc: "pcs s t = EStore x p"
    and q: "mq s' = (mq s)\<lparr>cell_data := (cell_data (mq s))[cell_of (mq s) p := x]\<rparr>"
    and pc': "pcs s' = (pcs s)(t := EPublish x p)" and rest: "claimed s' = claimed s" "returned s' = returned s"
  shows "mpmc_inv s'"
proof -
  have sh: "mpmc_shape (mq s)" using inv by (simp add: mpmc_inv_def counts_ok_def)
  have own: "wpos (pcs s t) = Some p" using pc by simp
  note at = writer_at [OF inv own]
  have wp: "writing s p" using own by (auto simp: writing_def)
  have w: "writing s' p' \<longleftrightarrow> writing s p'" and r: "reading s' p' \<longleftrightarrow> reading s p'" for p'
    using writing_step [OF inv pc'] reading_step [OF inv pc'] pc wp by auto
  have d: "data_at (mq s') p' = data_at (mq s) p'" if "seq_at (mq s) p' = p' + 1" for p'
    using free_full_apart [OF inv _ that, of p] at by (simp add: data_at_store [OF sh] q)
  have "cell_free s' p' = cell_free s p'" "cell_full s p' \<Longrightarrow> cell_full s' p'" for p'
    using d [of p'] by (simp_all add: cell_free_def cell_full_def w r q rest)
  then have "cells_ok s'" by (intro cells_step [OF inv]) (auto simp: q)
  moreover have "counts_ok s'" "returned_ok s'"
    using inv unfolding mpmc_inv_def counts_ok_def returned_ok_def r by (simp_all add: q rest)
  moreover have "threads_ok s'"
  proof (rule threads_step [OF inv pc'])
    show "seq_at (mq s') p' = seq_at (mq s) p' \<and> data_at (mq s') p' = data_at (mq s) p'"
      if "t' \<noteq> t" "wpos (pcs s t') = Some p' \<or> rpos (pcs s t') = Some p'" for t' p'
      using that(2)
    proof
      assume "wpos (pcs s t') = Some p'"
      then show ?thesis using other_writer [OF inv that(1) own] by (simp add: data_at_store [OF sh] q)
    next
      assume "rpos (pcs s t') = Some p'"
      then show ?thesis using d [of p'] reader_at [OF inv, of t' p'] by (simp add: q)
    qed
    show "pc_ok (mq s') (claimed s') (EPublish x p)"
      using inv pc at by (auto simp: data_at_store [OF sh] mpmc_inv_def threads_ok_def q rest dest!: spec [of _ t])
    show "wpos (pcs s t') \<noteq> Some p'" if "t' \<noteq> t" "wpos (EPublish x p) = Some p'" for t' p'
      using other_writer [OF inv that(1) own, of p'] that(2) by auto
  qed (auto simp: q rest)
  ultimately show ?thesis by (simp add: mpmc_inv_def)
qed

lemma inv_enq_publish:
  assumes inv: "mpmc_inv s" and pc: "pcs s t = EPublish x p"
    and q: "mq s' = (mq s)\<lparr>cell_seq := (cell_seq (mq s))[cell_of (mq s) p := p + 1]\<rparr>"
    and pc': "pcs s' = (pcs s)(t := Idle)" and rest: "claimed s' = claimed s" "returned s' = returned s"
  shows "mpmc_inv s'"
proof -
  have sh: "mpmc_shape (mq s)" using inv by (simp add: mpmc_inv_def counts_ok_def)
  have own: "wpos (pcs s t) = Some p" using pc by simp
  note at = writer_at [OF inv own]
  have dat: "data_at (mq s) p = claimed s ! p"
    using inv pc by (auto simp: mpmc_inv_def threads_ok_def dest!: spec [of _ t])
  note fr = cell_is_free [OF inv conjunct2 [OF at]]
  have w: "writing s' p' \<longleftrightarrow> writing s p' \<and> p' \<noteq> p" and r: "reading s' p' \<longleftrightarrow> reading s p'" for p'
    using writing_step [OF inv pc'] reading_step [OF inv pc'] own pc by auto
  have sq: "seq_at (mq s') p' = (if p' mod mpmc_size (mq s) = p mod mpmc_size (mq s) then p + 1 else seq_at (mq s) p')" for p'
    by (simp add: q seq_at_store [OF sh])
  have qq: "enqueue_pos (mq s') = enqueue_pos (mq s)" "dequeue_pos (mq s') = dequeue_pos (mq s)"
    "mpmc_size (mq s') = mpmc_size (mq s)" "data_at (mq s') p' = data_at (mq s) p'" for p' by (simp_all add: q)
  have nr: "\<not> reading s p" using reader_at [OF inv, of _ p] at by (auto simp: reading_def)
  have full: "cell_full s' p"
    using fr at dat nr inv by (auto simp: cell_full_def cell_free_def sq r qq rest mpmc_inv_def counts_ok_def)
  have "cells_ok s'"
  proof (rule cells_step [OF inv])
    fix p' assume a: "cell_free s p' \<or> cell_full s p'"
    show "\<exists>p''. p'' mod mpmc_size (mq s) = p' mod mpmc_size (mq s) \<and> (cell_free s' p'' \<or> cell_full s' p'')"
    proof (cases "p' mod mpmc_size (mq s) = p mod mpmc_size (mq s)")
      case True
      then show ?thesis using full by metis
    next
      case False
      then have "cell_free s' p' \<or> cell_full s' p'"
        using a by (auto simp: cell_free_def cell_full_def sq w r qq rest)
      then show ?thesis by blast
    qed
  qed (simp add: q)
  moreover have "counts_ok s'" "returned_ok s'"
    using inv unfolding mpmc_inv_def counts_ok_def returned_ok_def r by (simp_all add: q rest)
  moreover have "threads_ok s'"
  proof (rule threads_step [OF inv pc'])
    show "seq_at (mq s) p' \<le> seq_at (mq s') p'" for p'
      using same_cell_seq [of p' "mq s" p] at by (simp add: sq)
    show "seq_at (mq s') p' = seq_at (mq s) p' \<and> data_at (mq s') p' = data_at (mq s) p'"
      if "t' \<noteq> t" "wpos (pcs s t') = Some p' \<or> rpos (pcs s t') = Some p'" for t' p'
      using that other_writer [OF inv that(1) own, of p'] reader_at [OF inv, of t' p']
        free_full_apart [OF inv, of p p'] at by (auto simp: sq qq)
  qed (auto simp: q rest)
  ultimately show ?thesis by (simp add: mpmc_inv_def)
qed

lemma inv_deq_claim:
  assumes inv: "mpmc_inv s" and pc: "pcs s t = DCas p" and e: "dequeue_pos (mq s) = p"
    and q: "mq s' = (mq s)\<lparr>dequeue_pos := p + 1\<rparr>" and pc': "pcs s' = (pcs s)(t := DFetch p)"
    and rest: "claimed s' = claimed s" "returned s' = returned s"
  shows "mpmc_inv s'"
proof -
  note cl = claim_deq [OF inv pc e]
  have c: "mpmc_shape (mq s)" "enqueue_pos (mq s) \<le> p + mpmc_size (mq s)" "length (claimed s) = enqueue_pos (mq s)"
    using inv e by (auto simp: mpmc_inv_def counts_ok_def)
  have w: "writing s' p' \<longleftrightarrow> writing s p'" and r: "reading s' p' \<longleftrightarrow> p' = p \<or> reading s p'" for p'
    using writing_step [OF inv pc'] reading_step [OF inv pc'] pc by auto
  have "cells_ok s'"
  proof (rule cells_step [OF inv])
    fix p' assume "cell_free s p' \<or> cell_full s p'"
    moreover have "cell_free s' p'" if f: "cell_free s p'"
    proof -
      have "p' \<noteq> p" using f cl(1) by (auto simp: cell_free_def)
      then show ?thesis using f e by (auto simp: cell_free_def w q)
    qed
    moreover have "cell_full s' p'" if f: "cell_full s p'"
      using f e by (auto simp: cell_full_def r q rest)
    ultimately show "\<exists>p''. p'' mod mpmc_size (mq s) = p' mod mpmc_size (mq s) \<and> (cell_free s' p'' \<or> cell_full s' p'')"
      by blast
  qed (simp add: q)
  moreover have "counts_ok s'" using c cl by (simp add: counts_ok_def q rest)
  moreover have "returned_ok s'"
    using inv e unfolding mpmc_inv_def returned_ok_def r by (auto simp: q rest less_Suc_eq)
  moreover have "threads_ok s'"
  proof (rule threads_step [OF inv pc'])
    show "rpos (pcs s t') \<noteq> Some p'" if "t' \<noteq> t" "rpos (DFetch p) = Some p'" for t' p'
      using that reader_at [OF inv, of t' p] e by auto
  qed (use cl c e in \<open>auto simp: q rest\<close>)
  ultimately show ?thesis by (simp add: mpmc_inv_def)
qed

lemma inv_deq_fetch:
  assumes inv: "mpmc_inv s" and pc: "pcs s t = DFetch p"
    and q: "mq s' = mq s" and pc': "pcs s' = (pcs s)(t := DFree p (data_at (mq s) p))"
    and rest: "claimed s' = claimed s" "returned s' = returned s"
  shows "mpmc_inv s'"
proof -
  have own: "rpos (pcs s t) = Some p" using pc by simp
  note at = reader_at [OF inv own]
  have rp: "reading s p" using own by (auto simp: reading_def)
  have w: "writing s' p' \<longleftrightarrow> writing s p'" and r: "reading s' p' \<longleftrightarrow> reading s p'" for p'
    using writing_step [OF inv pc'] reading_step [OF inv pc'] pc rp by auto
  have "cell_free s' p' = cell_free s p'" "cell_full s' p' = cell_full s p'" for p'
    by (simp_all add: cell_free_def cell_full_def w r q rest)
  then have "cells_ok s'" using inv by (simp add: mpmc_inv_def cells_ok_def q)
  moreover have "counts_ok s'" "returned_ok s'"
    using inv unfolding mpmc_inv_def counts_ok_def returned_ok_def r by (simp_all add: q rest)
  moreover have "threads_ok s'"
  proof (rule threads_step [OF inv pc'])
    show "pc_ok (mq s') (claimed s') (DFree p (data_at (mq s) p))"
      using at cell_is_full [OF inv conjunct2 [OF at]] by (simp add: q rest cell_full_def)
    show "rpos (pcs s t') \<noteq> Some p'" if "t' \<noteq> t" "rpos (DFree p (data_at (mq s) p)) = Some p'" for t' p'
      using other_reader [OF inv that(1) own, of p'] that(2) by auto
  qed (auto simp: q rest)
  ultimately show ?thesis by (simp add: mpmc_inv_def)
qed

lemma inv_deq_free:
  assumes inv: "mpmc_inv s" and pc: "pcs s t = DFree p x"
    and q: "mq s' = (mq s)\<lparr>cell_seq := (cell_seq (mq s))[cell_of (mq s) p := p + mpmc_size (mq s)]\<rparr>"
    and pc': "pcs s' = (pcs s)(t := Idle)" and rest: "claimed s' = claimed s" "returned s' = returned s @ [(p, x)]"
  shows "mpmc_inv s'"
proof -
  let ?n = "mpmc_size (mq s)"
  have c: "mpmc_shape (mq s)" "dequeue_pos (mq s) \<le> enqueue_pos (mq s)"
    using inv by (simp_all add: mpmc_inv_def counts_ok_def)
  have own: "rpos (pcs s t) = Some p" using pc by simp
  note at = reader_at [OF inv own]
  have x: "x = claimed s ! p"
    using inv pc by (auto simp: mpmc_inv_def threads_ok_def dest!: spec [of _ t])
  note fu = cell_is_full [OF inv conjunct2 [OF at]]
  have w: "writing s' p' \<longleftrightarrow> writing s p'" and r: "reading s' p' \<longleftrightarrow> reading s p' \<and> p' \<noteq> p" for p'
    using writing_step [OF inv pc'] reading_step [OF inv pc'] own pc by auto
  have rp: "reading s p" using own by (auto simp: reading_def)
  have sq: "seq_at (mq s') p' = (if p' mod ?n = p mod ?n then p + ?n else seq_at (mq s) p')" for p'
    by (simp add: q seq_at_store [OF c(1)])
  have qq: "enqueue_pos (mq s') = enqueue_pos (mq s)" "dequeue_pos (mq s') = dequeue_pos (mq s)"
    "mpmc_size (mq s') = mpmc_size (mq s)" "data_at (mq s') p' = data_at (mq s) p'" for p' by (simp_all add: q)
  have nw: "\<not> writing s (p + ?n)"
    using writer_at [OF inv, of _ "p + ?n"] fu by (auto simp: writing_def cell_full_def)
  have free: "cell_free s' (p + ?n)"
    using fu at c(2) nw by (auto simp: cell_full_def cell_free_def sq w qq)
  have "cells_ok s'"
  proof (rule cells_step [OF inv])
    fix p' assume a: "cell_free s p' \<or> cell_full s p'"
    show "\<exists>p''. p'' mod ?n = p' mod ?n \<and> (cell_free s' p'' \<or> cell_full s' p'')"
    proof (cases "p' mod ?n = p mod ?n")
      case True
      then have "(p + ?n) mod ?n = p' mod ?n" by simp
      then show ?thesis using free by blast
    next
      case False
      then have "cell_free s' p' \<or> cell_full s' p'"
        using a by (auto simp: cell_free_def cell_full_def sq w r qq rest)
      then show ?thesis by blast
    qed
  qed (simp add: q)
  moreover have "counts_ok s'"
    using inv unfolding mpmc_inv_def counts_ok_def by (simp add: q rest)
  moreover have "returned_ok s'"
    using inv rp at x unfolding mpmc_inv_def returned_ok_def r by (auto simp: q rest)
  moreover have "threads_ok s'"
  proof (rule threads_step [OF inv pc'])
    show "seq_at (mq s) p' \<le> seq_at (mq s') p'" for p'
      using same_cell_seq [of p' "mq s" p] at size_ge_2 [OF c(1)] by (simp add: sq)
    show "seq_at (mq s') p' = seq_at (mq s) p' \<and> data_at (mq s') p' = data_at (mq s) p'"
      if "t' \<noteq> t" "wpos (pcs s t') = Some p' \<or> rpos (pcs s t') = Some p'" for t' p'
      using that other_reader [OF inv that(1) own, of p'] writer_at [OF inv, of t' p']
        free_full_apart [OF inv, of p' p] at by (auto simp: sq qq)
  qed (auto simp: q rest)
  ultimately show ?thesis by (simp add: mpmc_inv_def)
qed

lemma inv_start:
  assumes "mpmc_bounded_queue d n = Some q"
  shows "mpmc_inv \<lparr>mq = q, pcs = (\<lambda>_. Idle), claimed = [], returned = []\<rparr>"
proof -
  have q: "q = \<lparr>cell_seq = [0..<n], cell_data = replicate n d, buffer_mask = n - 1, enqueue_pos = 0, dequeue_pos = 0\<rparr>"
    and n: "n \<ge> 2"
    using assms by (auto simp: mpmc_bounded_queue_eq split: if_splits)
  have "mpmc_shape q" "mpmc_size q = n" using new_ok [OF assms] by (simp_all add: mpmc_ok_def)
  moreover have "seq_at q p = p" if "p < n" for p
    using that n by (simp add: seq_at_def q mpmc_size_def)
  moreover have "enqueue_pos q = 0" "dequeue_pos q = 0" by (simp_all add: q)
  moreover have "\<exists>p. p mod n = i \<and> p < n" if "i < n" for i using that by (intro exI [of _ i]) simp
  ultimately show ?thesis
    by (fastforce simp: mpmc_inv_def counts_ok_def cells_ok_def threads_ok_def returned_ok_def cell_free_def writing_def)
qed

lemma mpmc_invariant: "mpmc_reachable n s \<Longrightarrow> mpmc_inv s \<and> mpmc_size (mq s) = n"
proof (induction rule: mpmc_reachable.induct)
  case (start d q)
  then show ?case using inv_start new_ok by fastforce
next
  case (step s s')
  then have inv: "mpmc_inv s" and sh: "mpmc_shape (mq s)" by (simp_all add: mpmc_inv_def counts_ok_def)
  note at = cell_of_at [OF sh]
  have pcok: "pc_ok (mq s) (claimed s) (pcs s t)" for t using inv by (simp add: mpmc_inv_def threads_ok_def)
  have "mpmc_inv s'"
    using step.hyps(2)
  proof (cases rule: mpmc_step.cases)
    case (enq_claim t x pos)
    then show ?thesis using inv_enq_claim [OF inv, of t x pos s'] by (simp add: goto_def)
  next
    case (enq_store t x pos)
    then show ?thesis using inv_enq_store [OF inv, of t x pos s'] by (simp add: goto_def)
  next
    case (enq_publish t x pos)
    then show ?thesis using inv_enq_publish [OF inv, of t x pos s'] by (simp add: goto_def)
  next
    case (deq_claim t pos)
    then show ?thesis using inv_deq_claim [OF inv, of t pos s'] by (simp add: goto_def)
  next
    case (deq_fetch t pos)
    then show ?thesis using inv_deq_fetch [OF inv, of t pos s'] at [of pos] by (simp add: goto_def)
  next
    case (deq_free t pos x)
    then show ?thesis using inv_deq_free [OF inv, of t pos x s'] by (simp add: goto_def mpmc_size_def)
  next
    case (enq_free t x pos)
    then show ?thesis using pcok [of t] at [of pos] by (auto intro!: inv_goto [OF inv])
  next
    case (deq_there t pos)
    then show ?thesis using pcok [of t] at [of pos] by (auto intro!: inv_goto [OF inv])
  qed (auto intro!: inv_goto [OF inv])
  moreover have "mpmc_size (mq s') = mpmc_size (mq s)"
    using step.hyps(2) by (cases rule: mpmc_step.cases) simp_all
  ultimately show ?case using step by simp
qed

section \<open>The properties of the queue\<close>

text \<open>C2: For any number of threads and any interleaving of their memory accesses, no element of the queue is lost,
  duplicated or altered: each \<open>dequeue\<close> that returned gave the element that was enqueued at its
  position, no position was returned twice, every position claimed by a reader has been returned or
  is still owned by a running \<open>dequeue\<close>, and at most \<open>n\<close> more elements have been accepted than taken. When no thread is inside an operation, the elements handed out are exactly the
  first ones accepted.\<close>

theorem mpmc_no_loss_no_duplicate:
  assumes "mpmc_reachable n s"
  shows "distinct (map fst (returned s))
    \<and> (\<forall>(p, x) \<in> set (returned s). p < dequeue_pos (mq s) \<and> p < length (claimed s) \<and> x = claimed s ! p)
    \<and> (\<forall>p < dequeue_pos (mq s). p \<in> fst ` set (returned s)
         \<or> (\<exists>t x. pcs s t = DFetch p \<or> pcs s t = DFree p x))
    \<and> dequeue_pos (mq s) \<le> length (claimed s) \<and> length (claimed s) \<le> dequeue_pos (mq s) + n
    \<and> ((\<forall>t. pcs s t = Idle) \<longrightarrow> mset (map snd (returned s)) = mset (take (dequeue_pos (mq s)) (claimed s)))"
proof -
  have inv: "mpmc_inv s" and n: "mpmc_size (mq s) = n" using mpmc_invariant [OF assms] by simp_all
  have c: "dequeue_pos (mq s) \<le> length (claimed s)" "length (claimed s) \<le> dequeue_pos (mq s) + n"
    using inv n by (auto simp: mpmc_inv_def counts_ok_def)
  have r: "distinct (map fst (returned s))"
    "\<And>p x. (p, x) \<in> set (returned s) \<Longrightarrow> p < dequeue_pos (mq s) \<and> x = claimed s ! p"
    "\<And>p. p < dequeue_pos (mq s) \<Longrightarrow> p \<in> fst ` set (returned s) \<or> reading s p"
    using inv by (auto simp: mpmc_inv_def returned_ok_def)
  have rd: "\<exists>t x. pcs s t = DFetch p \<or> pcs s t = DFree p x" if rp: "reading s p" for p
  proof -
    obtain t where "rpos (pcs s t) = Some p" using rp by (auto simp: reading_def)
    then show ?thesis by (cases "pcs s t") auto
  qed
  have "mset (map snd (returned s)) = mset (take (dequeue_pos (mq s)) (claimed s))" if idle: "\<forall>t. pcs s t = Idle"
  proof -
    have "\<not> reading s p" for p using idle by (simp add: reading_def)
    then have "fst ` set (returned s) = {..<dequeue_pos (mq s)}" using r(2,3) by force
    then have m: "mset (map fst (returned s)) = mset [0..<dequeue_pos (mq s)]"
      using r(1) by (intro set_eq_iff_mset_eq_distinct [THEN iffD1]) auto
    have "map snd (returned s) = map (\<lambda>p. claimed s ! p) (map fst (returned s))"
      using r(2) by auto
    then have "mset (map snd (returned s)) = image_mset (\<lambda>p. claimed s ! p) (mset (map fst (returned s)))"
      by (simp only: mset_map)
    also have "\<dots> = mset (map (\<lambda>p. claimed s ! p) [0..<dequeue_pos (mq s)])" unfolding m by (simp only: mset_map)
    also have "map (\<lambda>p. claimed s ! p) [0..<dequeue_pos (mq s)] = take (dequeue_pos (mq s)) (claimed s)"
      using c(1) by (simp add: list_eq_iff_nth_eq)
    finally show ?thesis .
  qed
  then show ?thesis using r c rd by fastforce
qed

lemma mpmc_run_witness:
  "\<exists>s. mpmc_reachable 2 s \<and> returned s = [(0, 7 :: nat)] \<and> claimed s = [7] \<and> dequeue_pos (mq s) = 1
     \<and> (\<forall>t. pcs s t = Idle)"
proof -
  let ?q = "\<lambda>sq (d :: nat list) e p. \<lparr>cell_seq = sq, cell_data = d, buffer_mask = 1, enqueue_pos = e, dequeue_pos = p\<rparr>"
  let ?s = "\<lambda>q c cl r. \<lparr>mq = q, pcs = (\<lambda>_. Idle)(1 := c), claimed = cl, returned = r\<rparr>"
  have "mpmc_reachable 2 (?s (?q [0, 1] [0, 0] 0 0) Idle [] [])"
    using mpmc_reachable.start [of 0 2 "?q [0, 1] [0, 0] 0 0"]
    by (simp add: mpmc_bounded_queue_def numeral_2_eq_2 fun_upd_idem)
  from mpmc_reachable.step [OF this mpmc_step.enq_call [of _ 1 7]]
  have "mpmc_reachable 2 (?s (?q [0, 1] [0, 0] 0 0) (ELoaded 7 0) [] [])" by (simp add: goto_def)
  from mpmc_reachable.step [OF this mpmc_step.enq_free [of _ 1 7 0]]
  have "mpmc_reachable 2 (?s (?q [0, 1] [0, 0] 0 0) (ECas 7 0) [] [])" by (simp add: goto_def cell_of_def)
  from mpmc_reachable.step [OF this mpmc_step.enq_claim [of _ 1 7 0]]
  have "mpmc_reachable 2 (?s (?q [0, 1] [0, 0] 1 0) (EStore 7 0) [7] [])" by (simp add: goto_def)
  from mpmc_reachable.step [OF this mpmc_step.enq_store [of _ 1 7 0]]
  have "mpmc_reachable 2 (?s (?q [0, 1] [7, 0] 1 0) (EPublish 7 0) [7] [])" by (simp add: goto_def cell_of_def)
  from mpmc_reachable.step [OF this mpmc_step.enq_publish [of _ 1 7 0]]
  have "mpmc_reachable 2 (?s (?q [1, 1] [7, 0] 1 0) Idle [7] [])" by (simp add: goto_def cell_of_def)
  from mpmc_reachable.step [OF this mpmc_step.deq_call [of _ 1]]
  have "mpmc_reachable 2 (?s (?q [1, 1] [7, 0] 1 0) (DLoaded 0) [7] [])" by (simp add: goto_def)
  from mpmc_reachable.step [OF this mpmc_step.deq_there [of _ 1 0]]
  have "mpmc_reachable 2 (?s (?q [1, 1] [7, 0] 1 0) (DCas 0) [7] [])" by (simp add: goto_def cell_of_def)
  from mpmc_reachable.step [OF this mpmc_step.deq_claim [of _ 1 0]]
  have "mpmc_reachable 2 (?s (?q [1, 1] [7, 0] 1 1) (DFetch 0) [7] [])" by (simp add: goto_def)
  from mpmc_reachable.step [OF this mpmc_step.deq_fetch [of _ 1 0]]
  have "mpmc_reachable 2 (?s (?q [1, 1] [7, 0] 1 1) (DFree 0 7) [7] [])" by (simp add: goto_def cell_of_def)
  from mpmc_reachable.step [OF this mpmc_step.deq_free [of _ 1 0 7]]
  have "mpmc_reachable 2 (?s (?q [2, 1] [7, 0] 1 1) Idle [7] [(0, 7)])"
    by (simp add: goto_def cell_of_def numeral_2_eq_2)
  then show ?thesis by fastforce
qed

theorem mpmc_no_loss_no_duplicate_witness:
  "\<exists>s. mpmc_reachable 2 s \<and> returned s = [(0, 7 :: nat)]
     \<and> mset (map snd (returned s)) = mset (take (dequeue_pos (mq s)) (claimed s))"
  using mpmc_run_witness mpmc_no_loss_no_duplicate by metis

lemma mpmc_enqueue_list:
  assumes "mpmc_ok q"
  shows "\<exists>q1. mpmc_enqueue q x = Some (length (mpmc_items q) < mpmc_size q, q1) \<and> mpmc_ok q1
      \<and> mpmc_size q1 = mpmc_size q
      \<and> mpmc_items q1 = (if length (mpmc_items q) < mpmc_size q then mpmc_items q @ [x] else mpmc_items q)"
proof (cases "length (mpmc_items q) = mpmc_size q")
  case True
  then show ?thesis using enqueue_run [OF assms] assms by (simp add: mpmc_enqueue_def)
next
  case False
  have "length (mpmc_items q) \<le> mpmc_size q" using assms by (auto simp: mpmc_items_def mpmc_ok_def)
  then have lt: "length (mpmc_items q) < mpmc_size q" using False by simp
  show ?thesis using enqueue_run [OF assms] enqueue_ok [OF assms False refl, of x] False
    by (simp add: mpmc_enqueue_def lt)
qed

lemma mpmc_dequeue_list:
  assumes "mpmc_ok q"
  shows "\<exists>q2. mpmc_dequeue q = Some (if mpmc_items q = [] then None else Some (hd (mpmc_items q)), q2) \<and> mpmc_ok q2
      \<and> mpmc_size q2 = mpmc_size q \<and> mpmc_items q2 = tl (mpmc_items q)"
proof (cases "mpmc_items q = []")
  case True
  then show ?thesis using dequeue_run [OF assms] assms by (simp add: mpmc_dequeue_def)
next
  case False
  show ?thesis using dequeue_run [OF assms] dequeue_ok [OF assms False refl] False
    by (simp add: mpmc_dequeue_def)
qed

text \<open>C5: Used by one thread the queue is a bounded first-in-first-out list, and its retry loops end: in every
  state that the constructor and the operations produce, \<open>enqueue\<close> returns; it appends its element unless the queue
  holds as many as it has cells, when it returns false and changes nothing; \<open>dequeue\<close> returns and
  removes the first element, or returns false on the empty queue.\<close>

theorem mpmc_refines_list:
  assumes "mpmc_ok q"
  shows "(\<exists>q1. mpmc_enqueue q x = Some (length (mpmc_items q) < mpmc_size q, q1) \<and> mpmc_ok q1
      \<and> mpmc_size q1 = mpmc_size q
      \<and> mpmc_items q1 = (if length (mpmc_items q) < mpmc_size q then mpmc_items q @ [x] else mpmc_items q))
    \<and> (\<exists>q2. mpmc_dequeue q = Some (if mpmc_items q = [] then None else Some (hd (mpmc_items q)), q2) \<and> mpmc_ok q2
      \<and> mpmc_size q2 = mpmc_size q \<and> mpmc_items q2 = tl (mpmc_items q))
    \<and> (mpmc_bounded_queue d n = None \<longleftrightarrow> n < 2 \<or> (\<forall>k. n \<noteq> 2 ^ k))
    \<and> (\<forall>q0. mpmc_bounded_queue d n = Some q0 \<longrightarrow> mpmc_ok q0 \<and> mpmc_items q0 = [] \<and> mpmc_size q0 = n)"
  using mpmc_enqueue_list [OF assms, of x] mpmc_dequeue_list [OF assms]
proof (intro conjI)
  show "mpmc_bounded_queue d n = None \<longleftrightarrow> n < 2 \<or> (\<forall>k. n \<noteq> 2 ^ k)"
    by (auto simp: mpmc_bounded_queue_eq)
  show "\<forall>q0. mpmc_bounded_queue d n = Some q0 \<longrightarrow> mpmc_ok q0 \<and> mpmc_items q0 = [] \<and> mpmc_size q0 = n"
    using new_ok [of d n] by blast
qed

theorem mpmc_refines_list_witness:
  "\<exists>q q1 q2. mpmc_bounded_queue 0 2 = Some q \<and> mpmc_enqueue q (5 :: nat) = Some (True, q1) \<and> mpmc_items q1 = [5]
     \<and> mpmc_dequeue q = Some (None, q2)"
proof -
  obtain q where q: "mpmc_bounded_queue (0 :: nat) 2 = Some q" by (simp add: mpmc_bounded_queue_def)
  have ok: "mpmc_ok q" "mpmc_items q = []" "mpmc_size q = 2" using new_ok [OF q] by simp_all
  show ?thesis using mpmc_refines_list [OF ok(1), of 5 0 2] q ok by auto
qed

end
