(* ===== verification/FmtWriter.thy ===== *)
theory FmtWriter
  imports Prelude "HOL-Library.Monad_Syntax"
begin

unbundle bit_operations_syntax

text \<open>
  The writer of the formatting library bundled with spdlog (\<open>src/common/spdlog/include/details/format.h\<close>
  and \<open>format.cc\<close>), as far as the logger uses it: the growing buffer, decimal, hexadecimal, octal and
  binary integers with padding, and strings.

  A writer is the characters written so far; a new area is appended by \<open>grow_buffer\<close> with unknown
  contents (\<open>junk\<close>) and filled through pointers, which are indices here. A write outside the
  buffer is the error \<open>Overrun\<close>. Absolute values are natural numbers below \<open>2\<^sup>6\<^sup>4\<close>: their
  arithmetic does not overflow, except for the negation in \<open>abs_value\<close>, which is on words.
  \<open>MemoryBuffer\<close> is modelled separately with its capacity and its inline storage.
\<close>

datatype fmt_error = FormatError string | Overrun

section \<open>Counting and writing decimal digits\<close>

definition DIGITS :: string where
  "DIGITS =
    ''0001020304050607080910111213141516171819''
    @ ''2021222324252627282930313233343536373839''
    @ ''4041424344454647484950515253545556575859''
    @ ''6061626364656667686970717273747576777879''
    @ ''8081828384858687888990919293949596979899''"

definition FMT_POWERS_OF_10 :: "nat \<Rightarrow> nat list" where
  "FMT_POWERS_OF_10 factor =
     [factor * 10, factor * 100, factor * 1000, factor * 10000, factor * 100000, factor * 1000000,
      factor * 10000000, factor * 100000000, factor * 1000000000]"

definition POWERS_OF_10_32 :: "nat list" where
  "POWERS_OF_10_32 = 0 # FMT_POWERS_OF_10 1"

definition POWERS_OF_10_64 :: "nat list" where
  "POWERS_OF_10_64 =
     0 # FMT_POWERS_OF_10 1 @ FMT_POWERS_OF_10 1000000000 @ [1000000000 * 1000000000 * 10]"

text \<open>\<open>64 - __builtin_clzll(n)\<close>, and the same for 32 bits: the number of significant bits of \<open>n > 0\<close>.\<close>

fun bit_length :: "nat \<Rightarrow> nat" where
  "bit_length n = (if n = 0 then 0 else 1 + bit_length (n div 2))"

declare bit_length.simps [simp del]

definition count_digits_64 :: "nat \<Rightarrow> nat" where
  "count_digits_64 n =
     (let t = bit_length (n OR 1) * 1233 div 2 ^ 12
      in t - (if n < POWERS_OF_10_64 ! t then 1 else 0) + 1)"

definition count_digits_32 :: "nat \<Rightarrow> nat" where
  "count_digits_32 n =
     (let t = bit_length (n OR 1) * 1233 div 2 ^ 12
      in t - (if n < POWERS_OF_10_32 ! t then 1 else 0) + 1)"

text \<open>The variant for compilers without the builtin.\<close>

fun count_digits_loop :: "nat \<Rightarrow> nat \<Rightarrow> nat" where
  "count_digits_loop count n =
     (if n < 10 then count
      else if n < 100 then count + 1
      else if n < 1000 then count + 2
      else if n < 10000 then count + 3
      else count_digits_loop (count + 4) (n div 10000))"

declare count_digits_loop.simps [simp del]

definition count_digits_fallback :: "nat \<Rightarrow> nat" where
  "count_digits_fallback n = count_digits_loop 1 n"

text \<open>\<open>*--buffer = c\<close>.\<close>

definition put_back :: "char list \<times> nat \<Rightarrow> char \<Rightarrow> (char list \<times> nat) option" where
  "put_back mb c =
     (let (mem, b) = mb in if 0 < b \<and> b \<le> length mem then Some (mem[b - 1 := c], b - 1) else None)"

fun format_decimal_loop :: "char list \<times> nat \<Rightarrow> nat \<Rightarrow> (char list \<times> nat) option" where
  "format_decimal_loop mb value =
     (if value \<ge> 100
      then let index = value mod 100 * 2
           in do {
             mb1 \<leftarrow> put_back mb (DIGITS ! (index + 1));
             mb2 \<leftarrow> put_back mb1 (DIGITS ! index);
             format_decimal_loop mb2 (value div 100)
           }
      else if value < 10 then put_back mb (char_of (48 + value))
      else let index = value * 2
           in do {
             mb1 \<leftarrow> put_back mb (DIGITS ! (index + 1));
             put_back mb1 (DIGITS ! index)
           })"

declare format_decimal_loop.simps [simp del]

definition format_decimal :: "char list \<Rightarrow> nat \<Rightarrow> nat \<Rightarrow> nat \<Rightarrow> char list option" where
  "format_decimal mem buffer value num_digits =
     map_option fst (format_decimal_loop (mem, buffer + num_digits) value)"

section \<open>Specifications\<close>

datatype alignment = ALIGN_DEFAULT | ALIGN_LEFT | ALIGN_RIGHT | ALIGN_CENTER | ALIGN_NUMERIC

definition SIGN_FLAG :: u32 where "SIGN_FLAG = 1"
definition PLUS_FLAG :: u32 where "PLUS_FLAG = 2"
definition MINUS_FLAG :: u32 where "MINUS_FLAG = 4"
definition HASH_FLAG :: u32 where "HASH_FLAG = 8"
definition CHAR_FLAG :: u32 where "CHAR_FLAG = 0x10"

text \<open>A full specification; the type of an unspecified presentation is the character 0.\<close>

record format_spec =
  width :: nat
  fill :: char
  align :: alignment
  flags :: u32
  precision :: int
  type_code :: char

definition FormatSpec :: "nat \<Rightarrow> char \<Rightarrow> char \<Rightarrow> format_spec" where
  "FormatSpec w ty f =
     \<lparr>width = w, fill = f, align = ALIGN_DEFAULT, flags = 0, precision = - 1, type_code = ty\<rparr>"

text \<open>\<open>AlignSpec\<close>, \<open>AlignTypeSpec\<close> (no flags, no precision) and \<open>TypeSpec\<close> as full specifications.\<close>

definition AlignSpec :: "nat \<Rightarrow> char \<Rightarrow> alignment \<Rightarrow> format_spec" where
  "AlignSpec w f al =
     \<lparr>width = w, fill = f, align = al, flags = 0, precision = - 1, type_code = CHR 0x00\<rparr>"

definition TypeSpec :: "char \<Rightarrow> format_spec" where
  "TypeSpec ty =
     \<lparr>width = 0, fill = CHR '' '', align = ALIGN_DEFAULT, flags = 0, precision = - 1, type_code = ty\<rparr>"

definition spec_flag :: "format_spec \<Rightarrow> u32 \<Rightarrow> bool" where
  "spec_flag spec f \<longleftrightarrow> flags spec AND f \<noteq> 0"

section \<open>The writer\<close>

text \<open>\<open>grow_buffer\<close> returns the grown buffer and the index of the new area.\<close>

definition grow_buffer :: "char \<Rightarrow> nat \<Rightarrow> char list \<Rightarrow> char list \<times> nat" where
  "grow_buffer junk n w = (w @ replicate n junk, length w)"

text \<open>\<open>std::uninitialized_copy\<close> of \<open>s\<close> to the index \<open>p\<close>, and \<open>std::uninitialized_fill\<close> from \<open>p\<close> to \<open>e\<close>.\<close>

definition copy_to :: "char list \<Rightarrow> nat \<Rightarrow> char list \<Rightarrow> char list" where
  "copy_to s p w = take p w @ s @ drop (p + length s) w"

definition fill_to :: "nat \<Rightarrow> nat \<Rightarrow> char \<Rightarrow> char list \<Rightarrow> char list" where
  "fill_to p e c w = copy_to (replicate (e - p) c) p w"

definition fill_padding :: "nat \<Rightarrow> nat \<Rightarrow> nat \<Rightarrow> char \<Rightarrow> char list \<Rightarrow> char list \<times> nat" where
  "fill_padding buffer total_size content_size f w =
     (let padding = total_size - content_size;
          left_padding = padding div 2;
          w1 = fill_to buffer (buffer + left_padding) f w;
          content = buffer + left_padding;
          w2 = fill_to (content + content_size) (content + content_size + (padding - left_padding)) f w1
      in (w2, content))"

text \<open>The second part of \<open>prepare_int_buffer\<close>, for a precision that does not matter: the buffer and the
  index of the last digit.\<close>

definition prepare_plain :: "char \<Rightarrow> nat \<Rightarrow> format_spec \<Rightarrow> string \<Rightarrow> char list \<Rightarrow> char list \<times> nat" where
  "prepare_plain junk num_digits spec prefix w =
     (let prefix_size = length prefix; size = prefix_size + num_digits
      in if width spec \<le> size
         then let (w1, p) = grow_buffer junk size w in (copy_to prefix p w1, p + size - 1)
         else
           let (w1, p) = grow_buffer junk (width spec) w; e = p + width spec
           in if align spec = ALIGN_LEFT
              then (fill_to (p + size) e (fill spec) (copy_to prefix p w1), p + size - 1)
              else if align spec = ALIGN_CENTER
              then let (w2, p2) = fill_padding p (width spec) size (fill spec) w1
                   in (copy_to prefix p2 w2, p2 + size - 1)
              else if align spec = ALIGN_NUMERIC
              then (if prefix_size \<noteq> 0
                    then (fill_to (p + prefix_size) (e - num_digits) (fill spec) (copy_to prefix p w1), e - 1)
                    else (fill_to p (e - size) (fill spec) w1, e - 1))
              else (fill_to p (e - size) (fill spec) (copy_to prefix (e - size) w1), e - 1))"

definition prepare_int_buffer :: "char \<Rightarrow> nat \<Rightarrow> format_spec \<Rightarrow> string \<Rightarrow> char list \<Rightarrow> char list \<times> nat" where
  "prepare_int_buffer junk num_digits spec prefix0 w =
     (if precision spec > int num_digits
      then
        let prefix = (if prefix0 \<noteq> [] \<and> last prefix0 = CHR ''0'' then butlast prefix0 else prefix0);
            number_size = length prefix + nat (precision spec);
            subspec = AlignSpec number_size (CHR ''0'') ALIGN_NUMERIC
        in if number_size \<ge> width spec then prepare_plain junk num_digits subspec prefix w
           else
             let fill_size = width spec - number_size;
                 w1 = (if align spec \<noteq> ALIGN_LEFT
                       then let (v, p) = grow_buffer junk fill_size w in fill_to p (p + fill_size) (fill spec) v
                       else w);
                 (w2, result) = prepare_plain junk num_digits subspec prefix w1;
                 w3 = (if align spec = ALIGN_LEFT
                       then let (v, p) = grow_buffer junk fill_size w2 in fill_to p (p + fill_size) (fill spec) v
                       else w2)
             in (w3, result)
      else prepare_plain junk num_digits spec prefix0 w)"

text \<open>The other bases: the number of digits, a \<open>do\<close> loop over groups of \<open>k\<close> bits (4, 1 or 3), and the
  digits written backwards, ending with the one at index \<open>p1 - 1\<close>.\<close>

lemma shifted_less [simp]: "\<not> (k = 0 \<or> n div 2 ^ k = 0) \<Longrightarrow> n div 2 ^ k < (n :: nat)"
  by (metis One_nat_def div_less_dividend div_0 gr0I lessI numeral_2_eq_2 one_less_power)

function count_base :: "nat \<Rightarrow> nat \<Rightarrow> nat" where
  "count_base k n = (if k = 0 \<or> n div 2 ^ k = 0 then 1 else 1 + count_base k (n div 2 ^ k))"
  by pat_completeness auto
termination by (relation "measure snd") (auto intro!: shifted_less)

declare count_base.simps [simp del]

function put_base :: "string \<Rightarrow> nat \<Rightarrow> char list \<Rightarrow> nat \<Rightarrow> nat \<Rightarrow> char list option" where
  "put_base digits k w p1 n =
     (if 0 < p1 \<and> p1 \<le> length w
      then let w' = w[p1 - 1 := digits ! (n mod 2 ^ k)]
           in if k = 0 \<or> n div 2 ^ k = 0 then Some w' else put_base digits k w' (p1 - 1) (n div 2 ^ k)
      else None)"
  by pat_completeness auto
termination by (relation "measure (\<lambda>(digits, k, w, p1, n). p1)") auto

declare put_base.simps [simp del]

text \<open>The notation of a number in the base \<open>2 ^ k\<close>.\<close>

function base_digits :: "string \<Rightarrow> nat \<Rightarrow> nat \<Rightarrow> string" where
  "base_digits digits k n =
     (if k = 0 \<or> n div 2 ^ k = 0 then [digits ! (n mod 2 ^ k)]
      else base_digits digits k (n div 2 ^ k) @ [digits ! (n mod 2 ^ k)])"
  by pat_completeness auto
termination by (relation "measure (\<lambda>(digits, k, n). n)") (auto intro!: shifted_less)

declare base_digits.simps [simp del]

definition hex_lower :: string where "hex_lower = ''0123456789abcdef''"
definition hex_upper :: string where "hex_upper = ''0123456789ABCDEF''"

text \<open>The absolute value of a signed or unsigned machine integer, and whether it is negative.\<close>

definition is_negative :: "bool \<Rightarrow> 'a::len word \<Rightarrow> bool" where
  "is_negative is_signed v \<longleftrightarrow> is_signed \<and> sint v < 0"

definition abs_value :: "bool \<Rightarrow> 'a::len word \<Rightarrow> nat" where
  "abs_value is_signed v = (if is_negative is_signed v then unat (0 - v) else unat v)"

definition of_overrun :: "'b option \<Rightarrow> fmt_error + 'b" where
  "of_overrun r = (case r of None \<Rightarrow> Inl Overrun | Some x \<Rightarrow> Inr x)"

text \<open>One of the bases 16, 2 and 8.\<close>

definition write_base :: "char \<Rightarrow> nat \<Rightarrow> format_spec \<Rightarrow> string \<Rightarrow> string \<Rightarrow> nat \<Rightarrow> char list \<Rightarrow> fmt_error + char list" where
  "write_base junk k spec prefix digits n w =
     (let (w1, p) = prepare_int_buffer junk (count_base k n) spec prefix w
      in of_overrun (put_base digits k w1 (p + 1) n))"

text \<open>\<open>report_unknown_type\<close> throws; a character that is not printable is shown as two or more
  hexadecimal digits of its conversion from (signed) \<open>char\<close> to \<open>unsigned\<close>.\<close>

definition isprint :: "char \<Rightarrow> bool" where
  "isprint c \<longleftrightarrow> 32 \<le> (of_char c :: nat) \<and> (of_char c :: nat) \<le> 126"

definition report_unknown_type :: "char \<Rightarrow> string \<Rightarrow> fmt_error" where
  "report_unknown_type code type =
     (if isprint code
      then FormatError (''unknown format code '' @ [CHR 0x27, code, CHR 0x27] @ '' for '' @ type)
      else
        let h = base_digits hex_lower 4 (unat (scast (of_char code :: u8) :: u32))
        in FormatError (''unknown format code '' @ [CHR 0x27, CHR 0x5C, CHR ''x'']
             @ replicate (2 - length h) (CHR ''0'') @ h @ [CHR 0x27] @ '' for '' @ type))"

text \<open>\<open>count\<close> is the overload of \<open>count_digits\<close> for the type of the value.\<close>

definition write_int ::
  "char \<Rightarrow> (nat \<Rightarrow> nat) \<Rightarrow> bool \<Rightarrow> 'a::len word \<Rightarrow> format_spec \<Rightarrow> char list \<Rightarrow> fmt_error + char list" where
  "write_int junk count is_signed value spec w =
     (let n = abs_value is_signed value;
          prefix = (if is_negative is_signed value then ''-''
                    else if spec_flag spec SIGN_FLAG
                    then (if spec_flag spec PLUS_FLAG then ''+'' else '' '')
                    else []);
          ty = type_code spec;
          hash = spec_flag spec HASH_FLAG
      in if ty = CHR 0x00 \<or> ty = CHR ''d''
         then let num_digits = count n;
                  (w1, p) = prepare_int_buffer junk num_digits spec prefix w
              in of_overrun (format_decimal w1 (p + 1 - num_digits) n num_digits)
         else if ty = CHR ''x'' \<or> ty = CHR ''X''
         then write_base junk 4 spec (if hash then prefix @ [CHR ''0'', ty] else prefix)
                (if ty = CHR ''x'' then hex_lower else hex_upper) n w
         else if ty = CHR ''b'' \<or> ty = CHR ''B''
         then write_base junk 1 spec (if hash then prefix @ [CHR ''0'', ty] else prefix) hex_lower n w
         else if ty = CHR ''o''
         then write_base junk 3 spec (if hash then prefix @ [CHR ''0''] else prefix) hex_lower n w
         else Inl (report_unknown_type ty (if spec_flag spec CHAR_FLAG then ''char'' else ''integer'')))"

definition write_unsigned_decimal ::
  "char \<Rightarrow> (nat \<Rightarrow> nat) \<Rightarrow> nat \<Rightarrow> nat \<Rightarrow> char list \<Rightarrow> (char list \<times> nat) option" where
  "write_unsigned_decimal junk count value prefix_size w =
     (let num_digits = count value;
          (w1, ptr) = grow_buffer junk (prefix_size + num_digits) w
      in map_option (\<lambda>w2. (w2, ptr)) (format_decimal w1 (ptr + prefix_size) value num_digits))"

definition write_decimal :: "char \<Rightarrow> (nat \<Rightarrow> nat) \<Rightarrow> bool \<Rightarrow> 'a::len word \<Rightarrow> char list \<Rightarrow> char list option" where
  "write_decimal junk count is_signed value w =
     (if is_negative is_signed value
      then do {
        (w1, ptr) \<leftarrow> write_unsigned_decimal junk count (abs_value is_signed value) 1 w;
        Some (w1[ptr := CHR ''-''])
      }
      else map_option fst (write_unsigned_decimal junk count (abs_value is_signed value) 0 w))"

text \<open>\<open>write_str\<close> with a size and an alignment.\<close>

definition write_str :: "char \<Rightarrow> string \<Rightarrow> format_spec \<Rightarrow> char list \<Rightarrow> char list" where
  "write_str junk s spec w =
     (let size = length s
      in if width spec > size
         then
           let (w1, out) = grow_buffer junk (width spec) w
           in if align spec = ALIGN_RIGHT
              then copy_to s (out + (width spec - size)) (fill_to out (out + (width spec - size)) (fill spec) w1)
              else if align spec = ALIGN_CENTER
              then let (w2, c) = fill_padding out (width spec) size (fill spec) w1 in copy_to s c w2
              else copy_to s out (fill_to (out + size) (out + size + (width spec - size)) (fill spec) w1)
         else let (w1, out) = grow_buffer junk size w in copy_to s out w1)"

text \<open>\<open>write_str\<close> of an argument: its pointer may be null.\<close>

definition write_str_arg :: "char \<Rightarrow> string option \<Rightarrow> format_spec \<Rightarrow> char list \<Rightarrow> fmt_error + char list" where
  "write_str_arg junk s spec w =
     (if type_code spec \<noteq> CHR 0x00 \<and> type_code spec \<noteq> CHR ''s''
      then Inl (report_unknown_type (type_code spec) ''string'')
      else case s of
             None \<Rightarrow> Inl (FormatError ''string pointer is null'')
           | Some str \<Rightarrow>
               let str' = (if 0 \<le> precision spec \<and> nat (precision spec) < length str
                           then take (nat (precision spec)) str else str)
               in Inr (write_str junk str' spec w))"

section \<open>Integers outside a writer\<close>

text \<open>\<open>FormatInt\<close>: a buffer of its own, filled from the end; \<open>str_\<close> is the index of the first character.\<close>

definition FormatInt_BUFFER_SIZE :: nat where "FormatInt_BUFFER_SIZE = 19 + 3"

record format_int =
  fi_buffer :: "char list"
  fi_str :: nat

definition FormatInt_format_decimal :: "char \<Rightarrow> nat \<Rightarrow> format_int option" where
  "FormatInt_format_decimal junk value =
     map_option (\<lambda>(mem, b). \<lparr>fi_buffer = mem, fi_str = b\<rparr>)
       (format_decimal_loop (replicate FormatInt_BUFFER_SIZE junk, FormatInt_BUFFER_SIZE - 1) value)"

definition FormatInt_FormatSigned :: "char \<Rightarrow> u64 \<Rightarrow> format_int option" where
  "FormatInt_FormatSigned junk value =
     (let negative = sint value < 0; abs_value = (if negative then 0 - value else value)
      in do {
        fi \<leftarrow> FormatInt_format_decimal junk (unat abs_value);
        if negative
        then map_option (\<lambda>(mem, b). \<lparr>fi_buffer = mem, fi_str = b\<rparr>)
               (put_back (fi_buffer fi, fi_str fi) (CHR ''-''))
        else Some fi
      })"

definition FormatInt_size :: "format_int \<Rightarrow> nat" where
  "FormatInt_size fi = FormatInt_BUFFER_SIZE - 1 - fi_str fi"

definition FormatInt_c_str :: "format_int \<Rightarrow> char list" where
  "FormatInt_c_str fi = drop (fi_str fi) ((fi_buffer fi)[FormatInt_BUFFER_SIZE - 1 := CHR 0x00])"

definition FormatInt_str :: "format_int \<Rightarrow> string" where
  "FormatInt_str fi = take (FormatInt_size fi) (drop (fi_str fi) (fi_buffer fi))"

text \<open>\<open>fmt::format_decimal(buffer, value)\<close>: the memory and the advanced pointer.\<close>

definition put_next :: "char list \<times> nat \<Rightarrow> char \<Rightarrow> (char list \<times> nat) option" where
  "put_next mb c =
     (let (mem, b) = mb in if b < length mem then Some (mem[b := c], b + 1) else None)"

definition fmt_format_decimal ::
  "(nat \<Rightarrow> nat) \<Rightarrow> bool \<Rightarrow> char list \<times> nat \<Rightarrow> 'a::len word \<Rightarrow> (char list \<times> nat) option" where
  "fmt_format_decimal count is_signed mb value =
     (let abs = abs_value is_signed value
      in do {
        mb1 \<leftarrow> (if is_negative is_signed value then put_next mb (CHR ''-'') else Some mb);
        if abs < 100
        then if abs < 10 then put_next mb1 (char_of (48 + abs))
             else do {
               mb2 \<leftarrow> put_next mb1 (DIGITS ! (abs * 2));
               put_next mb2 (DIGITS ! (abs * 2 + 1))
             }
        else
          let num_digits = count abs; (mem, b) = mb1
          in map_option (\<lambda>mem'. (mem', b + num_digits)) (format_decimal mem b abs num_digits)
      })"

section \<open>The memory buffer\<close>

text \<open>The size of the inline array of a \<open>MemoryWriter\<close>, and a buffer of characters: what it holds, its
  capacity, and whether \<open>ptr_\<close> points to allocated memory. The inline array has
  \<open>INLINE_BUFFER_SIZE\<close> elements.\<close>

definition INLINE_BUFFER_SIZE :: nat where "INLINE_BUFFER_SIZE = 500"

record mem_buffer =
  mb_data :: "char list"
  mb_capacity :: nat
  mb_heap :: bool

definition MemoryBuffer :: mem_buffer where
  "MemoryBuffer = \<lparr>mb_data = [], mb_capacity = INLINE_BUFFER_SIZE, mb_heap = False\<rparr>"

definition mb_grow :: "nat \<Rightarrow> mem_buffer \<Rightarrow> mem_buffer" where
  "mb_grow n b =
     (let new_capacity = mb_capacity b + mb_capacity b div 2
      in b\<lparr>mb_capacity := (if n > new_capacity then n else new_capacity), mb_heap := True\<rparr>)"

definition mb_resize :: "char \<Rightarrow> nat \<Rightarrow> mem_buffer \<Rightarrow> mem_buffer" where
  "mb_resize junk new_size b =
     (let b1 = (if new_size > mb_capacity b then mb_grow new_size b else b)
      in b1\<lparr>mb_data := take new_size (mb_data b1) @ replicate (new_size - length (mb_data b1)) junk\<rparr>)"

definition mb_reserve :: "nat \<Rightarrow> mem_buffer \<Rightarrow> mem_buffer" where
  "mb_reserve cap b = (if cap > mb_capacity b then mb_grow cap b else b)"

definition mb_clear :: "mem_buffer \<Rightarrow> mem_buffer" where
  "mb_clear b = b\<lparr>mb_data := []\<rparr>"

text \<open>The memory that \<open>ptr_\<close> really points to.\<close>

definition mb_storage :: "mem_buffer \<Rightarrow> nat" where
  "mb_storage b = (if mb_heap b then mb_capacity b else INLINE_BUFFER_SIZE)"

text \<open>\<open>push_back\<close> and \<open>append\<close>: \<open>None\<close> is a write past the end of the storage.\<close>

definition mb_append :: "string \<Rightarrow> mem_buffer \<Rightarrow> mem_buffer option" where
  "mb_append s b =
     (let new_size = length (mb_data b) + length s;
          b1 = (if new_size > mb_capacity b then mb_grow new_size b else b)
      in if new_size \<le> mb_storage b1 then Some (b1\<lparr>mb_data := mb_data b1 @ s\<rparr>) else None)"

definition mb_push_back :: "char \<Rightarrow> mem_buffer \<Rightarrow> mem_buffer option" where
  "mb_push_back c b =
     (let b1 = (if length (mb_data b) = mb_capacity b then mb_grow (length (mb_data b) + 1) b else b)
      in if length (mb_data b1) < mb_storage b1 then Some (b1\<lparr>mb_data := mb_data b1 @ [c]\<rparr>) else None)"

text \<open>\<open>move\<close>: the new buffer and what is left in the other one, whose size and capacity stay as they were.
  \<open>junk\<close> is what its inline array holds.\<close>

definition mb_move :: "(nat \<Rightarrow> char list) \<Rightarrow> mem_buffer \<Rightarrow> mem_buffer \<times> mem_buffer" where
  "mb_move junk other =
     (if mb_heap other
      then (other, other\<lparr>mb_heap := False, mb_data := junk (length (mb_data other))\<rparr>)
      else (other, other))"

text \<open>The capacity is that of the storage, and the contents fit.\<close>

definition mb_ok :: "mem_buffer \<Rightarrow> bool" where
  "mb_ok b \<longleftrightarrow> length (mb_data b) \<le> mb_capacity b \<and> mb_capacity b \<le> mb_storage b
     \<and> INLINE_BUFFER_SIZE \<le> mb_capacity b"

section \<open>Counting digits\<close>

lemma bit_length_bounds: "0 < n \<Longrightarrow> 2 ^ (bit_length n - 1) \<le> n \<and> n < 2 ^ bit_length n \<and> 0 < bit_length n"
proof (induction n rule: bit_length.induct)
  case (1 n)
  show ?case
  proof (cases "n = 1")
    case True
    then show ?thesis by (simp add: bit_length.simps)
  next
    case False
    with 1 have ih: "2 ^ (bit_length (n div 2) - 1) \<le> n div 2" "n div 2 < 2 ^ bit_length (n div 2)"
        "0 < bit_length (n div 2)"
      by auto
    obtain m where m: "bit_length (n div 2) = Suc m" using ih(3) by (cases "bit_length (n div 2)") auto
    have "bit_length n = Suc (Suc m)" using 1 m by (simp add: bit_length.simps [of n])
    moreover have "2 * 2 ^ m \<le> n \<and> n < 4 * 2 ^ m" using ih m by simp linarith
    ultimately show ?thesis by simp
  qed
qed

lemma bit_length_le: "n < 2 ^ k \<Longrightarrow> bit_length n \<le> k"
proof (cases "n = 0")
  case False
  assume "n < 2 ^ k"
  moreover from False have "2 ^ (bit_length n - 1) \<le> n" using bit_length_bounds [of n] by simp
  ultimately have "(2 :: nat) ^ (bit_length n - 1) < 2 ^ k" by linarith
  then have "bit_length n - 1 < k" by simp
  then show ?thesis by simp
qed (simp add: bit_length.simps [of 0])

lemma even_step:
  "even n \<Longrightarrow> even m \<Longrightarrow> n < m \<Longrightarrow> n + 1 < m"
  "even n \<Longrightarrow> even m \<Longrightarrow> m \<le> n + 1 \<Longrightarrow> m \<le> n" for n m :: nat
  by (auto elim!: evenE)

lemma bit_length_or_1:
  assumes "n < 2 ^ k" and "0 < k"
  defines "b \<equiv> bit_length (n OR 1)"
  shows "1 \<le> b" "b \<le> k" "n < 2 ^ b" "b = 1 \<or> 2 ^ (b - 1) \<le> n"
proof -
  have o: "n OR 1 = n + of_bool (even n)" by (rule or_one_eq)
  have p: "0 < n OR 1" unfolding o by (cases "n = 0") auto
  note bb = bit_length_bounds [OF p, folded b_def]
  show "1 \<le> b" using bb by simp
  have "even ((2 :: nat) ^ k)" using assms(2) by simp
  then have "n OR 1 < 2 ^ k" using assms(1) unfolding o by (cases "even n") (use even_step(1) [of n "2 ^ k"] in auto)
  then show "b \<le> k" unfolding b_def by (rule bit_length_le)
  show "n < 2 ^ b" using bb unfolding o by (cases "even n") auto
  have le: "2 ^ (b - 1) \<le> n + of_bool (even n)" using bb unfolding o by simp
  show "b = 1 \<or> 2 ^ (b - 1) \<le> n"
  proof (cases "even n \<and> b \<noteq> 1")
    case True
    then have "even ((2 :: nat) ^ (b - 1))" using bb by simp
    then show ?thesis using even_step(2) [of n "2 ^ (b - 1)"] True le by simp
  qed (use le in auto)
qed

text \<open>The estimate of \<open>\<lfloor>log\<^sub>1\<^sub>0\<rfloor>\<close> from the bit length is off by at most one, and only upwards.\<close>

definition log10_ok :: "nat \<Rightarrow> bool" where
  "log10_ok b \<longleftrightarrow>
     (let t = b * 1233 div 2 ^ 12
      in 2 ^ b \<le> (10 :: nat) ^ (t + 1) \<and> (t \<le> 1 \<or> (10 :: nat) ^ (t - 1) \<le> 2 ^ (b - 1)) \<and> (b = 1 \<longrightarrow> t = 0))"

lemma log10_estimates: "list_all log10_ok [1..<65]"
  by (simp add: upt_conv_Cons numeral_2_eq_2 [symmetric] log10_ok_def)

lemma log10_estimate: "1 \<le> b \<Longrightarrow> b \<le> 64 \<Longrightarrow> log10_ok b"
  using log10_estimates by (auto simp: list_all_iff)

lemma POWERS_OF_10_64_nth: "list_all (\<lambda>t. POWERS_OF_10_64 ! t = (if t = 0 then 0 else 10 ^ t)) [0..<20]"
  by (simp add: upt_conv_Cons numeral_2_eq_2 [symmetric] POWERS_OF_10_64_def FMT_POWERS_OF_10_def)

lemma POWERS_OF_10_32_nth: "list_all (\<lambda>t. POWERS_OF_10_32 ! t = (if t = 0 then 0 else 10 ^ t)) [0..<10]"
  by (simp add: upt_conv_Cons numeral_2_eq_2 [symmetric] POWERS_OF_10_32_def FMT_POWERS_OF_10_def)

lemma digits_from_estimate:
  assumes "log10_ok b" and "n < 2 ^ b" and "b = 1 \<or> 2 ^ (b - 1) \<le> n"
  defines "t \<equiv> b * 1233 div 2 ^ 12"
  shows "length (nat_digits n) = t - (if n < (if t = 0 then 0 else 10 ^ t) then 1 else 0) + 1"
proof -
  from assms(1) have ok: "2 ^ b \<le> (10 :: nat) ^ (t + 1)" "t \<le> 1 \<or> (10 :: nat) ^ (t - 1) \<le> 2 ^ (b - 1)" "b = 1 \<longrightarrow> t = 0"
    unfolding log10_ok_def Let_def t_def by (blast, blast, auto)
  have up: "n < 10 ^ (t + 1)" using assms(2) ok(1) by linarith
  show ?thesis
  proof (cases "t \<noteq> 0 \<and> n < 10 ^ t")
    case True
    have "t - 1 = 0 \<or> 10 ^ (t - 1) \<le> n"
      using ok(2,3) assms(3) True by (metis One_nat_def diff_is_0_eq le_trans)
    then have "length (nat_digits n) = (t - 1) + 1"
      using True by (subst length_nat_digits) simp
    then show ?thesis using True by simp
  next
    case False
    then have "length (nat_digits n) = t + 1" using up by (subst length_nat_digits) auto
    then show ?thesis using False by auto
  qed
qed

lemma count_digits_64_length: "n < 2 ^ 64 \<Longrightarrow> count_digits_64 n = length (nat_digits n)"
proof -
  assume n: "n < 2 ^ 64"
  define b where "b = bit_length (n OR 1)"
  have b: "1 \<le> b" "b \<le> 64" "n < 2 ^ b" "b = 1 \<or> 2 ^ (b - 1) \<le> n"
    using bit_length_or_1 [OF n] by (simp_all add: b_def)
  have "b * 1233 div 2 ^ 12 < 20" using b(2) by simp
  then have "POWERS_OF_10_64 ! (b * 1233 div 2 ^ 12)
      = (if b * 1233 div 2 ^ 12 = 0 then 0 else 10 ^ (b * 1233 div 2 ^ 12))"
    using POWERS_OF_10_64_nth by (simp only: list_all_iff set_upt) (metis atLeastLessThan_iff zero_le)
  then show ?thesis
    unfolding count_digits_64_def b_def [symmetric] Let_def
    using digits_from_estimate [OF log10_estimate [OF b(1,2)] b(3,4)] by presburger
qed

lemma count_digits_32_length: "n < 2 ^ 32 \<Longrightarrow> count_digits_32 n = length (nat_digits n)"
proof -
  assume n: "n < 2 ^ 32"
  define b where "b = bit_length (n OR 1)"
  have b: "1 \<le> b" "b \<le> 32" "n < 2 ^ b" "b = 1 \<or> 2 ^ (b - 1) \<le> n"
    using bit_length_or_1 [OF n] by (simp_all add: b_def)
  have "b * 1233 div 2 ^ 12 < 10" and b2: "b \<le> 64" using b(2) by simp_all
  then have "POWERS_OF_10_32 ! (b * 1233 div 2 ^ 12)
      = (if b * 1233 div 2 ^ 12 = 0 then 0 else 10 ^ (b * 1233 div 2 ^ 12))"
    using POWERS_OF_10_32_nth by (simp only: list_all_iff set_upt) (metis atLeastLessThan_iff zero_le)
  then show ?thesis
    unfolding count_digits_32_def b_def [symmetric] Let_def
    using digits_from_estimate [OF log10_estimate [OF b(1) b2] b(3,4)] by presburger
qed

lemma count_digits_loop_length: "count_digits_loop c n + 1 = c + length (nat_digits n)"
proof (induction c n rule: count_digits_loop.induct)
  case (1 c n)
  show ?case
  proof (cases "n < 10000")
    case True
    then show ?thesis by (auto simp: count_digits_loop.simps [of c n] nat_digits_small nat_digits_rec div_mult2_eq [symmetric])
  next
    case False
    have d: "n div 10000 = n div 10 div 10 div 10 div 10" by (simp add: div_mult2_eq [symmetric])
    have "10 \<le> n" "10 \<le> n div 10" "10 \<le> n div 10 div 10" "10 \<le> n div 10 div 10 div 10"
      using False by (simp_all add: div_mult2_eq [symmetric])
    then have "length (nat_digits n) = length (nat_digits (n div 10000)) + 4"
      unfolding d by (simp add: nat_digits_rec)
    moreover have "count_digits_loop c n = count_digits_loop (c + 4) (n div 10000)"
      using False by (simp add: count_digits_loop.simps [of c n])
    ultimately show ?thesis using 1 False by simp
  qed
qed

section \<open>Writing digits\<close>

text \<open>Writing backwards into the middle of a buffer: \<open>x\<close> is before the free area, \<open>z\<close> behind it.\<close>

lemma put_back_mid [simp]:
  "put_back (x @ ys @ [y] @ z, Suc (length x + length ys)) c = Some (x @ ys @ [c] @ z, length x + length ys)"
  by (simp add: put_back_def list_update_append)

lemma digit_chars:
  "char_of (48 :: nat) = CHR ''0''" "char_of (49 :: nat) = CHR ''1''" "char_of (50 :: nat) = CHR ''2''"
  "char_of (51 :: nat) = CHR ''3''" "char_of (52 :: nat) = CHR ''4''" "char_of (53 :: nat) = CHR ''5''"
  "char_of (54 :: nat) = CHR ''6''" "char_of (55 :: nat) = CHR ''7''" "char_of (56 :: nat) = CHR ''8''"
  "char_of (57 :: nat) = CHR ''9''"
  by code_simp+

lemma DIGITS_nth: "list_all (\<lambda>v. DIGITS ! (v * 2) = char_of (48 + v div 10) \<and> DIGITS ! (v * 2 + 1) = char_of (48 + v mod 10)) [0..<100]"
  by (simp add: upt_conv_Cons numeral_2_eq_2 [symmetric] DIGITS_def digit_chars)

lemma DIGITS_pair:
  assumes "v < 100"
  shows "DIGITS ! (v * 2) = char_of (48 + v div 10)" "DIGITS ! (v * 2 + 1) = char_of (48 + v mod 10)"
  using DIGITS_nth assms by (simp_all only: list_all_iff set_upt) (metis atLeastLessThan_iff zero_le)+

lemma nat_digits_pair:
  "100 \<le> v \<Longrightarrow> nat_digits v = nat_digits (v div 100) @ [DIGITS ! (v mod 100 * 2), DIGITS ! (v mod 100 * 2 + 1)]"
proof -
  assume v: "100 \<le> v"
  have "v mod 100 div 10 = v div 10 mod 10" "v mod 100 mod 10 = v mod 10" "v div 100 = v div 10 div 10"
    by (simp_all add: mod_mult2_eq [of v 10 10, simplified] div_mult2_eq [symmetric])
  moreover have "10 \<le> v" "10 \<le> v div 10" using v by simp_all
  ultimately show ?thesis
    using DIGITS_pair [of "v mod 100"] nat_digits_rec [of v] nat_digits_rec [of "v div 10"] by simp
qed

lemma nat_digits_two:
  "10 \<le> v \<Longrightarrow> v < 100 \<Longrightarrow> nat_digits v = [DIGITS ! (v * 2), DIGITS ! (v * 2 + 1)]"
  using DIGITS_pair [of v] nat_digits_rec [of v] nat_digits_small [of "v div 10"] by simp

lemma put_back_two:
  assumes "length ys = length ds + 2"
  shows "put_back (x @ ys @ z, length x + length ys) b \<bind> (\<lambda>mb. put_back mb a \<bind> f)
    = f (x @ take (length ds) ys @ [a, b] @ z, length x + length ds)"
proof -
  obtain us u1 u2 where ys: "ys = us @ [u1, u2]" "length us = length ds"
    using assms by (cases ys rule: rev_cases; force simp: length_Suc_conv_rev)
  show ?thesis
    using put_back_mid [of x "us @ [u1]" u2 z b] put_back_mid [of x us u1 "b # z" a] ys by simp
qed

lemma format_decimal_loop_correct:
  "length ys = length (nat_digits v) \<Longrightarrow>
   format_decimal_loop (x @ ys @ z, length x + length ys) v = Some (x @ nat_digits v @ z, length x)"
proof (induction v arbitrary: ys z rule: less_induct)
  case (less v)
  consider "100 \<le> v" | "10 \<le> v" "v < 100" | "v < 10" by linarith
  then show ?case
  proof cases
    case 1
    let ?ds = "nat_digits (v div 100)"
    have len: "length ys = length ?ds + 2" using less.prems nat_digits_pair [OF 1] by simp
    have "format_decimal_loop (x @ ys @ z, length x + length ys) v
        = format_decimal_loop (x @ take (length ?ds) ys @ [DIGITS ! (v mod 100 * 2), DIGITS ! (v mod 100 * 2 + 1)] @ z,
            length x + length ?ds) (v div 100)"
      using 1 by (subst format_decimal_loop.simps) (simp add: Let_def put_back_two [OF len])
    also have "\<dots> = Some (x @ ?ds @ [DIGITS ! (v mod 100 * 2), DIGITS ! (v mod 100 * 2 + 1)] @ z, length x)"
      using less.IH [of "v div 100" "take (length ?ds) ys"] 1 len by simp
    finally show ?thesis using nat_digits_pair [OF 1] by simp
  next
    case 2
    have len: "length ys = length ([] :: char list) + 2" using less.prems nat_digits_two [OF 2] by simp
    show ?thesis
      using 2 put_back_two [OF len, of x z "DIGITS ! (v * 2 + 1)" "DIGITS ! (v * 2)" Some]
      by (subst format_decimal_loop.simps) (simp add: Let_def nat_digits_two)
  next
    case 3
    then obtain y where "ys = [y]" using less.prems by (auto simp: nat_digits_small length_Suc_conv)
    then show ?thesis
      using 3 put_back_mid [of x "[]" y z] by (subst format_decimal_loop.simps) (simp add: nat_digits_small)
  qed
qed

lemma format_decimal_correct:
  "length ys = length (nat_digits v) \<Longrightarrow>
   format_decimal (x @ ys @ z) (length x) v (length ys) = Some (x @ nat_digits v @ z)"
  using format_decimal_loop_correct [of ys v x z] by (simp add: format_decimal_def)

lemma count_base_length: "count_base k n = length (base_digits digits k n)"
  by (induction digits k n rule: base_digits.induct) (simp add: count_base.simps base_digits.simps)

lemma put_base_correct:
  "length ys = length (base_digits digits k n) \<Longrightarrow>
   put_base digits k (x @ ys @ z) (length x + length ys) n = Some (x @ base_digits digits k n @ z)"
proof (induction digits k n arbitrary: ys z rule: base_digits.induct)
  case (1 digits k n)
  obtain us y where ys: "ys = us @ [y]"
    using 1(2) by (cases ys rule: rev_cases) (auto simp: base_digits.simps [of digits k n] split: if_splits)
  show ?case
  proof (cases "k = 0 \<or> n div 2 ^ k = 0")
    case True
    then show ?thesis
      using 1(2) ys by (simp add: put_base.simps [of digits k _ _ n] base_digits.simps [of digits k n] list_update_append)
  next
    case False
    have "length us = length (base_digits digits k (n div 2 ^ k))"
      using 1(2) ys False by (simp add: base_digits.simps [of digits k n])
    from 1(1) [OF False this, of "digits ! (n mod 2 ^ k) # z"] show ?thesis
      using False ys by (simp add: put_base.simps [of digits k _ _ n] base_digits.simps [of digits k n] list_update_append)
  qed
qed

section \<open>The layout of an integer\<close>

text \<open>What stands before and behind the digits: the prefix and the fill characters of a field.\<close>

definition layout_plain :: "format_spec \<Rightarrow> string \<Rightarrow> nat \<Rightarrow> string \<times> string" where
  "layout_plain spec prefix nd =
     (let pad = width spec - (length prefix + nd)
      in case align spec of
           ALIGN_LEFT \<Rightarrow> (prefix, replicate pad (fill spec))
         | ALIGN_CENTER \<Rightarrow> (replicate (pad div 2) (fill spec) @ prefix, replicate (pad - pad div 2) (fill spec))
         | ALIGN_NUMERIC \<Rightarrow> (prefix @ replicate pad (fill spec), [])
         | _ \<Rightarrow> (replicate pad (fill spec) @ prefix, []))"

definition layout :: "format_spec \<Rightarrow> string \<Rightarrow> nat \<Rightarrow> string \<times> string" where
  "layout spec prefix0 nd =
     (if precision spec > int nd
      then
        let prefix = (if prefix0 \<noteq> [] \<and> last prefix0 = CHR ''0'' then butlast prefix0 else prefix0);
            zeros = replicate (nat (precision spec) - nd) (CHR ''0'');
            pad = replicate (width spec - (length prefix + nat (precision spec))) (fill spec)
        in if align spec = ALIGN_LEFT then (prefix @ zeros, pad) else (pad @ prefix @ zeros, [])
      else layout_plain spec prefix0 nd)"

text \<open>A field of \<open>digits\<close>.\<close>

definition int_field :: "format_spec \<Rightarrow> string \<Rightarrow> string \<Rightarrow> string" where
  "int_field spec prefix digits =
     (let (before, behind) = layout spec prefix (length digits) in before @ digits @ behind)"


lemma copy_to_mid: "p = length x \<Longrightarrow> copy_to s p (x @ replicate (length s + n) junk @ z) = x @ s @ replicate n junk @ z"
  by (simp add: copy_to_def)

lemma prepare_plain_layout:
  assumes "0 < nd"
  shows "prepare_plain junk nd spec prefix w =
    (let (a, b) = layout_plain spec prefix nd
     in (w @ a @ replicate nd junk @ b, length w + length a + nd - 1))"
proof (cases "width spec \<le> length prefix + nd")
  case True
  then show ?thesis
    using assms copy_to_mid [of "length w" w prefix nd junk "[]"]
    by (auto simp: prepare_plain_def layout_plain_def grow_buffer_def Let_def split: alignment.split)
next
  case False
  define pad where "pad = width spec - (length prefix + nd)"
  have wd: "width spec = length prefix + nd + pad" "0 < pad" using False by (auto simp: pad_def)
  show ?thesis
    using assms
    by (cases "align spec")
      (simp_all add: prepare_plain_def layout_plain_def grow_buffer_def Let_def wd fill_to_def copy_to_def
        fill_padding_def ac_simps)
qed

lemma grow_fill:
  "(case grow_buffer junk n w of (v, p) \<Rightarrow> fill_to p (p + n) c v) = w @ replicate n c"
  by (simp add: grow_buffer_def fill_to_def copy_to_def)

lemma prepare_int_buffer_layout:
  assumes "0 < nd"
  shows "prepare_int_buffer junk nd spec prefix0 w =
    (let (a, b) = layout spec prefix0 nd
     in (w @ a @ replicate nd junk @ b, length w + length a + nd - 1))"
proof (cases "precision spec > int nd")
  case True
  define prefix where
    "prefix = (if prefix0 \<noteq> [] \<and> last prefix0 = CHR ''0'' then butlast prefix0 else prefix0)"
  define ns where "ns = length prefix + nat (precision spec)"
  have sub: "prepare_plain junk nd (AlignSpec ns (CHR ''0'') ALIGN_NUMERIC) prefix v
      = (v @ (prefix @ replicate (nat (precision spec) - nd) (CHR ''0'')) @ replicate nd junk @ [],
         length v + length (prefix @ replicate (nat (precision spec) - nd) (CHR ''0'')) + nd - 1)" for v
    by (subst prepare_plain_layout [OF assms]) (simp add: layout_plain_def AlignSpec_def ns_def)
  obtain fs where "width spec \<le> ns \<or> width spec = ns + fs \<and> 0 < fs"
    by (metis less_imp_add_positive not_le)
  then show ?thesis
    using True
    by (auto simp: prepare_int_buffer_def layout_def Let_def prefix_def [symmetric] ns_def [symmetric] sub
        grow_fill ac_simps)
next
  case False
  then show ?thesis by (simp add: prepare_int_buffer_def layout_def prepare_plain_layout [OF assms])
qed

lemma write_decimal_field:
  assumes "count n = length (nat_digits n)"
  shows "(let (w1, p) = prepare_int_buffer junk (count n) spec prefix w
          in of_overrun (format_decimal w1 (p + 1 - count n) n (count n)))
    = Inr (w @ int_field spec prefix (nat_digits n))"
proof -
  obtain a b where ab: "layout spec prefix (length (nat_digits n)) = (a, b)" by fastforce
  have "length w + length a + length (nat_digits n) - 1 + 1 - length (nat_digits n) = length w + length a"
    using length_nat_digits_pos [of n] by linarith
  then show ?thesis
    using format_decimal_correct [of "replicate (length (nat_digits n)) junk" n "w @ a" b]
    by (simp add: assms prepare_int_buffer_layout [OF length_nat_digits_pos] ab int_field_def of_overrun_def)
qed

lemma write_base_field: "write_base junk k spec prefix digits n w = Inr (w @ int_field spec prefix (base_digits digits k n))"
proof -
  let ?ds = "base_digits digits k n"
  have pos: "0 < length ?ds" by (subst base_digits.simps) simp
  obtain a b where ab: "layout spec prefix (length ?ds) = (a, b)" by fastforce
  show ?thesis
    using put_base_correct [of "replicate (length ?ds) junk" digits k n "w @ a" b] pos
    by (simp add: write_base_def count_base_length [of k n digits] prepare_int_buffer_layout ab int_field_def of_overrun_def)
qed

section \<open>Integers\<close>

lemma uint_minus_sint:
  fixes v :: "'a::len word"
  assumes "sint v < 0"
  shows "unat (0 - v) = nat (- sint v)"
proof -
  have "- (2 ^ (LENGTH('a) - 1)) \<le> sint v" using sint_greater_eq [of v] by simp
  moreover have "(2 :: int) ^ (LENGTH('a) - 1) < 2 ^ LENGTH('a)" by simp
  ultimately have "- sint v < 2 ^ LENGTH('a)" by linarith
  then have "take_bit LENGTH('a) (- sint v) = - sint v"
    using assms by (intro take_bit_int_eq_self) simp_all
  moreover have "uint (- v) = take_bit LENGTH('a) (- sint v)"
    using uint_word_of_int_eq [of "- sint v", where ?'a = 'a] by simp
  ultimately show ?thesis by (simp add: unat_eq_nat_uint)
qed

lemma nat_sint_nonneg:
  fixes v :: "'a::len word"
  assumes "0 \<le> sint v"
  shows "nat (sint v) = unat v"
proof -
  have "sint v < 2 ^ (LENGTH('a) - 1)" using sint_less [of v] by simp
  moreover have "(2 :: int) ^ (LENGTH('a) - 1) < 2 ^ LENGTH('a)" by simp
  ultimately have "sint v < 2 ^ LENGTH('a)" by linarith
  then have "take_bit LENGTH('a) (sint v) = sint v" using assms by (intro take_bit_int_eq_self)
  moreover have "uint v = take_bit LENGTH('a) (sint v)" by (rule uint_sint)
  ultimately show ?thesis by (simp add: unat_eq_nat_uint)
qed

lemma abs_value_bound: "abs_value sg (v :: 'a::len word) < 2 ^ LENGTH('a)"
  by (simp add: abs_value_def unsigned_less)

text \<open>The notation of a value under a specification: its prefix and its digits.\<close>

definition int_prefix :: "bool \<Rightarrow> 'a::len word \<Rightarrow> format_spec \<Rightarrow> string" where
  "int_prefix sg v spec =
     (if sg \<and> sint v < 0 then ''-''
      else if spec_flag spec SIGN_FLAG then (if spec_flag spec PLUS_FLAG then ''+'' else '' '') else [])"

definition int_notation :: "bool \<Rightarrow> 'a::len word \<Rightarrow> format_spec \<Rightarrow> (string \<times> string) option" where
  "int_notation sg v spec =
     (let n = nat \<bar>if sg then sint v else uint v\<bar>; c = type_code spec;
          sign = int_prefix sg v spec;
          mark = (\<lambda>m. if spec_flag spec HASH_FLAG then sign @ m else sign)
      in if c = CHR 0x00 \<or> c = CHR ''d'' then Some (sign, nat_digits n)
         else if c = CHR ''x'' then Some (mark ''0x'', base_digits hex_lower 4 n)
         else if c = CHR ''X'' then Some (mark ''0X'', base_digits hex_upper 4 n)
         else if c = CHR ''b'' then Some (mark ''0b'', base_digits hex_lower 1 n)
         else if c = CHR ''B'' then Some (mark ''0B'', base_digits hex_lower 1 n)
         else if c = CHR ''o'' then Some (mark ''0'', base_digits hex_lower 3 n)
         else None)"

lemma abs_value_int: "abs_value sg v = nat \<bar>if sg then sint v else uint v\<bar>"
proof (cases "sg \<and> sint v < 0")
  case True
  then show ?thesis using uint_minus_sint [of v] by (simp add: abs_value_def is_negative_def)
next
  case False
  have "nat \<bar>uint v\<bar> = unat v" by (simp only: abs_of_nonneg uint_nonnegative unat_eq_nat_uint)
  then show ?thesis
    using False nat_sint_nonneg [of v] by (cases sg) (simp_all add: abs_value_def is_negative_def)
qed

lemma write_int_notation:
  fixes v :: "'a::len word"
  assumes "\<And>n. n < 2 ^ LENGTH('a) \<Longrightarrow> count n = length (nat_digits n)"
  shows "write_int junk count sg v spec w =
    (case int_notation sg v spec of
       Some (prefix, digits) \<Rightarrow> Inr (w @ int_field spec prefix digits)
     | None \<Rightarrow> Inl (report_unknown_type (type_code spec)
                      (if spec_flag spec CHAR_FLAG then ''char'' else ''integer'')))"
proof -
  have n: "count (abs_value sg v) = length (nat_digits (abs_value sg v))"
    by (rule assms) (rule abs_value_bound)
  have s: "(if is_negative sg v then ''-''
      else if spec_flag spec SIGN_FLAG then (if spec_flag spec PLUS_FLAG then ''+'' else '' '') else [])
      = int_prefix sg v spec"
    by (simp add: int_prefix_def is_negative_def)
  note field = write_decimal_field [where count = count, OF n]
  show ?thesis
    unfolding write_int_def int_notation_def abs_value_int [symmetric] Let_def s field [unfolded Let_def]
      write_base_field
    by simp
qed

lemma grow_write:
  assumes "count n = length (nat_digits n)"
  shows "write_unsigned_decimal junk count n k w = Some (w @ replicate k junk @ nat_digits n, length w)"
  using format_decimal_correct [of "replicate (length (nat_digits n)) junk" n "w @ replicate k junk" "[]"]
  by (simp add: write_unsigned_decimal_def grow_buffer_def assms replicate_add)

lemma write_decimal_notation:
  fixes v :: "'a::len word"
  assumes "\<And>n. n < 2 ^ LENGTH('a) \<Longrightarrow> count n = length (nat_digits n)"
  shows "write_decimal junk count sg v w = Some (w @ int_digits (if sg then sint v else uint v))"
proof -
  have n: "count (abs_value sg v) = length (nat_digits (abs_value sg v))"
    by (rule assms) (rule abs_value_bound)
  show ?thesis
    unfolding write_decimal_def grow_write [where count = count, OF n]
    by (auto simp: abs_value_int int_digits_def is_negative_def abs_if)
qed

lemmas count_digits_length = count_digits_64_length count_digits_32_length


text \<open>\<open>operator<<\<close> on integers appends the decimal notation, with both ways of counting the digits.\<close>

theorem write_decimal_digits:
  "write_decimal junk count_digits_64 sg (v :: u64) w = Some (w @ int_digits (if sg then sint v else uint v)) \<and>
   write_decimal junk count_digits_32 sg (v' :: u32) w = Some (w @ int_digits (if sg then sint v' else uint v')) \<and>
   write_decimal junk count_digits_fallback sg (v'' :: 'a::len word) w =
     Some (w @ int_digits (if sg then sint v'' else uint v''))"
proof -
  have "count_digits_fallback n = length (nat_digits n)" for n
    using count_digits_loop_length [of 1 n] by (simp add: count_digits_fallback_def)
  then show ?thesis
    using write_decimal_notation [where v = v and count = count_digits_64]
      write_decimal_notation [where v = v' and count = count_digits_32]
      write_decimal_notation [where v = v'' and count = count_digits_fallback]
    by (simp add: count_digits_length)
qed

section \<open>FormatInt\<close>

lemma nat_digits_20: "n < 2 ^ 64 \<Longrightarrow> length (nat_digits n) \<le> 20"
proof -
  assume "n < 2 ^ 64"
  then have n: "n < 10 ^ 20" by simp
  obtain k where k: "length (nat_digits n) = k + 1" using length_nat_digits_pos [of n] by (cases "length (nat_digits n)") auto
  then have "k = 0 \<or> 10 ^ k \<le> n" using length_nat_digits [of n k] by blast
  then have "k = 0 \<or> (10 :: nat) ^ k < 10 ^ 20" using n by linarith
  then have "k < 20" using power_less_imp_less_exp [of "10 :: nat" k 20] by (elim disjE) simp_all
  then show ?thesis using k by simp
qed

lemma FormatInt_format_decimal_eq:
  assumes "n < 2 ^ 64"
  shows "FormatInt_format_decimal junk n =
    Some \<lparr>fi_buffer = replicate (21 - length (nat_digits n)) junk @ nat_digits n @ [junk],
          fi_str = 21 - length (nat_digits n)\<rparr>"
proof -
  let ?L = "length (nat_digits n)"
  have "?L \<le> 20" by (rule nat_digits_20 [OF assms])
  then have "replicate FormatInt_BUFFER_SIZE junk = replicate (21 - ?L) junk @ replicate ?L junk @ [junk]"
    using replicate_add [of "21 - ?L" ?L junk] replicate_add [of 21 1 junk]
    by (simp add: FormatInt_BUFFER_SIZE_def)
  moreover have "FormatInt_BUFFER_SIZE - 1 = length (replicate (21 - ?L) junk) + length (replicate ?L junk)"
    using \<open>?L \<le> 20\<close> by (simp add: FormatInt_BUFFER_SIZE_def)
  moreover have "format_decimal_loop (replicate (21 - ?L) junk @ replicate ?L junk @ [junk],
      length (replicate (21 - ?L) junk) + length (replicate ?L junk)) n
      = Some (replicate (21 - ?L) junk @ nat_digits n @ [junk], length (replicate (21 - ?L) junk))"
    by (rule format_decimal_loop_correct) simp
  ultimately show ?thesis
    unfolding FormatInt_format_decimal_def by simp
qed

text \<open>\<open>FormatInt\<close> gives the decimal notation of every 64-bit integer, signed or not; its 22 bytes are
  enough for twenty digits, a sign and the terminating zero, so no write leaves the buffer.\<close>

theorem FormatInt_correct:
  "map_option FormatInt_str (FormatInt_FormatSigned junk v) = Some (int_digits (sint v)) \<and>
   map_option FormatInt_str (FormatInt_format_decimal junk (unat v)) = Some (nat_digits (unat v)) \<and>
   map_option FormatInt_c_str (FormatInt_FormatSigned junk v) = Some (int_digits (sint v) @ [CHR 0x00])"
proof -
  have b: "length (nat_digits n) \<le> 20" if "n < 2 ^ 64" for n using that by (rule nat_digits_20)
  have lt: "unat (x :: u64) < 2 ^ 64" for x using unsigned_less [of x, where ?'a = nat] by simp
  have m: "put_back (replicate (21 - length ds) junk @ ds @ [junk], 21 - length ds) (CHR ''-'')
      = Some (replicate (20 - length ds) junk @ (CHR ''-'' # ds) @ [junk], 20 - length ds)"
    if "length ds \<le> 20" for ds
  proof -
    have "21 - length ds = Suc (20 - length ds)" using that by simp
    then show ?thesis
      using put_back_mid [of "replicate (20 - length ds) junk" "[]" junk "ds @ [junk]" "CHR ''-''"]
      by (simp add: replicate_append_same [symmetric])
  qed
  have c: "FormatInt_c_str \<lparr>fi_buffer = replicate k junk @ ds @ [junk], fi_str = k\<rparr> = ds @ [CHR 0x00]"
    "FormatInt_str \<lparr>fi_buffer = replicate k junk @ ds @ [junk], fi_str = k\<rparr> = ds"
    if "k + length ds = 21" for k ds
    using that diff_add_inverse [of k "length ds"]
    by (simp_all add: FormatInt_c_str_def FormatInt_str_def FormatInt_size_def FormatInt_BUFFER_SIZE_def
        list_update_append)
  have un: "map_option FormatInt_str (FormatInt_format_decimal junk (unat v)) = Some (nat_digits (unat v))"
    using b [OF lt [of v]] by (simp only: FormatInt_format_decimal_eq [OF lt] option.map c(2))
  show ?thesis
  proof (cases "sint v < 0")
    case True
    let ?ds = "nat_digits (unat (0 - v))"
    have L: "length ?ds \<le> 20" by (rule b [OF lt])
    have "FormatInt_FormatSigned junk v
        = Some \<lparr>fi_buffer = replicate (20 - length ?ds) junk @ (CHR ''-'' # ?ds) @ [junk], fi_str = 20 - length ?ds\<rparr>"
      using True m [OF L] by (simp add: FormatInt_FormatSigned_def Let_def FormatInt_format_decimal_eq [OF lt])
    moreover have "int_digits (sint v) = CHR ''-'' # ?ds"
      using True uint_minus_sint [OF True] by (simp add: int_digits_def)
    ultimately show ?thesis
      using un L c [of "20 - length ?ds" "CHR ''-'' # ?ds"] by simp
  next
    case False
    let ?ds = "nat_digits (unat v)"
    have L: "length ?ds \<le> 20" by (rule b [OF lt])
    have "FormatInt_FormatSigned junk v = FormatInt_format_decimal junk (unat v)"
      using False by (simp add: FormatInt_FormatSigned_def Let_def)
    moreover have "int_digits (sint v) = ?ds"
      using False nat_sint_nonneg [of v] by (simp add: int_digits_def)
    ultimately show ?thesis
      using un L c(1) [of "21 - length ?ds" ?ds] FormatInt_format_decimal_eq [OF lt, of junk v] by simp
  qed
qed

section \<open>Strings\<close>

definition str_field :: "format_spec \<Rightarrow> string \<Rightarrow> string" where
  "str_field spec s =
     (let pad = width spec - length s
      in case align spec of
           ALIGN_RIGHT \<Rightarrow> replicate pad (fill spec) @ s
         | ALIGN_CENTER \<Rightarrow> replicate (pad div 2) (fill spec) @ s @ replicate (pad - pad div 2) (fill spec)
         | _ \<Rightarrow> s @ replicate pad (fill spec))"

lemma write_str_field: "write_str junk s spec w = w @ str_field spec s"
proof (cases "width spec \<le> length s")
  case True
  then show ?thesis
    by (auto simp: write_str_def str_field_def grow_buffer_def copy_to_def Let_def split: alignment.split)
next
  case False
  define pad where "pad = width spec - length s"
  have wd: "width spec = length s + pad" "0 < pad" using False by (auto simp: pad_def)
  show ?thesis
    by (cases "align spec")
      (simp_all add: write_str_def str_field_def grow_buffer_def Let_def wd fill_to_def copy_to_def fill_padding_def)
qed

text \<open>Writing a string argument appends the string, cut to the precision and filled to the width; a
  null pointer and a presentation type other than \<open>s\<close> are reported.\<close>

theorem write_str_arg_field:
  "write_str_arg junk arg spec w =
     (if type_code spec \<noteq> CHR 0x00 \<and> type_code spec \<noteq> CHR ''s''
      then Inl (report_unknown_type (type_code spec) ''string'')
      else case arg of
             None \<Rightarrow> Inl (FormatError ''string pointer is null'')
           | Some s \<Rightarrow> Inr (w @ str_field spec (if precision spec < 0 then s else take (nat (precision spec)) s)))"
  by (auto simp: write_str_arg_def write_str_field Let_def split: option.split)

section \<open>Growth of the memory buffer\<close>

lemma mb_ok_new: "mb_ok MemoryBuffer"
  by (simp add: mb_ok_def MemoryBuffer_def mb_storage_def)

lemma mb_heap_grow [simp]: "mb_heap (mb_grow n b)" "mb_data (mb_grow n b) = mb_data b"
  by (simp_all add: mb_grow_def Let_def)

lemma mb_grow_ok:
  assumes "mb_ok b" and "mb_capacity b < n"
  shows "mb_ok (mb_grow n b)" "n \<le> mb_storage (mb_grow n b)" "n \<le> mb_capacity (mb_grow n b)"
  using assms by (auto simp: mb_ok_def mb_grow_def mb_storage_def Let_def)

text \<open>C32: On a buffer in order, \<open>append\<close>, \<open>push_back\<close>, \<open>resize\<close> and \<open>reserve\<close> keep it in order and never
  write outside the storage; \<open>append\<close> and \<open>push_back\<close> keep the contents and add to them.\<close>

theorem mb_operations:
  assumes "mb_ok b"
  shows "(\<exists>b'. mb_append s b = Some b' \<and> mb_ok b' \<and> mb_data b' = mb_data b @ s)
    \<and> (\<exists>b'. mb_push_back c b = Some b' \<and> mb_ok b' \<and> mb_data b' = mb_data b @ [c])
    \<and> mb_ok (mb_resize junk n b) \<and> length (mb_data (mb_resize junk n b)) = n
    \<and> take (min n (length (mb_data b))) (mb_data (mb_resize junk n b)) = take n (mb_data b)
    \<and> mb_ok (mb_reserve n b) \<and> mb_data (mb_reserve n b) = mb_data b \<and> n \<le> mb_capacity (mb_reserve n b)"
proof -
  have len: "length (mb_data b) \<le> mb_capacity b" "mb_capacity b \<le> mb_storage b" using assms by (auto simp: mb_ok_def)
  have app: "\<exists>b'. mb_append s b = Some b' \<and> mb_ok b' \<and> mb_data b' = mb_data b @ s" for s
    using assms mb_grow_ok [OF assms, of "length (mb_data b) + length s"] len
    by (cases "mb_capacity b < length (mb_data b) + length s")
      (auto simp: mb_append_def Let_def mb_ok_def mb_storage_def)
  have push: "mb_push_back c b = mb_append [c] b"
    using len by (auto simp: mb_push_back_def mb_append_def Let_def)
  have res: "mb_ok (mb_resize junk n b)"
    using assms mb_grow_ok [OF assms, of n] 
    by (cases "mb_capacity b < n") (auto simp: mb_resize_def Let_def mb_ok_def mb_storage_def)
  have dat: "mb_data (mb_resize junk n b) = take n (mb_data b) @ replicate (n - length (mb_data b)) junk"
    by (simp add: mb_resize_def Let_def)
  show ?thesis
    using app [of s] app [of "[c]"] push res dat mb_grow_ok [OF assms, of n] assms by (auto simp: mb_reserve_def min_def)
qed

theorem mb_operations_witness:
  "mb_ok MemoryBuffer \<and> (\<exists>b'. mb_append ''log'' MemoryBuffer = Some b' \<and> mb_data b' = ''log'')"
  using mb_operations [OF mb_ok_new, of "''log''" _ _ 0] mb_ok_new by (auto simp: MemoryBuffer_def)

text \<open>Moving a buffer that had outgrown its inline array leaves the source with the old size and capacity
  over the inline array alone: an \<open>append\<close> to it afterwards that fits the old capacity is a write outside
  the array, whereas a source that never grew stays usable.\<close>

theorem mb_move_leaves_capacity:
  assumes "mb_ok b" and "\<And>n. length (junk n) = n"
  defines "src \<equiv> snd (mb_move junk b)"
  shows "mb_data (fst (mb_move junk b)) = mb_data b \<and> mb_ok (fst (mb_move junk b))
    \<and> (\<not> mb_heap b \<longrightarrow> mb_ok src)
    \<and> (mb_heap b \<and> INLINE_BUFFER_SIZE < length (mb_data b) + length s
        \<and> length (mb_data b) + length s \<le> mb_capacity b \<longrightarrow> mb_append s src = None)"
  using assms by (auto simp: mb_move_def mb_append_def Let_def mb_storage_def)

definition grown_buffer :: mem_buffer where
  "grown_buffer = \<lparr>mb_data = replicate 600 (CHR ''x''), mb_capacity = 750, mb_heap = True\<rparr>"

lemma grown_buffer_reached: "mb_append (replicate 600 (CHR ''x'')) MemoryBuffer = Some grown_buffer"
  by (simp add: mb_append_def MemoryBuffer_def grown_buffer_def mb_grow_def mb_storage_def INLINE_BUFFER_SIZE_def)

lemma grown_buffer_ok: "mb_ok grown_buffer"
  by (simp add: mb_ok_def grown_buffer_def mb_storage_def INLINE_BUFFER_SIZE_def)

theorem mb_move_leaves_capacity_witness:
  "mb_append ''y'' (snd (mb_move (\<lambda>n. replicate n (CHR ''?'')) grown_buffer)) = None"
  using mb_move_leaves_capacity [OF grown_buffer_ok, of "\<lambda>n. replicate n (CHR ''?'')" "''y''"]
  by (simp add: grown_buffer_def INLINE_BUFFER_SIZE_def)

end
