(* ===== verification/FmtFormat.thy ===== *)
theory FmtFormat
  imports FmtWriter
begin

text \<open>
  The format-string interpreter of the formatting library (\<open>BasicFormatter\<close> and \<open>ArgFormatterBase\<close> of
  \<open>src/common/spdlog/include/details/format.h\<close>, \<open>do_get_arg\<close> and \<open>ArgMap\<close> of \<open>format.cc\<close>), which every
  log call with arguments goes through.

  A format string is a C string: the list of its characters before the terminating zero, which
  \<open>cur\<close> reads at the end. The pointer \<open>s\<close> into it is the rest of the list. An argument list is a list of
  arguments, each with its name if it has one; the packed representation of the types is not modelled, nor
  are floating-point arguments, which the code hands to \<open>snprintf\<close>. \<open>nx\<close> is \<open>next_arg_index_\<close>.
\<close>

definition cur :: "string \<Rightarrow> char" where
  "cur s = (case s of [] \<Rightarrow> CHR 0x00 | c # _ \<Rightarrow> c)"

lemma cur_simps [simp]: "cur [] = CHR 0x00" "cur (c # s) = c"
  by (simp_all add: cur_def)

definition is_digit :: "char \<Rightarrow> bool" where
  "is_digit c \<longleftrightarrow> 48 \<le> (of_char c :: nat) \<and> (of_char c :: nat) \<le> 57"

definition is_name_start :: "char \<Rightarrow> bool" where
  "is_name_start c \<longleftrightarrow>
     (97 \<le> (of_char c :: nat) \<and> (of_char c :: nat) \<le> 122)
     \<or> (65 \<le> (of_char c :: nat) \<and> (of_char c :: nat) \<le> 90) \<or> c = CHR ''_''"

definition quoted :: "char \<Rightarrow> string" where
  "quoted c = [CHR 0x27, c, CHR 0x27]"

section \<open>Arguments\<close>

datatype fmt_arg =
    ArgInt u32 | ArgUInt u32 | ArgLongLong u64 | ArgULongLong u64 | ArgBool bool | ArgChar u32
  | ArgCString u64 "string option" | ArgString string | ArgPointer u64

type_synonym arg_list = "(string option \<times> fmt_arg) list"

text \<open>\<open>type <= LAST_INTEGER_TYPE\<close> and \<open>type <= LAST_NUMERIC_TYPE\<close> agree without floating point.\<close>

definition is_integer_arg :: "fmt_arg \<Rightarrow> bool" where
  "is_integer_arg arg =
     (case arg of
        ArgInt _ \<Rightarrow> True | ArgUInt _ \<Rightarrow> True | ArgLongLong _ \<Rightarrow> True | ArgULongLong _ \<Rightarrow> True
      | ArgBool _ \<Rightarrow> True | ArgChar _ \<Rightarrow> True | _ \<Rightarrow> False)"

definition do_get_arg :: "arg_list \<Rightarrow> nat \<Rightarrow> string + fmt_arg" where
  "do_get_arg args i =
     (if i < length args then Inr (snd (args ! i)) else Inl ''argument index out of range'')"

definition next_arg :: "arg_list \<Rightarrow> int \<Rightarrow> (string + fmt_arg) \<times> int" where
  "next_arg args nx =
     (if 0 \<le> nx then (do_get_arg args (nat nx), nx + 1)
      else (Inl ''cannot switch from manual to automatic argument indexing'', nx))"

definition check_no_auto_index :: "int \<Rightarrow> string + int" where
  "check_no_auto_index nx =
     (if 0 < nx then Inl ''cannot switch from automatic to manual argument indexing'' else Inr (- 1))"

definition get_arg :: "arg_list \<Rightarrow> int \<Rightarrow> nat \<Rightarrow> (string + fmt_arg) \<times> int" where
  "get_arg args nx i =
     (case check_no_auto_index nx of Inl e \<Rightarrow> (Inl e, nx) | Inr nx' \<Rightarrow> (do_get_arg args i, nx'))"

text \<open>\<open>ArgMap::init\<close> inserts the named arguments from the first to the last; \<open>insert\<close> keeps the first of a
  name.\<close>

definition ArgMap :: "arg_list \<Rightarrow> (string \<times> fmt_arg) list" where
  "ArgMap args = concat (map (\<lambda>(n, a). case n of None \<Rightarrow> [] | Some name \<Rightarrow> [(name, a)]) args)"

definition get_named_arg :: "arg_list \<Rightarrow> int \<Rightarrow> string \<Rightarrow> (string + fmt_arg) \<times> int" where
  "get_named_arg args nx name =
     (case check_no_auto_index nx of
        Inl e \<Rightarrow> (Inl e, nx)
      | Inr nx' \<Rightarrow> (case map_of (ArgMap args) name of
                      Some a \<Rightarrow> Inr a | None \<Rightarrow> Inl ''argument not found'', nx'))"

section \<open>Numbers and argument references\<close>

text \<open>The \<open>do\<close> loop: it stops behind the last digit, or behind the digit at which the check for a wrap-around
  fires.\<close>

fun parse_int_loop :: "u32 \<Rightarrow> string \<Rightarrow> u32 \<times> string" where
  "parse_int_loop val [] = (val, [])"
| "parse_int_loop val (c # s) =
     (let new_value = val * 10 + (word_of_nat (of_char c) - 48)
      in if new_value < val then (- 1, s)
         else if is_digit (cur s) then parse_int_loop new_value s
         else (new_value, s))"

definition parse_nonnegative_int :: "string \<Rightarrow> fmt_error + nat \<times> string" where
  "parse_nonnegative_int s =
     (let (val, rest) = parse_int_loop 0 s
      in if 0x7fffffff < val then Inl (FormatError ''number is too big'') else Inr (unat val, rest))"

definition require_numeric_argument :: "fmt_arg \<Rightarrow> char \<Rightarrow> fmt_error + unit" where
  "require_numeric_argument arg spec =
     (if \<not> is_integer_arg arg
      then Inl (FormatError (''format specifier '' @ quoted spec @ '' requires numeric argument''))
      else Inr ())"

definition check_sign :: "fmt_arg \<Rightarrow> string \<Rightarrow> fmt_error + string" where
  "check_sign arg s =
     sbind (require_numeric_argument arg (cur s)) (\<lambda>_.
       case arg of
         ArgUInt _ \<Rightarrow> Inl (FormatError (''format specifier '' @ quoted (cur s) @ '' requires signed argument''))
       | ArgULongLong _ \<Rightarrow>
           Inl (FormatError (''format specifier '' @ quoted (cur s) @ '' requires signed argument''))
       | _ \<Rightarrow> Inr (tl s))"

definition parse_arg_index :: "arg_list \<Rightarrow> int \<Rightarrow> string \<Rightarrow> fmt_error + fmt_arg \<times> int \<times> string" where
  "parse_arg_index args nx s =
     sbind (if is_digit (cur s)
            then sbind (parse_nonnegative_int s) (\<lambda>(i, s'). Inr (get_arg args nx i, s'))
            else Inr (next_arg args nx, s))
       (\<lambda>((r, nx'), s').
          case r of
            Inl error \<Rightarrow>
              Inl (FormatError
                (if cur s' \<noteq> CHR ''}'' \<and> cur s' \<noteq> CHR '':'' then ''invalid format string'' else error))
          | Inr arg \<Rightarrow> Inr (arg, nx', s'))"

definition is_name_char :: "char \<Rightarrow> bool" where
  "is_name_char c \<longleftrightarrow> is_name_start c \<or> is_digit c"

definition parse_arg_name :: "arg_list \<Rightarrow> int \<Rightarrow> string \<Rightarrow> fmt_error + fmt_arg \<times> int \<times> string" where
  "parse_arg_name args nx s =
     (let name = take 1 s @ takeWhile is_name_char (drop 1 s); s' = dropWhile is_name_char (drop 1 s)
      in case get_named_arg args nx name of
           (Inl error, nx') \<Rightarrow> Inl (FormatError error)
         | (Inr arg, nx') \<Rightarrow> Inr (arg, nx', s'))"

definition parse_arg :: "arg_list \<Rightarrow> int \<Rightarrow> string \<Rightarrow> fmt_error + fmt_arg \<times> int \<times> string" where
  "parse_arg args nx s =
     (if is_name_start (cur s) then parse_arg_name args nx s else parse_arg_index args nx s)"

section \<open>The specification of a replacement field\<close>

definition align_of :: "char \<Rightarrow> alignment" where
  "align_of c =
     (if c = CHR ''<'' then ALIGN_LEFT else if c = CHR ''>'' then ALIGN_RIGHT
      else if c = CHR ''='' then ALIGN_NUMERIC else if c = CHR 0x5E then ALIGN_CENTER
      else ALIGN_DEFAULT)"

definition check_numeric_align :: "fmt_arg \<Rightarrow> alignment \<Rightarrow> fmt_error + unit" where
  "check_numeric_align arg al =
     (if al = ALIGN_NUMERIC then require_numeric_argument arg (CHR ''='') else Inr ())"

definition parse_align :: "fmt_arg \<Rightarrow> string \<Rightarrow> format_spec \<Rightarrow> fmt_error + string \<times> format_spec" where
  "parse_align arg s spec =
     (case s of
        [] \<Rightarrow> Inr (s, spec)
      | c # r \<Rightarrow>
          if align_of (cur r) \<noteq> ALIGN_DEFAULT
          then (if c = CHR ''}'' then Inr (s, spec\<lparr>align := align_of (cur r)\<rparr>)
                else if c = CHR ''{''
                then Inl (FormatError (''invalid fill character '' @ quoted (CHR ''{'')))
                else sbind (check_numeric_align arg (align_of (cur r)))
                       (\<lambda>_. Inr (tl r, spec\<lparr>align := align_of (cur r), fill := c\<rparr>)))
          else if align_of c \<noteq> ALIGN_DEFAULT
          then sbind (check_numeric_align arg (align_of c)) (\<lambda>_. Inr (r, spec\<lparr>align := align_of c\<rparr>))
          else Inr (s, spec))"

definition parse_sign :: "fmt_arg \<Rightarrow> string \<Rightarrow> format_spec \<Rightarrow> fmt_error + string \<times> format_spec" where
  "parse_sign arg s spec =
     (if cur s = CHR ''+''
      then sbind (check_sign arg s) (\<lambda>s'. Inr (s', spec\<lparr>flags := flags spec OR (SIGN_FLAG OR PLUS_FLAG)\<rparr>))
      else if cur s = CHR ''-''
      then sbind (check_sign arg s) (\<lambda>s'. Inr (s', spec\<lparr>flags := flags spec OR MINUS_FLAG\<rparr>))
      else if cur s = CHR '' ''
      then sbind (check_sign arg s) (\<lambda>s'. Inr (s', spec\<lparr>flags := flags spec OR SIGN_FLAG\<rparr>))
      else Inr (s, spec))"

definition parse_hash :: "fmt_arg \<Rightarrow> string \<Rightarrow> format_spec \<Rightarrow> fmt_error + string \<times> format_spec" where
  "parse_hash arg s spec =
     (if cur s = CHR ''#''
      then sbind (require_numeric_argument arg (CHR ''#''))
             (\<lambda>_. Inr (tl s, spec\<lparr>flags := flags spec OR HASH_FLAG\<rparr>))
      else Inr (s, spec))"

definition parse_zero :: "fmt_arg \<Rightarrow> string \<Rightarrow> format_spec \<Rightarrow> fmt_error + string \<times> format_spec" where
  "parse_zero arg s spec =
     (if cur s = CHR ''0''
      then sbind (require_numeric_argument arg (CHR ''0''))
             (\<lambda>_. Inr (tl s, spec\<lparr>align := ALIGN_NUMERIC, fill := CHR ''0''\<rparr>))
      else Inr (s, spec))"

text \<open>A width or precision given by another argument; \<open>what\<close> is the word of the error messages.\<close>

definition int_arg_value :: "string \<Rightarrow> fmt_arg \<Rightarrow> fmt_error + nat" where
  "int_arg_value what arg =
     sbind (case arg of
              ArgInt v \<Rightarrow> if sint v < 0 then Inl (FormatError (''negative '' @ what)) else Inr (unat v)
            | ArgUInt v \<Rightarrow> Inr (unat v)
            | ArgLongLong v \<Rightarrow> if sint v < 0 then Inl (FormatError (''negative '' @ what)) else Inr (unat v)
            | ArgULongLong v \<Rightarrow> Inr (unat v)
            | _ \<Rightarrow> Inl (FormatError (what @ '' is not integer'')))
       (\<lambda>v. if v > 0x7fffffff then Inl (FormatError ''number is too big'') else Inr v)"

definition parse_dynamic :: "string \<Rightarrow> arg_list \<Rightarrow> int \<Rightarrow> string \<Rightarrow> fmt_error + nat \<times> int \<times> string" where
  "parse_dynamic what args nx s =
     sbind (parse_arg args nx s) (\<lambda>(a, nx', s').
       if cur s' \<noteq> CHR ''}'' then Inl (FormatError ''invalid format string'')
       else sbind (int_arg_value what a) (\<lambda>v. Inr (v, nx', tl s')))"

definition parse_width ::
  "arg_list \<Rightarrow> int \<Rightarrow> string \<Rightarrow> format_spec \<Rightarrow> fmt_error + int \<times> string \<times> format_spec" where
  "parse_width args nx s spec =
     (if is_digit (cur s)
      then sbind (parse_nonnegative_int s) (\<lambda>(v, s'). Inr (nx, s', spec\<lparr>width := v\<rparr>))
      else if cur s = CHR ''{''
      then sbind (parse_dynamic ''width'' args nx (tl s)) (\<lambda>(v, nx', s'). Inr (nx', s', spec\<lparr>width := v\<rparr>))
      else Inr (nx, s, spec))"

definition parse_precision ::
  "fmt_arg \<Rightarrow> arg_list \<Rightarrow> int \<Rightarrow> string \<Rightarrow> format_spec \<Rightarrow> fmt_error + int \<times> string \<times> format_spec" where
  "parse_precision arg args nx s spec =
     (if cur s \<noteq> CHR ''.'' then Inr (nx, s, spec)
      else
        let s1 = tl s
        in sbind
             (if is_digit (cur s1)
              then sbind (parse_nonnegative_int s1) (\<lambda>(v, s'). Inr (nx, s', spec\<lparr>precision := int v\<rparr>))
              else if cur s1 = CHR ''{''
              then sbind (parse_dynamic ''precision'' args nx (tl s1))
                     (\<lambda>(v, nx', s'). Inr (nx', s', spec\<lparr>precision := int v\<rparr>))
              else Inl (FormatError ''missing precision specifier''))
             (\<lambda>r. if is_integer_arg arg
                  then Inl (FormatError ''precision not allowed in integer format specifier'')
                  else (case arg of
                          ArgPointer _ \<Rightarrow> Inl (FormatError ''precision not allowed in pointer format specifier'')
                        | _ \<Rightarrow> Inr r)))"

definition parse_type :: "string \<Rightarrow> format_spec \<Rightarrow> string \<times> format_spec" where
  "parse_type s spec =
     (if cur s \<noteq> CHR ''}'' \<and> s \<noteq> [] then (tl s, spec\<lparr>type_code := cur s\<rparr>) else (s, spec))"

text \<open>Everything between the colon and the closing brace.\<close>

definition parse_spec ::
  "fmt_arg \<Rightarrow> arg_list \<Rightarrow> int \<Rightarrow> string \<Rightarrow> fmt_error + int \<times> string \<times> format_spec" where
  "parse_spec arg args nx s =
     sbind (parse_align arg s (FormatSpec 0 (CHR 0x00) (CHR '' ''))) (\<lambda>(s1, sp1).
     sbind (parse_sign arg s1 sp1) (\<lambda>(s2, sp2).
     sbind (parse_hash arg s2 sp2) (\<lambda>(s3, sp3).
     sbind (parse_zero arg s3 sp3) (\<lambda>(s4, sp4).
     sbind (parse_width args nx s4 sp4) (\<lambda>(nx5, s5, sp5).
     sbind (parse_precision arg args nx5 s5 sp5) (\<lambda>(nx6, s6, sp6).
       let (s7, sp7) = parse_type s6 sp6 in Inr (nx6, s7, sp7)))))))"

section \<open>Formatting an argument\<close>

definition write_pointer :: "char \<Rightarrow> u64 \<Rightarrow> format_spec \<Rightarrow> char list \<Rightarrow> fmt_error + char list" where
  "write_pointer junk p spec w =
     write_int junk count_digits_64 False p (spec\<lparr>flags := HASH_FLAG, type_code := CHR ''x''\<rparr>) w"

definition visit_bool :: "char \<Rightarrow> bool \<Rightarrow> format_spec \<Rightarrow> char list \<Rightarrow> fmt_error + char list" where
  "visit_bool junk b spec w =
     (if type_code spec \<noteq> CHR 0x00 then write_int junk count_digits_32 False (of_bool b :: u32) spec w
      else write_str_arg junk (Some (if b then ''true'' else ''false'')) spec w)"

definition visit_char :: "char \<Rightarrow> u32 \<Rightarrow> format_spec \<Rightarrow> char list \<Rightarrow> fmt_error + char list" where
  "visit_char junk v spec w =
     (if type_code spec \<noteq> CHR 0x00 \<and> type_code spec \<noteq> CHR ''c''
      then write_int junk count_digits_32 True v (spec\<lparr>flags := flags spec OR CHAR_FLAG\<rparr>) w
      else if align spec = ALIGN_NUMERIC \<or> flags spec \<noteq> 0
      then Inl (FormatError ''invalid format specifier for char'')
      else
        let c = char_of (unat v)
        in Inr (if width spec > 1
             then
               let (w1, out) = grow_buffer junk (width spec) w
               in if align spec = ALIGN_RIGHT
                  then (fill_to out (out + (width spec - 1)) (fill spec) w1)[out + (width spec - 1) := c]
                  else if align spec = ALIGN_CENTER
                  then let (w2, p) = fill_padding out (width spec) 1 (fill spec) w1 in w2[p := c]
                  else (fill_to (out + 1) (out + 1 + (width spec - 1)) (fill spec) w1)[out := c]
             else let (w1, out) = grow_buffer junk 1 w in w1[out := c]))"

definition visit_arg :: "char \<Rightarrow> fmt_arg \<Rightarrow> format_spec \<Rightarrow> char list \<Rightarrow> fmt_error + char list" where
  "visit_arg junk arg spec w =
     (case arg of
        ArgInt v \<Rightarrow> write_int junk count_digits_32 True v spec w
      | ArgUInt v \<Rightarrow> write_int junk count_digits_32 False v spec w
      | ArgLongLong v \<Rightarrow> write_int junk count_digits_64 True v spec w
      | ArgULongLong v \<Rightarrow> write_int junk count_digits_64 False v spec w
      | ArgBool b \<Rightarrow> visit_bool junk b spec w
      | ArgChar v \<Rightarrow> visit_char junk v spec w
      | ArgCString p s \<Rightarrow>
          if type_code spec = CHR ''p'' then write_pointer junk p spec w else write_str_arg junk s spec w
      | ArgString s \<Rightarrow> write_str_arg junk (Some s) spec w
      | ArgPointer p \<Rightarrow>
          if type_code spec \<noteq> CHR 0x00 \<and> type_code spec \<noteq> CHR ''p''
          then Inl (report_unknown_type (type_code spec) ''pointer'')
          else write_pointer junk p spec w)"

definition format_arg ::
  "char \<Rightarrow> arg_list \<Rightarrow> int \<Rightarrow> string \<Rightarrow> fmt_arg \<Rightarrow> char list \<Rightarrow> fmt_error + int \<times> string \<times> char list" where
  "format_arg junk args nx s arg w =
     sbind (if cur s = CHR '':'' then parse_spec arg args nx (tl s)
            else Inr (nx, s, FormatSpec 0 (CHR 0x00) (CHR '' '')))
       (\<lambda>(nx', s', spec).
          if cur s' \<noteq> CHR ''}''
          then Inl (FormatError (''missing '' @ quoted (CHR ''}'') @ '' in format string''))
          else sbind (visit_arg junk arg spec w) (\<lambda>w'. Inr (nx', tl s', w')))"

section \<open>The format string\<close>

text \<open>Every parser moves forward; \<open>format_arg\<close> consumes at least the closing brace.\<close>

lemma parse_int_loop_length: "parse_int_loop v s = (v', s') \<Longrightarrow> length s' \<le> length s"
  by (induction v s rule: parse_int_loop.induct) (fastforce simp: Let_def split: if_splits)+

lemma parse_nonnegative_int_length: "parse_nonnegative_int s = Inr (v, s') \<Longrightarrow> length s' \<le> length s"
  by (auto simp: parse_nonnegative_int_def parse_int_loop_length split: prod.splits if_splits)

lemma parse_arg_length:
  assumes "parse_arg args nx s = Inr (a, nx', s')"
  shows "length s' \<le> length s"
proof (cases "is_name_start (cur s)")
  case True
  then have "s' = dropWhile is_name_char (drop 1 s)"
    using assms by (auto simp: parse_arg_def parse_arg_name_def Let_def split: prod.splits sum.splits)
  then show ?thesis using length_dropWhile_le [of is_name_char "drop 1 s"] by simp
next
  case False
  then obtain r nx1 where "(if is_digit (cur s)
      then sbind (parse_nonnegative_int s) (\<lambda>(i, s'). Inr (get_arg args nx i, s'))
      else Inr (next_arg args nx, s)) = Inr ((r, nx1), s')"
    using assms by (auto simp: parse_arg_def parse_arg_index_def sbind_Inr_iff case_sum_Inr_iff)
  then show ?thesis
    by (auto simp: sbind_Inr_iff dest: parse_nonnegative_int_length split: if_splits)
qed

lemma parse_dynamic_length:
  "parse_dynamic what args nx s = Inr (v, nx', s') \<Longrightarrow> length s' \<le> length s"
  by (fastforce simp: parse_dynamic_def sbind_Inr_iff dest: parse_arg_length split: if_splits)

lemma parse_steps_length:
  "parse_align arg s sp = Inr (s', sp') \<Longrightarrow> length s' \<le> length s"
  "parse_sign arg s sp = Inr (s', sp') \<Longrightarrow> length s' \<le> length s"
  "parse_hash arg s sp = Inr (s', sp') \<Longrightarrow> length s' \<le> length s"
  "parse_zero arg s sp = Inr (s', sp') \<Longrightarrow> length s' \<le> length s"
  "parse_width args nx s sp = Inr (nx', s', sp') \<Longrightarrow> length s' \<le> length s"
  "parse_precision arg args nx s sp = Inr (nx', s', sp') \<Longrightarrow> length s' \<le> length s"
  "parse_type s sp = (s', sp') \<Longrightarrow> length s' \<le> length s"
proof -
  show "parse_align arg s sp = Inr (s', sp') \<Longrightarrow> length s' \<le> length s"
    by (auto simp: parse_align_def sbind_Inr_iff split: list.splits if_splits)
  show "parse_sign arg s sp = Inr (s', sp') \<Longrightarrow> length s' \<le> length s"
    by (auto simp: parse_sign_def check_sign_def sbind_Inr_iff split: if_splits fmt_arg.splits)
  show "parse_hash arg s sp = Inr (s', sp') \<Longrightarrow> length s' \<le> length s"
    by (auto simp: parse_hash_def sbind_Inr_iff split: if_splits)
  show "parse_zero arg s sp = Inr (s', sp') \<Longrightarrow> length s' \<le> length s"
    by (auto simp: parse_zero_def sbind_Inr_iff split: if_splits)
  show "parse_width args nx s sp = Inr (nx', s', sp') \<Longrightarrow> length s' \<le> length s"
    by (fastforce simp: parse_width_def sbind_Inr_iff dest: parse_nonnegative_int_length parse_dynamic_length
        split: if_splits)
  show "parse_precision arg args nx s sp = Inr (nx', s', sp') \<Longrightarrow> length s' \<le> length s"
    by (cases s; cases "tl s")
      (auto simp: parse_precision_def Let_def sbind_Inr_iff dest!: parse_nonnegative_int_length parse_dynamic_length
        split: if_splits fmt_arg.splits)
  show "parse_type s sp = (s', sp') \<Longrightarrow> length s' \<le> length s"
    by (auto simp: parse_type_def split: if_splits)
qed

lemma parse_spec_length:
  "parse_spec arg args nx s = Inr (nx', s', sp') \<Longrightarrow> length s' \<le> length s"
  by (auto simp: parse_spec_def sbind_Inr_iff dest!: parse_steps_length)

lemma format_arg_length:
  "format_arg junk args nx s arg w = Inr (nx', s', w') \<Longrightarrow> length s' < length s"
  by (cases s)
    (fastforce simp: format_arg_def sbind_Inr_iff cur_def dest!: parse_spec_length split: if_splits list.splits)+

text \<open>The loop over the format string: \<open>pend\<close> are the characters from \<open>start\<close> up to the pointer. An exception leaves
  what was written before it in the buffer, so \<open>Inl\<close> holds the buffer too.\<close>

function format_loop ::
  "char \<Rightarrow> arg_list \<Rightarrow> int \<Rightarrow> char list \<Rightarrow> string \<Rightarrow> string \<Rightarrow> fmt_error \<times> char list + char list" where
  "format_loop junk args nx w pend s =
     (case s of
        [] \<Rightarrow> Inr (w @ pend)
      | c # s1 \<Rightarrow>
          if c \<noteq> CHR ''{'' \<and> c \<noteq> CHR ''}'' then format_loop junk args nx w (pend @ [c]) s1
          else if cur s1 = c then format_loop junk args nx (w @ pend @ [c]) [] (tl s1)
          else if c = CHR ''}''
          then Inl (FormatError (''unmatched '' @ quoted (CHR ''}'') @ '' in format string''), w)
          else
            case parse_arg args nx s1 of
              Inl e \<Rightarrow> Inl (e, w @ pend)
            | Inr (arg, nx1, s2) \<Rightarrow>
                (case format_arg junk args nx1 s2 arg (w @ pend) of
                   Inl e \<Rightarrow> Inl (e, w @ pend)
                 | Inr (nx2, s3, w') \<Rightarrow> format_loop junk args nx2 w' [] s3))"
  by pat_completeness auto
termination
  by (relation "measure (\<lambda>(junk, args, nx, w, pend, s). length s)")
    (auto dest!: parse_arg_length format_arg_length)

declare format_loop.simps [simp del]

definition format_write :: "char \<Rightarrow> string \<Rightarrow> arg_list \<Rightarrow> char list \<Rightarrow> fmt_error \<times> char list + char list" where
  "format_write junk format_str args w = format_loop junk args 0 w [] format_str"

lemma format_loop_Nil [simp]: "format_loop junk args nx w pend [] = Inr (w @ pend)"
  by (simp add: format_loop.simps)

lemma format_loop_char:
  "c \<noteq> CHR ''{'' \<Longrightarrow> c \<noteq> CHR ''}'' \<Longrightarrow>
   format_loop junk args nx w pend (c # s) = format_loop junk args nx w (pend @ [c]) s"
  by (simp add: format_loop.simps [of junk args nx w pend "c # s"])

lemma format_loop_brace:
  "c = CHR ''{'' \<or> c = CHR ''}'' \<Longrightarrow>
   format_loop junk args nx w pend (c # c # s) = format_loop junk args nx (w @ pend @ [c]) [] s"
  by (subst format_loop.simps) auto

lemma format_loop_field:
  assumes "cur s \<noteq> CHR ''{''" and "parse_arg args nx s = Inr (arg, nx1, s2)"
    and "format_arg junk args nx1 s2 arg (w @ pend) = Inr (nx2, s3, w')"
  shows "format_loop junk args nx w pend (CHR ''{'' # s) = format_loop junk args nx2 w' [] s3"
  using assms by (subst format_loop.simps) simp

text \<open>Literal text in a format string: braces are doubled.\<close>

definition escape :: "string \<Rightarrow> string" where
  "escape t = concat (map (\<lambda>c. if c = CHR ''{'' \<or> c = CHR ''}'' then [c, c] else [c]) t)"

lemma format_loop_escape:
  "\<exists>w1 p1. w1 @ p1 = w @ pend @ t \<and>
     format_loop junk args nx w pend (escape t @ s) = format_loop junk args nx w1 p1 s"
proof (induction t arbitrary: w pend)
  case Nil
  then show ?case by (auto simp: escape_def)
next
  case (Cons c t)
  show ?case
  proof (cases "c = CHR ''{'' \<or> c = CHR ''}''")
    case True
    then have "format_loop junk args nx w pend (escape (c # t) @ s)
        = format_loop junk args nx (w @ pend @ [c]) [] (escape t @ s)"
      using format_loop_brace [OF True] by (auto simp: escape_def)
    then show ?thesis using Cons.IH [of "w @ pend @ [c]" "[]"] by simp
  next
    case False
    then have "format_loop junk args nx w pend (escape (c # t) @ s)
        = format_loop junk args nx w (pend @ [c]) (escape t @ s)"
      using format_loop_char [of c] by (simp add: escape_def)
    then show ?thesis using Cons.IH [of w "pend @ [c]"] by simp
  qed
qed

text \<open>A template: literal text and automatic fields \<open>{}\<close>; and the text of an argument in a field without
  a specification.\<close>

datatype piece = Lit string | Auto

fun template :: "piece list \<Rightarrow> string" where
  "template [] = []"
| "template (Lit t # ps) = escape t @ template ps"
| "template (Auto # ps) = ''{}'' @ template ps"

definition arg_text :: "fmt_arg \<Rightarrow> string" where
  "arg_text arg =
     (case arg of
        ArgInt v \<Rightarrow> int_digits (sint v) | ArgUInt v \<Rightarrow> nat_digits (unat v)
      | ArgLongLong v \<Rightarrow> int_digits (sint v) | ArgULongLong v \<Rightarrow> nat_digits (unat v)
      | ArgBool b \<Rightarrow> if b then ''true'' else ''false''
      | ArgChar v \<Rightarrow> [char_of (unat v)]
      | ArgCString p s \<Rightarrow> (case s of Some t \<Rightarrow> t | None \<Rightarrow> [])
      | ArgString s \<Rightarrow> s
      | ArgPointer p \<Rightarrow> ''0x'' @ base_digits hex_lower 4 (unat p))"

definition is_null :: "fmt_arg \<Rightarrow> bool" where
  "is_null arg = (case arg of ArgCString _ None \<Rightarrow> True | _ \<Rightarrow> False)"

fun expand :: "piece list \<Rightarrow> fmt_arg list \<Rightarrow> string" where
  "expand [] as = []"
| "expand (Lit t # ps) as = t @ expand ps as"
| "expand (Auto # ps) (a # as) = arg_text a @ expand ps as"
| "expand (Auto # ps) [] = []"

section \<open>Automatic fields\<close>

abbreviation plain_spec :: format_spec where
  "plain_spec \<equiv> FormatSpec 0 (CHR 0x00) (CHR '' '')"

lemma plain_field [simp]: "int_field plain_spec prefix digits = prefix @ digits"
  "str_field plain_spec t = t" "spec_flag plain_spec f = False" "precision plain_spec = - 1"
  "type_code plain_spec = CHR 0x00" "width plain_spec = 0" "flags plain_spec = 0" "align plain_spec = ALIGN_DEFAULT"
  by (simp_all add: int_field_def layout_def layout_plain_def str_field_def FormatSpec_def spec_flag_def)

lemma pointer_field [simp]:
  "int_field (plain_spec\<lparr>flags := f, type_code := c\<rparr>) prefix digits = prefix @ digits"
  by (simp add: int_field_def layout_def layout_plain_def FormatSpec_def)

lemma write_int_32: "write_int junk count_digits_32 sg (v :: u32) spec w =
    (case int_notation sg v spec of
       Some (prefix, digits) \<Rightarrow> Inr (w @ int_field spec prefix digits)
     | None \<Rightarrow> Inl (report_unknown_type (type_code spec) (if spec_flag spec CHAR_FLAG then ''char'' else ''integer'')))"
  by (rule write_int_notation) (simp add: count_digits_32_length)

lemma write_int_64: "write_int junk count_digits_64 sg (v :: u64) spec w =
    (case int_notation sg v spec of
       Some (prefix, digits) \<Rightarrow> Inr (w @ int_field spec prefix digits)
     | None \<Rightarrow> Inl (report_unknown_type (type_code spec) (if spec_flag spec CHAR_FLAG then ''char'' else ''integer'')))"
  by (rule write_int_notation) (simp add: count_digits_64_length)

lemma nat_abs_uint: "nat \<bar>uint v\<bar> = unat v"
  by (simp only: abs_of_nonneg uint_nonnegative unat_eq_nat_uint)

lemma plain_notation:
  "int_notation True v plain_spec = Some (if sint v < 0 then ''-'' else [], nat_digits (nat \<bar>sint v\<bar>))"
  "int_notation False v plain_spec = Some ([], nat_digits (unat v))"
  "int_notation False v (plain_spec\<lparr>flags := HASH_FLAG, type_code := CHR ''x''\<rparr>)
    = Some (''0x'', base_digits hex_lower 4 (unat v))"
  by (simp_all add: int_notation_def int_prefix_def Let_def spec_flag_def nat_abs_uint HASH_FLAG_def SIGN_FLAG_def
    del: unsigned_eq_0_iff abs_of_nonneg)

lemma sign_digits: "(if i < 0 then ''-'' else []) @ nat_digits (nat \<bar>i\<bar>) = int_digits i"
  by (simp add: int_digits_def)

lemma visit_plain:
  assumes "\<not> is_null arg"
  shows "visit_arg junk arg plain_spec w = Inr (w @ arg_text arg)"
proof (cases arg)
  case (ArgCString p s)
  then show ?thesis using assms
    by (cases s) (auto simp: visit_arg_def arg_text_def is_null_def write_str_arg_def write_str_field)
qed (use sign_digits in \<open>auto simp: visit_arg_def arg_text_def write_int_32 write_int_64 plain_notation visit_bool_def
    visit_char_def write_str_arg_def write_str_field grow_buffer_def write_pointer_def\<close>)

lemma parse_auto:
  assumes "k < length args"
  shows "parse_arg args (int k) (CHR ''}'' # s) = Inr (snd (args ! k), int k + 1, CHR ''}'' # s)"
  using assms
  by (simp add: parse_arg_def is_name_start_def is_digit_def parse_arg_index_def next_arg_def do_get_arg_def)

lemma parse_auto_missing:
  assumes "length args \<le> k"
  shows "parse_arg args (int k) (CHR ''}'' # s) = Inl (FormatError ''argument index out of range'')"
  using assms
  by (simp add: parse_arg_def is_name_start_def is_digit_def parse_arg_index_def next_arg_def do_get_arg_def)

definition autos :: "piece list \<Rightarrow> nat" where
  "autos ps = length (filter (\<lambda>p. p = Auto) ps)"

lemma format_loop_template:
  assumes "\<forall>a \<in> set args. \<not> is_null (snd a)" and "k \<le> length args"
  shows "format_loop junk args (int k) w pend (template ps) =
    (if k + autos ps \<le> length args then Inr (w @ pend @ expand ps (drop k (map snd args)))
     else Inl (FormatError ''argument index out of range'', w @ pend @ expand ps (drop k (map snd args))))"
  using assms(2)
proof (induction ps arbitrary: k w pend)
  case Nil
  then show ?case by (simp add: autos_def)
next
  case (Cons p ps)
  show ?case
  proof (cases p)
    case (Lit t)
    obtain w1 p1 where e: "w1 @ p1 = w @ pend @ t"
      and l: "format_loop junk args (int k) w pend (escape t @ template ps) = format_loop junk args (int k) w1 p1 (template ps)"
      using format_loop_escape [of w pend t junk args "int k" "template ps"] by (elim exE conjE)
    have "w1 @ p1 @ x = w @ pend @ t @ x" for x using e by (metis append_assoc)
    then show ?thesis using Cons.IH [OF Cons.prems, of w1 p1] Lit l by (simp add: autos_def)
  next
    case Auto
    show ?thesis
    proof (cases "k < length args")
      case True
      let ?a = "snd (args ! k)"
      have nn: "\<not> is_null ?a" using assms(1) True by simp
      have "format_arg junk args (int k + 1) (CHR ''}'' # template ps) ?a (w @ pend)
          = Inr (int k + 1, template ps, (w @ pend) @ arg_text ?a)"
        by (simp add: format_arg_def visit_plain [OF nn])
      then have "format_loop junk args (int k) w pend (template (p # ps))
          = format_loop junk args (int (Suc k)) (w @ pend @ arg_text ?a) [] (template ps)"
        using format_loop_field [OF _ parse_auto [OF True]] Auto by (simp add: add.commute)
      moreover have "drop k (map snd args) = ?a # drop (Suc k) (map snd args)"
        using True Cons_nth_drop_Suc [of k "map snd args"] by simp
      ultimately show ?thesis using Cons.IH [of "Suc k"] True Auto by (simp add: autos_def)
    next
      case False
      then have "format_loop junk args (int k) w pend (template (p # ps))
          = Inl (FormatError ''argument index out of range'', w @ pend)"
        using Auto parse_auto_missing [of args k "template ps"] by (subst format_loop.simps) simp
      then show ?thesis using False Cons.prems Auto by (simp add: autos_def)
    qed
  qed
qed



section \<open>Numbers in a format string\<close>

abbreviation dval :: "nat \<Rightarrow> char \<Rightarrow> nat" where
  "dval a c \<equiv> a * 10 + (of_char c - 48)"

lemma dval_mono: "a \<le> foldl dval a ds"
proof (induction ds arbitrary: a)
  case (Cons d ds)
  show ?case using Cons [of "dval a d"] by simp
qed simp

lemma parse_int_loop_digits:
  assumes "ds \<noteq> []" and "list_all is_digit ds" and "\<not> is_digit (cur s)" and "foldl dval v ds < 2 ^ 32"
  shows "parse_int_loop (word_of_nat v) (ds @ s) = (word_of_nat (foldl dval v ds), s)"
  using assms
proof (induction ds arbitrary: v)
  case (Cons d ds)
  have d: "48 \<le> (of_char d :: nat)" "(of_char d :: nat) \<le> 57" using Cons.prems by (auto simp: is_digit_def)
  have n: "dval v d < 2 ^ 32"
    using Cons.prems(4) dval_mono [of "dval v d" ds] by simp
  have new: "word_of_nat v * 10 + (word_of_nat (of_char d) - 48) = (word_of_nat (dval v d) :: u32)"
    using d by (simp add: of_nat_diff)
  have un: "unat (word_of_nat m :: u32) = m" if "m < 2 ^ 32" for m
    using that by (simp add: unat_of_nat)
  have "unat (word_of_nat v :: u32) = v" "unat (word_of_nat (dval v d) :: u32) = dval v d"
    using n by (intro un; simp)+
  then have ge: "\<not> (word_of_nat (dval v d) :: u32) < word_of_nat v"
    using n by (simp add: word_less_nat_alt)
  show ?case
  proof (cases ds)
    case Nil
    then show ?thesis using Cons.prems ge new by (simp add: Let_def)
  next
    case (Cons e es)
    then show ?thesis
      using Cons.IH [of "dval v d"] Cons.prems ge new by (simp add: Let_def)
  qed
qed simp

lemma nat_digits_dval: "foldl dval 0 (nat_digits n) = n \<and> list_all is_digit (nat_digits n)"
proof (induction n rule: nat_digits.induct)
  case (1 n)
  have d: "is_digit (char_of (48 + k)) \<and> of_char (char_of (48 + k :: nat)) = 48 + k" if "k < 10" for k
    using that by (simp add: is_digit_def)
  show ?case
  proof (cases "n < 10")
    case True
    then show ?thesis using d [of n] by (simp add: nat_digits_small)
  next
    case False
    then show ?thesis using 1 d [of "n mod 10"] by (simp add: nat_digits_rec)
  qed
qed

lemma parse_digits:
  assumes "n < 2 ^ 31" and "\<not> is_digit (cur s)"
  shows "parse_nonnegative_int (nat_digits n @ s) = Inr (n, s)"
proof -
  have "nat_digits n \<noteq> []" using length_nat_digits_pos [of n] by fastforce
  then have "parse_int_loop 0 (nat_digits n @ s) = (word_of_nat n, s)"
    using parse_int_loop_digits [of "nat_digits n" s 0] nat_digits_dval [of n] assms by simp
  moreover have "unat (word_of_nat n :: u32) = n" using assms by (simp add: unat_of_nat)
  ultimately show ?thesis
    using assms(1) by (simp add: parse_nonnegative_int_def word_less_nat_alt)
qed

text \<open>Numbers up to \<open>INT_MAX\<close> in a format string are read as they are. The check for a wrap-around only compares
  with the previous value, which a wrapped product can exceed: \<open>14316557660\<close> is accepted as
  \<open>1431655772\<close> instead of being rejected as too big.\<close>

theorem parse_nonnegative_int_wraps:
  "(n < 2 ^ 31 \<and> \<not> is_digit (cur s) \<longrightarrow> parse_nonnegative_int (nat_digits n @ s) = Inr (n, s))
   \<and> nat_digits 14316557660 = ''14316557660''
   \<and> parse_nonnegative_int ''14316557660}'' = Inr (1431655772, ''}'')"
proof (intro conjI impI)
  assume "n < 2 ^ 31 \<and> \<not> is_digit (cur s)"
  then show "parse_nonnegative_int (nat_digits n @ s) = Inr (n, s)" by (simp add: parse_digits)
next
  show "nat_digits 14316557660 = ''14316557660''"
    by (simp add: nat_digits_rec nat_digits_small digit_chars)
next
  show "parse_nonnegative_int ''14316557660}'' = Inr (1431655772, ''}'')"
    by (simp add: parse_nonnegative_int_def Let_def is_digit_def)
qed

theorem parse_nonnegative_int_wraps_witness:
  "parse_nonnegative_int (nat_digits 42 @ ''}'') = Inr (42, ''}'')"
  using parse_nonnegative_int_wraps [of 42 "''}''"] by (simp add: is_digit_def)

section \<open>Specifications in a format string\<close>

text \<open>The text of a specification, and which specifications an argument admits.\<close>

definition align_char :: "alignment \<Rightarrow> char" where
  "align_char al =
     (case al of ALIGN_LEFT \<Rightarrow> CHR ''<'' | ALIGN_RIGHT \<Rightarrow> CHR ''>'' | ALIGN_NUMERIC \<Rightarrow> CHR ''=''
      | ALIGN_CENTER \<Rightarrow> CHR 0x5E | ALIGN_DEFAULT \<Rightarrow> CHR ''?'')"

definition sign_string :: "u32 \<Rightarrow> string" where
  "sign_string f =
     (if f AND PLUS_FLAG \<noteq> 0 then ''+'' else if f AND MINUS_FLAG \<noteq> 0 then ''-''
      else if f AND SIGN_FLAG \<noteq> 0 then '' '' else [])"

definition tail_string :: "format_spec \<Rightarrow> string" where
  "tail_string sp =
     (if precision sp < 0 then [] else CHR ''.'' # nat_digits (nat (precision sp)))
     @ (if type_code sp = CHR 0x00 then [] else [type_code sp])"

definition width_string :: "format_spec \<Rightarrow> string" where
  "width_string sp = (if width sp = 0 then [] else nat_digits (width sp))"

definition spec_string :: "format_spec \<Rightarrow> string" where
  "spec_string sp =
     [fill sp, align_char (align sp)] @ sign_string (flags sp)
     @ (if flags sp AND HASH_FLAG \<noteq> 0 then ''#'' else [])
     @ width_string sp @ tail_string sp"

definition sign_values :: "u32 list" where
  "sign_values = [0, SIGN_FLAG OR PLUS_FLAG, MINUS_FLAG, SIGN_FLAG]"

definition spec_fits :: "fmt_arg \<Rightarrow> format_spec \<Rightarrow> bool" where
  "spec_fits arg sp \<longleftrightarrow>
     fill sp \<noteq> CHR ''{'' \<and> fill sp \<noteq> CHR ''}'' \<and> align sp \<noteq> ALIGN_DEFAULT \<and> width sp < 2 ^ 31
     \<and> (type_code sp = CHR 0x00 \<or> is_name_start (type_code sp))
     \<and> (case arg of
          ArgInt _ \<Rightarrow> flags sp \<in> set (sign_values @ map ((OR) HASH_FLAG) sign_values) \<and> precision sp = - 1
        | ArgLongLong _ \<Rightarrow> flags sp \<in> set (sign_values @ map ((OR) HASH_FLAG) sign_values) \<and> precision sp = - 1
        | ArgUInt _ \<Rightarrow> flags sp \<in> {0, HASH_FLAG} \<and> precision sp = - 1
        | ArgULongLong _ \<Rightarrow> flags sp \<in> {0, HASH_FLAG} \<and> precision sp = - 1
        | ArgString _ \<Rightarrow> flags sp = 0 \<and> align sp \<noteq> ALIGN_NUMERIC \<and> - 1 \<le> precision sp \<and> precision sp < 2 ^ 31
        | ArgCString _ _ \<Rightarrow>
            flags sp = 0 \<and> align sp \<noteq> ALIGN_NUMERIC \<and> - 1 \<le> precision sp \<and> precision sp < 2 ^ 31
        | _ \<Rightarrow> False)"

lemma parse_align_string:
  assumes "spec_fits arg sp"
  shows "parse_align arg (fill sp # align_char (align sp) # s) spec0 = Inr (s, spec0\<lparr>align := align sp, fill := fill sp\<rparr>)"
  using assms
  by (cases arg; cases "align sp")
    (auto simp: parse_align_def align_char_def align_of_def spec_fits_def check_numeric_align_def
      require_numeric_argument_def is_integer_arg_def)

lemma name_start_special:
  "is_name_start c \<Longrightarrow> c \<notin> set ''+- #0123456789{.}''"
  by (auto simp: is_name_start_def)

lemma digit_special: "is_digit c \<Longrightarrow> c \<notin> set ''+- #{.}''"
  by (auto simp: is_digit_def)

lemma name_start_digit: "is_name_start c \<Longrightarrow> \<not> is_digit c"
  by (auto simp: is_name_start_def is_digit_def)

lemma nat_digits_head: "0 < n \<Longrightarrow> \<exists>d ds. nat_digits n = d # ds \<and> is_digit d \<and> d \<noteq> CHR ''0''"
proof (induction n rule: nat_digits.induct)
  case (1 n)
  show ?case
  proof (cases "n < 10")
    case True
    have "char_of (48 + n) \<noteq> CHR ''0''"
    proof
      assume "char_of (48 + n) = CHR ''0''"
      then have "of_char (char_of (48 + n)) = (of_char (CHR ''0'') :: nat)" by simp
      then show False using True 1 by simp
    qed
    then show ?thesis using True by (simp add: nat_digits_small is_digit_def)
  next
    case False
    then have "0 < n div 10" by (simp add: div_greater_zero_iff)
    then obtain d ds where "nat_digits (n div 10) = d # ds" "is_digit d" "d \<noteq> CHR ''0''"
      using 1 False by blast
    then show ?thesis using False by (simp add: nat_digits_rec [of n])
  qed
qed

text \<open>The rest of the text after the width begins neither with a digit nor with a character that an earlier
  step would take.\<close>

lemma tail_start:
  assumes "type_code sp = CHR 0x00 \<or> is_name_start (type_code sp)"
  shows "\<not> is_digit (cur (tail_string sp @ CHR ''}'' # s))"
    and "cur (tail_string sp @ CHR ''}'' # s) \<notin> set ''+- #0{''"
    and "precision sp < 0 \<Longrightarrow> cur (tail_string sp @ CHR ''}'' # s) \<noteq> CHR ''.''"
  using assms name_start_special [of "type_code sp"] name_start_digit [of "type_code sp"]
  by (auto simp: tail_string_def is_digit_def)

lemma width_start:
  assumes "type_code sp = CHR 0x00 \<or> is_name_start (type_code sp)"
  shows "cur (width_string sp @ tail_string sp @ CHR ''}'' # s) \<notin> set ''+- #0''"
proof (cases "width sp = 0")
  case True
  then show ?thesis using tail_start(2) [OF assms, of s] by (simp add: width_string_def)
next
  case False
  then obtain d ds where "nat_digits (width sp) = d # ds" "is_digit d" "d \<noteq> CHR ''0''"
    using nat_digits_head [of "width sp"] by auto
  then show ?thesis using False digit_special [of d] by (simp add: width_string_def)
qed

lemma parse_width_string:
  assumes "type_code sp = CHR 0x00 \<or> is_name_start (type_code sp)" and "width sp < 2 ^ 31" and "width sp0 = 0"
  shows "parse_width args nx (width_string sp @ tail_string sp @ CHR ''}'' # s) sp0
    = Inr (nx, tail_string sp @ CHR ''}'' # s, sp0\<lparr>width := width sp\<rparr>)"
proof (cases "width sp = 0")
  case True
  then show ?thesis
    using tail_start(1,2) [OF assms(1), of s] assms(3) by (simp add: width_string_def parse_width_def)
next
  case False
  then obtain d ds where "nat_digits (width sp) = d # ds" "is_digit d"
    using nat_digits_head [of "width sp"] by auto
  then show ?thesis
    using False parse_digits [OF assms(2) tail_start(1) [OF assms(1), of s]]
    by (simp add: width_string_def parse_width_def)
qed

lemma parse_tail_string:
  assumes "type_code sp = CHR 0x00 \<or> is_name_start (type_code sp)"
    and "precision sp = - 1 \<or> \<not> is_integer_arg arg \<and> (\<nexists>p. arg = ArgPointer p) \<and> 0 \<le> precision sp \<and> precision sp < 2 ^ 31"
    and "precision sp0 = - 1" and "type_code sp0 = CHR 0x00"
  shows "sbind (parse_precision arg args nx (tail_string sp @ CHR ''}'' # s) sp0)
      (\<lambda>(nx6, s6, sp6). let (s7, sp7) = parse_type s6 sp6 in Inr (nx6, s7, sp7))
    = Inr (nx, CHR ''}'' # s, sp0\<lparr>precision := precision sp, type_code := type_code sp\<rparr>)"
proof -
  let ?t = "(if type_code sp = CHR 0x00 then [] else [type_code sp]) @ CHR ''}'' # s"
  have ty: "parse_type ?t x = (CHR ''}'' # s, x\<lparr>type_code := type_code sp\<rparr>)"
    if "type_code x = CHR 0x00" for x :: format_spec
    using that assms(1) name_start_special [of "type_code sp"] by (auto simp: parse_type_def)
  have nd: "\<not> is_digit (cur ?t)"
    using assms(1) name_start_digit [of "type_code sp"] by (auto simp: is_digit_def)
  show ?thesis
  proof (cases "precision sp = - 1")
    case True
    then have "parse_precision arg args nx (tail_string sp @ CHR ''}'' # s) sp0 = Inr (nx, ?t, sp0)"
      using tail_start(3) [OF assms(1), of s] by (simp add: parse_precision_def tail_string_def)
    then show ?thesis using True assms(3,4) ty [of sp0] by simp
  next
    case False
    then have p: "0 \<le> precision sp" "nat (precision sp) < 2 ^ 31" "\<not> is_integer_arg arg" "\<nexists>p. arg = ArgPointer p"
      using assms(2) by auto
    have "\<exists>d ds. nat_digits (nat (precision sp)) = d # ds \<and> is_digit d"
      using nat_digits_dval [of "nat (precision sp)"] length_nat_digits_pos [of "nat (precision sp)"]
      by (cases "nat_digits (nat (precision sp))") auto
    then have "parse_precision arg args nx (tail_string sp @ CHR ''}'' # s) sp0
        = Inr (nx, ?t, sp0\<lparr>precision := precision sp\<rparr>)"
      using p parse_digits [OF p(2) nd]
      by (cases arg) (auto simp: parse_precision_def tail_string_def is_integer_arg_def)
    then show ?thesis using assms(4) ty [of "sp0\<lparr>precision := precision sp\<rparr>"] by simp
  qed
qed


lemma flag_values: "SIGN_FLAG OR PLUS_FLAG = 3" "HASH_FLAG OR 0 = 8" "HASH_FLAG OR 3 = 11" "HASH_FLAG OR MINUS_FLAG = 12"
  "HASH_FLAG OR SIGN_FLAG = 9" "MINUS_FLAG = 4" "SIGN_FLAG = 1" "PLUS_FLAG = 2" "HASH_FLAG = 8"
  by (simp_all add: SIGN_FLAG_def PLUS_FLAG_def HASH_FLAG_def MINUS_FLAG_def)

lemma parse_flags_string:
  assumes "spec_fits arg sp" and "cur t \<notin> set ''+- #''" and "flags sp0 = 0"
  shows "sbind (parse_sign arg (sign_string (flags sp) @ (if flags sp AND HASH_FLAG \<noteq> 0 then ''#'' else []) @ t) sp0)
      (\<lambda>(s2, sp2). parse_hash arg s2 sp2) = Inr (t, sp0\<lparr>flags := flags sp\<rparr>)"
proof -
  consider "flags sp = 0"
    | "flags sp \<in> {1, 3, 4, 9, 11, 12}" "\<And>u. check_sign arg u = Inr (tl u)" "is_integer_arg arg"
    | "flags sp = 8" "is_integer_arg arg"
    using assms(1)
    by (cases arg) (auto simp: spec_fits_def sign_values_def flag_values is_integer_arg_def check_sign_def
        require_numeric_argument_def)
  then show ?thesis
    by cases (use assms(2,3) in \<open>auto simp: sign_string_def flag_values parse_sign_def parse_hash_def
      require_numeric_argument_def\<close>)
qed

lemma parse_spec_string:
  assumes "spec_fits arg sp"
  shows "parse_spec arg args nx (spec_string sp @ CHR ''}'' # s) = Inr (nx, CHR ''}'' # s, sp)"
proof -
  let ?W = "width_string sp @ tail_string sp @ CHR ''}'' # s"
  let ?F = "(if flags sp AND HASH_FLAG \<noteq> 0 then ''#'' else []) @ ?W"
  have ty: "type_code sp = CHR 0x00 \<or> is_name_start (type_code sp)" "width sp < 2 ^ 31"
    using assms by (auto simp: spec_fits_def)
  have pr: "precision sp = - 1 \<or> \<not> is_integer_arg arg \<and> (\<nexists>p. arg = ArgPointer p) \<and> 0 \<le> precision sp \<and> precision sp < 2 ^ 31"
    using assms by (cases arg) (auto simp: spec_fits_def is_integer_arg_def)
  define sp1 where "sp1 = plain_spec\<lparr>align := align sp, fill := fill sp\<rparr>"
  have "parse_align arg (spec_string sp @ CHR ''}'' # s) plain_spec = Inr (sign_string (flags sp) @ ?F, sp1)"
    using parse_align_string [OF assms, of "sign_string (flags sp) @ ?F" plain_spec]
    by (simp add: spec_string_def sp1_def)
  moreover have "cur ?W \<notin> set ''+- #0''" by (rule width_start [OF ty(1)])
  moreover obtain s2 sp2 where
    "parse_sign arg (sign_string (flags sp) @ ?F) sp1 = Inr (s2, sp2)" and
    "parse_hash arg s2 sp2 = Inr (?W, sp1\<lparr>flags := flags sp\<rparr>)"
    using parse_flags_string [OF assms, of ?W sp1] calculation(2)
    by (auto simp: sp1_def FormatSpec_def elim!: sbind_InrE)
  moreover have "parse_zero arg ?W (sp1\<lparr>flags := flags sp\<rparr>) = Inr (?W, sp1\<lparr>flags := flags sp\<rparr>)"
    using calculation(2) by (simp add: parse_zero_def)
  moreover note parse_width_string [OF ty, of "sp1\<lparr>flags := flags sp\<rparr>" args nx s]
    parse_tail_string [OF ty(1) pr, of "sp1\<lparr>flags := flags sp, width := width sp\<rparr>" args nx s]
  moreover have "sp1\<lparr>flags := flags sp, width := width sp, precision := precision sp, type_code := type_code sp\<rparr> = sp"
    by (simp add: sp1_def FormatSpec_def)
  ultimately show ?thesis by (simp add: parse_spec_def sp1_def FormatSpec_def)
qed


definition zero_padded :: format_spec where
  "zero_padded = \<lparr>width = 5, fill = CHR ''0'', align = ALIGN_NUMERIC, flags = 3, precision = - 1, type_code = CHR ''d''\<rparr>"


section \<open>No write leaves the buffer\<close>

definition in_buffer :: "fmt_error + 'a \<Rightarrow> bool" where
  "in_buffer r \<longleftrightarrow> r \<noteq> Inl Overrun"

lemma in_buffer_simps [simp]: "in_buffer (Inr x)" "in_buffer (Inl (FormatError e))" "\<not> in_buffer (Inl Overrun)"
  by (simp_all add: in_buffer_def)

lemma in_buffer_sbind [intro]: "in_buffer r \<Longrightarrow> (\<And>x. in_buffer (f x)) \<Longrightarrow> in_buffer (sbind r f)"
  by (cases r) (auto simp: in_buffer_def)

lemma report_in_buffer [simp]: "in_buffer (Inl (report_unknown_type c t))"
  by (simp add: report_unknown_type_def Let_def)

lemma parse_number_in_buffer [simp]: "in_buffer (parse_nonnegative_int s)"
  by (simp add: parse_nonnegative_int_def split: prod.split)

lemma parse_numeric_in_buffer [simp]: "in_buffer (require_numeric_argument arg c)" "in_buffer (check_numeric_align arg al)"
  "in_buffer (int_arg_value what arg)"
  by (auto simp: require_numeric_argument_def check_numeric_align_def int_arg_value_def split: fmt_arg.split)

lemma check_sign_in_buffer [simp]: "in_buffer (check_sign arg s)"
  unfolding check_sign_def by (rule in_buffer_sbind) (simp_all split: fmt_arg.split)

lemma parse_arg_in_buffer [simp]: "in_buffer (parse_arg args nx s)"
proof -
  have "in_buffer (parse_arg_index args nx s)"
    unfolding parse_arg_index_def
    by (rule in_buffer_sbind) (auto simp: case_prod_beta split: sum.split)
  moreover have "in_buffer (parse_arg_name args nx s)"
    unfolding parse_arg_name_def Let_def by (simp split: prod.split sum.split)
  ultimately show ?thesis by (simp add: parse_arg_def)
qed

lemma parse_dynamic_in_buffer [simp]: "in_buffer (parse_dynamic what args nx s)"
  unfolding parse_dynamic_def by (rule in_buffer_sbind) (auto split: prod.split)

lemma parse_spec_in_buffer [simp]: "in_buffer (parse_spec arg args nx s)"
proof -
  have "in_buffer (parse_align arg s sp)" "in_buffer (parse_sign arg s sp)" "in_buffer (parse_hash arg s sp)"
    "in_buffer (parse_zero arg s sp)" "in_buffer (parse_width args nx s sp)" for s sp nx
    by (auto simp: parse_align_def parse_sign_def parse_hash_def parse_zero_def parse_width_def case_prod_beta
        split: list.split)
  moreover have "in_buffer (parse_precision arg args nx s sp)" for s sp nx
  proof (cases "cur s = CHR ''.''")
    case True
    have p: "in_buffer (if is_digit (cur (tl s))
        then sbind (parse_nonnegative_int (tl s)) (\<lambda>(v, s'). Inr (nx, s', sp\<lparr>precision := int v\<rparr>))
        else if cur (tl s) = CHR ''{''
        then sbind (parse_dynamic ''precision'' args nx (tl (tl s))) (\<lambda>(v, nx', s'). Inr (nx', s', sp\<lparr>precision := int v\<rparr>))
        else Inl (FormatError ''missing precision specifier''))"
      by (auto simp: case_prod_beta)
    show ?thesis
      by (simp only: parse_precision_def Let_def True simp_thms if_False, rule in_buffer_sbind [OF p])
        (simp split: fmt_arg.split)
  qed (simp add: parse_precision_def)
  ultimately show ?thesis
    unfolding parse_spec_def by (intro in_buffer_sbind) (auto simp: case_prod_beta intro!: in_buffer_sbind)
qed

lemma write_str_arg_in_buffer [simp]: "in_buffer (write_str_arg junk s spec w)"
  by (simp add: write_str_arg_def Let_def split: option.split)

lemma write_int_in_buffer [simp]:
  "in_buffer (write_int junk count_digits_32 sg (v :: u32) spec w)" "in_buffer (write_int junk count_digits_64 sg (v' :: u64) spec w)"
  by (simp_all add: write_int_32 write_int_64 split: option.split prod.split)

lemma visit_arg_in_buffer [simp]: "in_buffer (visit_arg junk arg spec w)"
  by (cases arg) (simp_all add: visit_arg_def visit_bool_def visit_char_def write_pointer_def Let_def)

lemma format_arg_in_buffer [simp]: "in_buffer (format_arg junk args nx s arg w)"
  unfolding format_arg_def by (rule in_buffer_sbind) (auto simp: case_prod_beta)

lemma format_loop_in_buffer: "format_loop junk args nx w pend s \<noteq> Inl (Overrun, t)"
proof (induction junk args nx w pend s rule: format_loop.induct)
  case (1 junk args nx w pend s)
  have p: "parse_arg args nx s1 \<noteq> Inl Overrun" for s1
    using parse_arg_in_buffer [of args nx s1] by (simp add: in_buffer_def)
  have f: "format_arg junk args nx1 s2 arg w1 \<noteq> Inl Overrun" for nx1 s2 arg w1
    using format_arg_in_buffer [of junk args nx1 s2 arg w1] by (simp add: in_buffer_def)
  show ?case
    using 1 p f by (subst format_loop.simps) (auto split: list.split sum.split prod.split)
qed


end
