(* ===== verification/FmtArgs.thy ===== *)
theory FmtArgs
  imports FmtFormat
begin

text \<open>
  How the formatting library passes arguments: \<open>make_arg_list\<close>, \<open>ArgList\<close> and \<open>ArgMap\<close> of
  \<open>src/common/spdlog/include/details/format.h\<close> and \<open>format.cc\<close>.

  The types of the first 16 arguments are packed into a word of 64 bits, four bits each. Fewer than 16 arguments
  are an array of values without types; from 16 on the array elements have a type field, which is
  set only if there are more than 16, and one more element of type \<open>NONE\<close> ends the array. A
  value is the argument it was made from; a read outside the array is \<open>None\<close>, and a field that
  was not set is an arbitrary number (\<open>junk\<close>).
\<close>

section \<open>Types and values\<close>

text \<open>The arguments by their C++ types, and \<open>MakeValue\<close>: \<open>long\<close> has the size of \<open>long long\<close>, and \<open>char\<close> is signed. The
  strings \<open>std::string\<close> and \<open>StringRef\<close> keep their size; the pointers to characters may be null.\<close>

datatype cpp_value =
    V_bool bool | V_char u8 | V_signed_char u8 | V_unsigned_char u8 | V_short u16 | V_unsigned_short u16
  | V_int u32 | V_unsigned u32 | V_long u64 | V_unsigned_long u64 | V_long_long u64 | V_unsigned_long_long u64
  | V_c_string u64 "string option" | V_string string | V_pointer u64

definition MakeValue :: "cpp_value \<Rightarrow> fmt_arg" where
  "MakeValue v =
     (case v of
        V_bool b \<Rightarrow> ArgBool b
      | V_short x \<Rightarrow> ArgInt (scast x)
      | V_unsigned_short x \<Rightarrow> ArgUInt (ucast x)
      | V_int x \<Rightarrow> ArgInt x
      | V_unsigned x \<Rightarrow> ArgUInt x
      | V_long x \<Rightarrow> ArgLongLong x
      | V_unsigned_long x \<Rightarrow> ArgULongLong x
      | V_long_long x \<Rightarrow> ArgLongLong x
      | V_unsigned_long_long x \<Rightarrow> ArgULongLong x
      | V_signed_char x \<Rightarrow> ArgInt (scast x)
      | V_unsigned_char x \<Rightarrow> ArgUInt (ucast x)
      | V_char x \<Rightarrow> ArgChar (scast x)
      | V_c_string p s \<Rightarrow> ArgCString p s
      | V_string s \<Rightarrow> ArgString s
      | V_pointer p \<Rightarrow> ArgPointer p)"

type_synonym fmt_value = "string option \<times> fmt_arg"

definition NONE :: u64 where "NONE = 0"
definition NAMED_ARG :: u64 where "NAMED_ARG = 1"

text \<open>\<open>MakeValue::type\<close>.\<close>

definition arg_type :: "fmt_value \<Rightarrow> u64" where
  "arg_type v =
     (if fst v \<noteq> None then NAMED_ARG
      else case snd v of
             ArgInt _ \<Rightarrow> 2 | ArgUInt _ \<Rightarrow> 3 | ArgLongLong _ \<Rightarrow> 4 | ArgULongLong _ \<Rightarrow> 5 | ArgBool _ \<Rightarrow> 6 | ArgChar _ \<Rightarrow> 7
           | ArgCString _ _ \<Rightarrow> 10 | ArgString _ \<Rightarrow> 11 | ArgPointer _ \<Rightarrow> 13)"

fun make_type :: "fmt_value list \<Rightarrow> u64" where
  "make_type [] = 0"
| "make_type (v # vs) = arg_type v OR push_bit 4 (make_type vs)"

record packed_args =
  packed_types :: u64
  vals :: "fmt_value list"
  elem_types :: "u64 list"

definition MAX_PACKED_ARGS :: nat where "MAX_PACKED_ARGS = 16"

text \<open>\<open>set_types\<close>, for an array with type fields.\<close>

definition set_types :: "u64 \<Rightarrow> fmt_value list \<Rightarrow> u64 list" where
  "set_types junk vs =
     (if length vs > MAX_PACKED_ARGS then map arg_type vs else replicate (length vs) junk) @ [NONE]"

definition make_arg_list :: "u64 \<Rightarrow> fmt_value list \<Rightarrow> packed_args" where
  "make_arg_list junk vs =
     \<lparr>packed_types = make_type vs, vals = vs, elem_types = (if length vs \<ge> MAX_PACKED_ARGS then set_types junk vs else [])\<rparr>"

section \<open>Access\<close>

definition ArgList_type :: "packed_args \<Rightarrow> nat \<Rightarrow> u64" where
  "ArgList_type l index =
     (let shift = index * 4 in drop_bit shift (packed_types l AND push_bit shift 0xf))"

definition array_read :: "'a list \<Rightarrow> nat \<Rightarrow> 'a option" where
  "array_read xs i = (if i < length xs then Some (xs ! i) else None)"

text \<open>The search for the end of the array from \<open>i\<close> up to \<open>index\<close>: whether it was found.\<close>

function ends_before :: "packed_args \<Rightarrow> nat \<Rightarrow> nat \<Rightarrow> bool option" where
  "ends_before l i index =
     (if i > index then Some False
      else case array_read (elem_types l) i of
             None \<Rightarrow> None
           | Some t \<Rightarrow> if t = NONE then Some True else ends_before l (i + 1) index)"
  by pat_completeness auto
termination by (relation "measure (\<lambda>(l, i, index). index + 1 - i)") auto

declare ends_before.simps [simp del]

text \<open>\<open>operator[]\<close>: the type and, unless it is \<open>NONE\<close>, the value.\<close>

definition ArgList_get :: "packed_args \<Rightarrow> nat \<Rightarrow> (u64 \<times> fmt_value option) option" where
  "ArgList_get l index =
     (let use_values = (ArgList_type l (MAX_PACKED_ARGS - 1) = NONE)
      in if index < MAX_PACKED_ARGS
         then (let t = ArgList_type l index
               in if t \<noteq> NONE then map_option (\<lambda>v. (t, Some v)) (array_read (vals l) index) else Some (t, None))
         else if use_values then Some (NONE, None)
         else case ends_before l MAX_PACKED_ARGS index of
                None \<Rightarrow> None
              | Some True \<Rightarrow> Some (NONE, None)
              | Some False \<Rightarrow>
                  (case (array_read (elem_types l) index, array_read (vals l) index) of
                     (Some t, Some v) \<Rightarrow> Some (t, Some v)
                   | _ \<Rightarrow> None))"

text \<open>\<open>FormatterBase::do_get_arg\<close> over it.\<close>

definition packed_get_arg :: "packed_args \<Rightarrow> nat \<Rightarrow> (string + fmt_arg) option" where
  "packed_get_arg l index =
     map_option (\<lambda>(t, v). if t = NONE then Inl ''argument index out of range'' else Inr (snd (the v))) (ArgList_get l index)"

text \<open>\<open>ArgMap::init\<close>: the named arguments in the order in which they are inserted.\<close>

definition named_at :: "u64 \<Rightarrow> packed_args \<Rightarrow> nat \<Rightarrow> (string \<times> fmt_arg) list option" where
  "named_at t l i =
     (if t = NAMED_ARG then map_option (\<lambda>v. [(the (fst v), snd v)]) (array_read (vals l) i) else Some [])"

definition append2 :: "'a list option \<Rightarrow> 'a list option \<Rightarrow> 'a list option" where
  "append2 x y = Option.bind x (\<lambda>xs. map_option (\<lambda>ys. xs @ ys) y)"

function init_values :: "packed_args \<Rightarrow> nat \<Rightarrow> (string \<times> fmt_arg) list option" where
  "init_values l i =
     (if i \<ge> MAX_PACKED_ARGS then None
      else if ArgList_type l i = NONE then Some []
      else append2 (named_at (ArgList_type l i) l i) (init_values l (i + 1)))"
  by pat_completeness auto
termination by (relation "measure (\<lambda>(l, i). MAX_PACKED_ARGS - i)") auto

function init_packed :: "packed_args \<Rightarrow> nat \<Rightarrow> (string \<times> fmt_arg) list option" where
  "init_packed l i =
     (if i \<ge> MAX_PACKED_ARGS then Some [] else append2 (named_at (ArgList_type l i) l i) (init_packed l (i + 1)))"
  by pat_completeness auto
termination by (relation "measure (\<lambda>(l, i). MAX_PACKED_ARGS - i)") auto

function init_rest :: "packed_args \<Rightarrow> nat \<Rightarrow> (string \<times> fmt_arg) list option" where
  "init_rest l i =
     (case array_read (elem_types l) i of
        None \<Rightarrow> None
      | Some t \<Rightarrow> if t = NONE then Some [] else append2 (named_at t l i) (init_rest l (i + 1)))"
  by pat_completeness auto
termination by (relation "measure (\<lambda>(l, i). length (elem_types l) - i)") (auto simp: array_read_def split: if_splits)

declare init_values.simps [simp del] init_packed.simps [simp del] init_rest.simps [simp del]

definition ArgMap_init :: "packed_args \<Rightarrow> (string \<times> fmt_arg) list option" where
  "ArgMap_init l =
     (if ArgList_type l (MAX_PACKED_ARGS - 1) = NONE then init_values l 0
      else append2 (init_packed l 0) (init_rest l MAX_PACKED_ARGS))"

section \<open>The packed list is the list\<close>

lemma arg_type_range: "arg_type v \<noteq> 0" "take_bit 4 (arg_type v) = arg_type v"
  by (cases "snd v"; cases "fst v"; simp add: arg_type_def NAMED_ARG_def)+

lemma ArgList_type_bits: "ArgList_type l i = take_bit 4 (drop_bit (i * 4) (packed_types l))"
proof -
  have m: "(0xf :: int) = mask 4" by (simp add: mask_eq_exp_minus_1)
  have f: "bit (0xf :: int) n \<longleftrightarrow> n < 4" for n unfolding m by (auto simp: bit_mask_iff)
  show ?thesis
  proof (rule bit_eqI)
    fix n
    show "bit (ArgList_type l i) n = bit (take_bit 4 (drop_bit (i * 4) (packed_types l))) n"
      using bit_imp_le_length [of "packed_types l" "i * 4 + n"]
      by (auto simp: ArgList_type_def Let_def bit_drop_bit_eq bit_and_iff bit_push_bit_iff bit_take_bit_iff f)
  qed
qed

lemma make_type_nth: "i < 16 \<Longrightarrow> take_bit 4 (drop_bit (i * 4) (make_type vs)) = (if i < length vs then arg_type (vs ! i) else 0)"
proof (induction vs arbitrary: i)
  case (Cons v vs)
  show ?case
  proof (cases i)
    case 0
    have "take_bit 4 (arg_type v OR push_bit 4 (make_type vs)) = take_bit 4 (arg_type v)"
      by (intro bit_eqI) (auto simp: bit_simps)
    then show ?thesis using 0 arg_type_range(2) by simp
  next
    case (Suc j)
    have "\<not> bit (arg_type v) n" if "4 \<le> n" for n using arg_type_range(2) [of v] that by (metis bit_take_bit_iff linorder_not_less)
    then have "take_bit 4 (drop_bit (i * 4) (make_type (v # vs))) = take_bit 4 (drop_bit (j * 4) (make_type vs))"
      using Cons.prems Suc by (intro bit_eqI) (auto simp: bit_simps)
    then show ?thesis using Cons.IH [of j] Cons.prems Suc by simp
  qed
qed simp

lemma packed_type: "i < 16 \<Longrightarrow> ArgList_type (make_arg_list junk vs) i = (if i < length vs then arg_type (vs ! i) else NONE)"
  by (simp add: ArgList_type_bits make_arg_list_def make_type_nth NONE_def)


lemma packed_elem:
  assumes "16 \<le> length vs" and "16 \<le> i"
  shows "array_read (elem_types (make_arg_list junk vs)) i
    = (if i < length vs then Some (arg_type (vs ! i)) else if i = length vs then Some NONE else None)"
  using assms by (auto simp: make_arg_list_def set_types_def MAX_PACKED_ARGS_def array_read_def nth_append)

lemma packed_vals: "array_read (vals (make_arg_list junk vs)) i = (if i < length vs then Some (vs ! i) else None)"
  by (simp add: make_arg_list_def array_read_def)

lemma ends_before_packed:
  assumes "16 \<le> length vs"
  shows "16 \<le> i \<Longrightarrow> i \<le> length vs \<Longrightarrow> ends_before (make_arg_list junk vs) i index = Some (length vs \<le> index)"
proof (induction "length vs - i" arbitrary: i)
  case 0
  then show ?case using assms by (subst ends_before.simps) (auto simp: packed_elem)
next
  case (Suc n)
  then show ?case using assms arg_type_range(1) by (subst ends_before.simps) (auto simp: packed_elem NONE_def)
qed

lemma ArgList_get_packed:
  "ArgList_get (make_arg_list junk vs) i = Some (if i < length vs then (arg_type (vs ! i), Some (vs ! i)) else (NONE, None))"
proof -
  have u: "ArgList_type (make_arg_list junk vs) 15 = NONE \<longleftrightarrow> length vs < 16"
    using arg_type_range(1) by (simp add: packed_type NONE_def)
  show ?thesis
  proof (cases "i < 16 \<or> length vs < 16")
    case True
    then show ?thesis
      using u arg_type_range(1) [of "vs ! i"] by (cases "vs ! i") (auto simp: ArgList_get_def MAX_PACKED_ARGS_def packed_type packed_vals NONE_def Let_def)
  next
    case False
    then show ?thesis
      using u ends_before_packed [of vs 16 junk i]
      by (auto simp: ArgList_get_def MAX_PACKED_ARGS_def packed_elem packed_vals Let_def split: bool.split)
  qed
qed

definition names_from :: "fmt_value list \<Rightarrow> nat \<Rightarrow> (string \<times> fmt_arg) list" where
  "names_from vs i = ArgMap (drop i vs)"

lemma names_from_step:
  "i < length vs \<Longrightarrow> names_from vs i = (if arg_type (vs ! i) = NAMED_ARG then [(the (fst (vs ! i)), snd (vs ! i))] else []) @ names_from vs (Suc i)"
  by (cases "vs ! i"; cases "snd (vs ! i)")
    (auto simp: names_from_def ArgMap_def arg_type_def NAMED_ARG_def Cons_nth_drop_Suc [symmetric] split: option.split)


lemma append2_Some [simp]: "append2 (Some xs) (Some ys) = Some (xs @ ys)"
  by (simp add: append2_def)

lemma named_at_packed:
  "i < length vs \<Longrightarrow> named_at (arg_type (vs ! i)) (make_arg_list junk vs) i
    = Some (if arg_type (vs ! i) = NAMED_ARG then [(the (fst (vs ! i)), snd (vs ! i))] else [])"
  by (simp add: named_at_def packed_vals)

lemma names_from_end [simp]: "length vs \<le> i \<Longrightarrow> names_from vs i = []"
  by (simp add: names_from_def ArgMap_def)

lemma init_values_packed:
  "length vs < 16 \<Longrightarrow> i \<le> length vs \<Longrightarrow> init_values (make_arg_list junk vs) i = Some (names_from vs i)"
proof (induction "length vs - i" arbitrary: i)
  case 0
  then show ?case by (subst init_values.simps) (simp add: MAX_PACKED_ARGS_def packed_type)
next
  case (Suc n)
  then have "n = length vs - Suc i" "i < length vs" by arith+
  then show ?case
    using Suc arg_type_range(1) [of "vs ! i"]
    by (subst init_values.simps) (simp add: MAX_PACKED_ARGS_def packed_type named_at_packed names_from_step [of i] NONE_def)
qed

lemma init_packed_packed:
  "16 \<le> length vs \<Longrightarrow> i \<le> 16 \<Longrightarrow> \<exists>xs. init_packed (make_arg_list junk vs) i = Some xs \<and> xs @ names_from vs 16 = names_from vs i"
proof (induction "16 - i" arbitrary: i)
  case 0
  then show ?case by (subst init_packed.simps) (simp add: MAX_PACKED_ARGS_def)
next
  case (Suc n)
  then have "n = 16 - Suc i" "i < 16" by arith+
  then obtain xs where "init_packed (make_arg_list junk vs) (i + 1) = Some xs" "xs @ names_from vs 16 = names_from vs (Suc i)"
    using Suc.hyps(1) [of "Suc i"] Suc.prems by auto
  then show ?case
    using Suc.prems \<open>i < 16\<close>
    by (subst init_packed.simps) (simp add: MAX_PACKED_ARGS_def packed_type named_at_packed names_from_step [of i])
qed

lemma init_rest_packed:
  "16 \<le> length vs \<Longrightarrow> 16 \<le> i \<Longrightarrow> i \<le> length vs \<Longrightarrow> init_rest (make_arg_list junk vs) i = Some (names_from vs i)"
proof (induction "length vs - i" arbitrary: i)
  case 0
  then show ?case by (subst init_rest.simps) (simp add: packed_elem)
next
  case (Suc n)
  then have "n = length vs - Suc i" "i < length vs" by arith+
  then show ?case
    using Suc arg_type_range(1) [of "vs ! i"]
    by (subst init_rest.simps) (simp add: packed_elem named_at_packed names_from_step [of i] NONE_def)
qed

text \<open>C26: The packed representation is the list of the arguments, however many there are: the access by index and the table of
  names find in it what \<open>do_get_arg\<close> and \<open>ArgMap\<close> find in the list, and they read neither outside the
  array nor a type field that was not set.\<close>

theorem packed_args_faithful:
  "packed_get_arg (make_arg_list junk args) i = Some (do_get_arg args i) \<and> ArgMap_init (make_arg_list junk args) = Some (ArgMap args)"
proof
  show "packed_get_arg (make_arg_list junk args) i = Some (do_get_arg args i)"
    using arg_type_range(1) [of "args ! i"] by (simp add: packed_get_arg_def ArgList_get_packed do_get_arg_def NONE_def)
  have u: "ArgList_type (make_arg_list junk args) 15 = NONE \<longleftrightarrow> length args < 16"
    using arg_type_range(1) by (simp add: packed_type NONE_def)
  have all: "names_from args 0 = ArgMap args" by (simp add: names_from_def)
  show "ArgMap_init (make_arg_list junk args) = Some (ArgMap args)"
  proof (cases "length args < 16")
    case True
    then show ?thesis using u init_values_packed [of args 0 junk] all by (simp add: ArgMap_init_def MAX_PACKED_ARGS_def)
  next
    case False
    then obtain xs where "init_packed (make_arg_list junk args) 0 = Some xs" "xs @ names_from args 16 = names_from args 0"
      using init_packed_packed [of args 0 junk] by auto
    then show ?thesis
      using False u init_rest_packed [of args 16 junk] all by (simp add: ArgMap_init_def MAX_PACKED_ARGS_def)
  qed
qed

text \<open>No value changes on the way: the integers of all types are written as their decimal notation.\<close>

definition cpp_int :: "cpp_value \<Rightarrow> int option" where
  "cpp_int v =
     (case v of
        V_signed_char x \<Rightarrow> Some (sint x) | V_unsigned_char x \<Rightarrow> Some (uint x) | V_short x \<Rightarrow> Some (sint x)
      | V_unsigned_short x \<Rightarrow> Some (uint x) | V_int x \<Rightarrow> Some (sint x) | V_unsigned x \<Rightarrow> Some (uint x)
      | V_long x \<Rightarrow> Some (sint x) | V_unsigned_long x \<Rightarrow> Some (uint x) | V_long_long x \<Rightarrow> Some (sint x)
      | V_unsigned_long_long x \<Rightarrow> Some (uint x) | _ \<Rightarrow> None)"

lemma MakeValue_text: "cpp_int v = Some i \<Longrightarrow> arg_text (MakeValue v) = int_digits i"
proof -
  assume v: "cpp_int v = Some i"
  have u: "nat_digits (unat x) = int_digits (uint x)" for x :: "'a::len word"
    unfolding unat_eq_nat_uint int_digits_def by simp
  have up: "uint (ucast x :: u32) = uint x" "uint (ucast y :: u32) = uint y" for x :: u8 and y :: u16
    by (simp_all add: uint_up_ucast is_up)
  show ?thesis
    using v by (cases v) (simp_all add: cpp_int_def MakeValue_def arg_text_def u up sint_up_scast is_up)
qed

end
