(* ===== verification/FmtDouble.thy ===== *)
theory FmtDouble
  imports FmtFormat
begin

text \<open>
  Floating-point output of the formatting library: \<open>BasicWriter::write_double\<close> of
  \<open>src/common/spdlog/include/details/format.h\<close> and \<open>CharTraits<char>::format_float\<close> of \<open>format.cc\<close>.

  The code lets \<open>snprintf\<close> write into the buffer behind its contents. So the buffer is here its whole storage, as many
  cells as the capacity, with the size of the contents. \<open>snprintf\<close> is a parameter \<open>sn\<close>: the text for a format
  string, the width and precision that are passed if the format asks for them, and a value, or nothing where
  \<open>snprintf\<close> returns a negative number; it writes as much of the text as fits, and a zero. A value has a sign bit and is finite, infinite or not a number.
\<close>

section \<open>The buffer\<close>

record raw_buffer =
  r_store :: "char list"
  r_size :: nat

definition contents :: "raw_buffer \<Rightarrow> string" where
  "contents b = take (r_size b) (r_store b)"

definition raw_reserve :: "char \<Rightarrow> nat \<Rightarrow> raw_buffer \<Rightarrow> raw_buffer" where
  "raw_reserve junk n b =
     (if n > length (r_store b)
      then
        let c = length (r_store b) + length (r_store b) div 2; new_capacity = (if n > c then n else c)
        in b\<lparr>r_store := take (r_size b) (r_store b) @ replicate (new_capacity - r_size b) junk\<rparr>
      else b)"

definition raw_grow_buffer :: "char \<Rightarrow> nat \<Rightarrow> raw_buffer \<Rightarrow> raw_buffer \<times> nat" where
  "raw_grow_buffer junk n b = ((raw_reserve junk (r_size b + n) b)\<lparr>r_size := r_size b + n\<rparr>, r_size b)"

text \<open>What \<open>snprintf\<close> does to the storage from \<open>start\<close> on.\<close>

definition snprintf_at :: "string \<Rightarrow> nat \<Rightarrow> char list \<Rightarrow> char list" where
  "snprintf_at t start store =
     (let room = length store - start
      in if room = 0 then store else copy_to (take (room - 1) t @ [CHR 0x00]) start store)"

section \<open>write_double\<close>

datatype 'v fp = Finite bool 'v | Infinity bool | NotANumber bool

definition isnegative :: "'v fp \<Rightarrow> bool" where
  "isnegative v = (case v of Finite s x \<Rightarrow> s | Infinity s \<Rightarrow> s | NotANumber s \<Rightarrow> s)"

text \<open>The type: the letter for \<open>snprintf\<close>, and whether it is a capital one.\<close>

definition float_type :: "char \<Rightarrow> fmt_error + char \<times> bool" where
  "float_type ty =
     (if ty = CHR 0x00 then Inr (CHR ''g'', False)
      else if ty \<in> set ''efga'' then Inr (ty, False)
      else if ty \<in> set ''FEGA'' then Inr (ty, True)
      else Inl (report_unknown_type ty ''double''))"

definition float_sign :: "'v fp \<Rightarrow> format_spec \<Rightarrow> char option" where
  "float_sign v spec =
     (if isnegative v then Some (CHR ''-'')
      else if spec_flag spec SIGN_FLAG then Some (if spec_flag spec PLUS_FLAG then CHR ''+'' else CHR '' '')
      else None)"

text \<open>Infinity and NaN: \<open>write_str\<close> of the name with a space before it for the sign, which replaces it.\<close>

definition raw_write_str :: "char \<Rightarrow> string \<Rightarrow> format_spec \<Rightarrow> raw_buffer \<Rightarrow> raw_buffer \<times> nat" where
  "raw_write_str junk s spec b =
     (if width spec > length s
      then
        let (b1, out) = raw_grow_buffer junk (width spec) b
        in if align spec = ALIGN_RIGHT
           then let p = out + (width spec - length s)
                in (b1\<lparr>r_store := copy_to s p (fill_to out p (fill spec) (r_store b1))\<rparr>, p)
           else if align spec = ALIGN_CENTER
           then let (w2, p) = fill_padding out (width spec) (length s) (fill spec) (r_store b1)
                in (b1\<lparr>r_store := copy_to s p w2\<rparr>, p)
           else (b1\<lparr>r_store := copy_to s out (fill_to (out + length s) (out + length s + (width spec - length s)) (fill spec) (r_store b1))\<rparr>, out)
      else
        let (b1, out) = raw_grow_buffer junk (length s) b
        in (b1\<lparr>r_store := copy_to s out (r_store b1)\<rparr>, out))"

definition write_name :: "char \<Rightarrow> string \<Rightarrow> char option \<Rightarrow> format_spec \<Rightarrow> raw_buffer \<Rightarrow> raw_buffer" where
  "write_name junk name sign spec b =
     (case sign of
        None \<Rightarrow> fst (raw_write_str junk name spec b)
      | Some c \<Rightarrow> let (b1, out) = raw_write_str junk (CHR '' '' # name) spec b in b1\<lparr>r_store := (r_store b1)[out := c]\<rparr>)"

text \<open>The format string, and whether \<open>snprintf\<close> gets a width: \<open>w\<close> is the width without the sign.\<close>

definition float_format :: "format_spec \<Rightarrow> nat \<Rightarrow> bool \<Rightarrow> char \<Rightarrow> string" where
  "float_format spec w long_double ty =
     ''%'' @ (if spec_flag spec HASH_FLAG then ''#'' else [])
     @ (if align spec = ALIGN_CENTER then []
        else (if align spec = ALIGN_LEFT then ''-'' else []) @ (if w \<noteq> 0 then ''*'' else []))
     @ (if precision spec \<ge> 0 then ''.*'' else []) @ (if long_double then ''L'' else []) @ [ty]"

type_synonym 'v snprintf = "string \<Rightarrow> nat option \<Rightarrow> int option \<Rightarrow> 'v \<Rightarrow> string option"

definition format_float :: "'v snprintf \<Rightarrow> string \<Rightarrow> nat \<Rightarrow> int \<Rightarrow> 'v \<Rightarrow> string option" where
  "format_float sn format w prec v =
     sn format (if w = 0 then None else Some w) (if prec < 0 then None else Some prec) v"

text \<open>The loop: \<open>r\<close> is the answer of \<open>snprintf\<close>, which is the same in every round.\<close>

partial_function (option) double_loop :: "char \<Rightarrow> string option \<Rightarrow> nat \<Rightarrow> raw_buffer \<Rightarrow> (raw_buffer \<times> nat) option" where
  [code]: "double_loop junk r offset b =
     (case r of
        None \<Rightarrow> double_loop junk r offset (raw_reserve junk (length (r_store b) + 1) b)
      | Some t \<Rightarrow>
          let b1 = b\<lparr>r_store := snprintf_at t offset (r_store b)\<rparr>
          in if offset + length t < length (r_store b1) then Some (b1, length t)
             else double_loop junk r offset (raw_reserve junk (offset + length t + 1) b1))"

text \<open>Putting in the sign and the fill characters.\<close>

definition put_sign :: "char option \<Rightarrow> format_spec \<Rightarrow> nat \<Rightarrow> nat \<Rightarrow> char list \<Rightarrow> char option \<times> nat \<times> char list" where
  "put_sign sign spec start n store =
     (case sign of
        None \<Rightarrow> (None, n, store)
      | Some c \<Rightarrow>
          if (align spec \<noteq> ALIGN_RIGHT \<and> align spec \<noteq> ALIGN_DEFAULT) \<or> store ! start \<noteq> CHR '' ''
          then (None, n + 1, store[start - 1 := c])
          else (Some c, n + 1, store[start - 1 := fill spec]))"

definition fill_spaces :: "char option \<Rightarrow> format_spec \<Rightarrow> nat \<Rightarrow> char list \<Rightarrow> char list" where
  "fill_spaces sign spec start store =
     (if fill spec \<noteq> CHR '' '' \<or> sign \<noteq> None
      then
        let start' = start + length (takeWhile (\<lambda>c. c = CHR '' '') (drop start store));
            store' = fill_to start start' (fill spec) store
        in case sign of None \<Rightarrow> store' | Some c \<Rightarrow> store'[start' - 1 := c]
      else store)"

definition double_finish :: "char \<Rightarrow> char option \<Rightarrow> format_spec \<Rightarrow> nat \<Rightarrow> nat \<Rightarrow> raw_buffer \<Rightarrow> raw_buffer" where
  "double_finish junk sign0 spec start n0 b =
     (let (sign, n, store) = put_sign sign0 spec start n0 (r_store b); b1 = b\<lparr>r_store := store\<rparr>
      in if align spec = ALIGN_CENTER \<and> width spec > n
         then
           let (b2, p) = raw_grow_buffer junk (width spec) b1;
               moved = copy_to (take n (drop p (r_store b2))) (p + (width spec - n) div 2) (r_store b2)
           in b2\<lparr>r_store := fst (fill_padding p (width spec) n (fill spec) moved)\<rparr>
         else fst (raw_grow_buffer junk n (b1\<lparr>r_store := fill_spaces sign spec start store\<rparr>)))"

definition write_double ::
  "'v snprintf \<Rightarrow> bool \<Rightarrow> char \<Rightarrow> 'v fp \<Rightarrow> format_spec \<Rightarrow> raw_buffer \<Rightarrow> (fmt_error + raw_buffer) option" where
  "write_double sn long_double junk v spec b =
     (case float_type (type_code spec) of
        Inl e \<Rightarrow> Some (Inl e)
      | Inr (ty, upper) \<Rightarrow>
          let sign = float_sign v spec
          in case v of
               NotANumber _ \<Rightarrow> Some (Inr (write_name junk (if upper then ''NAN'' else ''nan'') sign spec b))
             | Infinity _ \<Rightarrow> Some (Inr (write_name junk (if upper then ''INF'' else ''inf'') sign spec b))
             | Finite _ x \<Rightarrow>
                 let b1 = (if sign = None then b else raw_reserve junk (r_size b + (if width spec > 1 then width spec else 1)) b);
                     w = (if sign = None then width spec else width spec - 1);
                     offset = (if sign = None then r_size b else r_size b + 1);
                     w_sprintf = (if align spec = ALIGN_CENTER then 0 else w);
                     r = format_float sn (float_format spec w long_double ty) w_sprintf (precision spec) x
                 in map_option (\<lambda>(b2, n). Inr (double_finish junk sign spec offset n b2)) (double_loop junk r offset b1))"

section \<open>The loop\<close>

definition raw_ok :: "raw_buffer \<Rightarrow> bool" where
  "raw_ok b \<longleftrightarrow> r_size b \<le> length (r_store b)"

lemma reserve_simps [simp]: "r_size (raw_reserve junk n b) = r_size b"
  by (simp add: raw_reserve_def Let_def)

lemma reserve_store:
  assumes "raw_ok b"
  shows "take (r_size b) (r_store (raw_reserve junk n b)) = take (r_size b) (r_store b)"
    and "n \<le> length (r_store (raw_reserve junk n b))" and "length (r_store b) \<le> length (r_store (raw_reserve junk n b))"
  using assms by (auto simp: raw_reserve_def raw_ok_def Let_def)

lemma snprintf_at_length: "start \<le> length store \<Longrightarrow> length (snprintf_at t start store) = length store"
  by (auto simp: snprintf_at_def copy_to_def Let_def)

lemma snprintf_at_take: "p \<le> start \<Longrightarrow> start \<le> length store \<Longrightarrow> take p (snprintf_at t start store) = take p store"
  by (auto simp: snprintf_at_def copy_to_def Let_def)

lemma snprintf_at_fits:
  assumes "start + length t < length store"
  shows "snprintf_at t start store = take start store @ t @ CHR 0x00 # drop (start + length t + 1) store"
  using assms by (simp add: snprintf_at_def copy_to_def Let_def)

lemma double_loop_fits:
  assumes "offset + length t < length (r_store b)"
  shows "double_loop junk (Some t) offset b
    = Some (b\<lparr>r_store := take offset (r_store b) @ t @ CHR 0x00 # drop (offset + length t + 1) (r_store b)\<rparr>, length t)"
proof -
  have "length (snprintf_at t offset (r_store b)) = length (r_store b)" using assms by (intro snprintf_at_length) simp
  then have "double_loop junk (Some t) offset b = Some (b\<lparr>r_store := snprintf_at t offset (r_store b)\<rparr>, length t)"
    using assms by (subst double_loop.simps) (simp add: Let_def)
  then show ?thesis unfolding snprintf_at_fits [OF assms] .
qed

text \<open>What the loop leaves: the contents, a place for the sign, the text and a zero.\<close>

definition loop_left :: "raw_buffer \<Rightarrow> string \<Rightarrow> nat \<Rightarrow> raw_buffer \<Rightarrow> bool" where
  "loop_left b t offset b' \<longleftrightarrow> (\<exists>x rest. length x = offset - r_size b \<and> r_store b' = contents b @ x @ t @ CHR 0x00 # rest)
     \<and> r_size b' = r_size b \<and> length (r_store b) \<le> length (r_store b')"

lemma loop_leftI:
  assumes "length x = offset - r_size b" "r_store b' = contents b @ x @ t @ CHR 0x00 # rest" "r_size b' = r_size b"
    "length (r_store b) \<le> length (r_store b')"
  shows "loop_left b t offset b'"
  using assms unfolding loop_left_def by blast

lemma double_loop_fits_left:
  assumes c: "r_size c \<le> offset" "offset + length t < length (r_store c)"
  shows "\<exists>b'. double_loop junk (Some t) offset c = Some (b', length t) \<and> loop_left c t offset b'"
proof -
  have "take offset (r_store c) = contents c @ take (offset - r_size c) (drop (r_size c) (r_store c))"
    using c(1) by (simp add: contents_def flip: take_add)
  then have "loop_left c t offset (c\<lparr>r_store := take offset (r_store c) @ t @ CHR 0x00 # drop (offset + length t + 1) (r_store c)\<rparr>)"
    using c by (intro loop_leftI [where x = "take (offset - r_size c) (drop (r_size c) (r_store c))"]) (auto simp: contents_def)
  then show ?thesis unfolding double_loop_fits [OF c(2)] by blast
qed

lemma double_loop_text:
  assumes "raw_ok b" and "r_size b \<le> offset" and "offset \<le> length (r_store b)"
  shows "\<exists>b'. double_loop junk (Some t) offset b = Some (b', length t) \<and> loop_left b t offset b'"
proof (cases "offset + length t < length (r_store b)")
  case True
  then show ?thesis using double_loop_fits_left assms by blast
next
  case False
  define b1 where "b1 = b\<lparr>r_store := snprintf_at t offset (r_store b)\<rparr>"
  define b2 where "b2 = raw_reserve junk (offset + length t + 1) b1"
  have l: "length (r_store b1) = length (r_store b)" "contents b1 = contents b" "raw_ok b1"
    using assms by (simp_all add: b1_def snprintf_at_length snprintf_at_take contents_def raw_ok_def)
  have step: "double_loop junk (Some t) offset b = double_loop junk (Some t) offset b2"
    using False l(1) by (subst double_loop.simps) (simp add: b1_def b2_def Let_def)
  have c: "contents b2 = contents b" "offset + length t < length (r_store b2)" "length (r_store b) \<le> length (r_store b2)"
    using reserve_store [OF l(3), where junk = junk and n = "offset + length t + 1"] l by (simp_all add: b2_def contents_def)
  moreover have "r_size b2 = r_size b" by (simp add: b2_def b1_def)
  moreover have "r_size b2 \<le> offset" using assms(2) \<open>r_size b2 = r_size b\<close> by simp
  ultimately obtain b' where "double_loop junk (Some t) offset b2 = Some (b', length t)" "loop_left b2 t offset b'"
    using double_loop_fits_left by blast
  then show ?thesis unfolding step using c \<open>r_size b2 = r_size b\<close> by (intro exI [of _ b']) (auto simp: loop_left_def)
qed

lemma double_loop_failing: "double_loop junk None offset b = None"
proof -
  have "r \<noteq> None" if "double_loop junk r offset b = Some y" for r y
    by (rule double_loop.raw_induct [of "\<lambda>_ r _ _ _. r \<noteq> None", OF _ that]) (metis (no_types, lifting) option.simps(4))
  then show ?thesis by (cases "double_loop junk None offset b") auto
qed

section \<open>The field\<close>

definition sign_text :: "char option \<Rightarrow> string" where
  "sign_text sign = (case sign of None \<Rightarrow> [] | Some c \<Rightarrow> [c])"

definition double_field :: "format_spec \<Rightarrow> char option \<Rightarrow> string \<Rightarrow> string" where
  "double_field spec sign core =
     (let s = sign_text sign; pad = width spec - length (s @ core)
      in if align spec = ALIGN_LEFT then s @ core @ replicate pad (CHR '' '')
         else if align spec = ALIGN_NUMERIC then s @ replicate pad (fill spec) @ core
         else if align spec = ALIGN_CENTER then replicate (pad div 2) (fill spec) @ s @ core @ replicate (pad - pad div 2) (fill spec)
         else replicate pad (fill spec) @ s @ core)"

lemma takeWhile_spaces:
  "core \<noteq> [] \<Longrightarrow> hd core \<noteq> CHR '' '' \<Longrightarrow> takeWhile (\<lambda>c. c = CHR '' '') (replicate k (CHR '' '') @ core @ rest) = replicate k (CHR '' '')"
  by (induction k) (auto simp: neq_Nil_conv)

lemma fill_spaces_None:
  assumes "core \<noteq> []" "hd core \<noteq> CHR '' ''" and "n = length pre"
  shows "fill_spaces None spec n (pre @ replicate k (CHR '' '') @ core @ rest) = pre @ replicate k (fill spec) @ core @ rest"
  by (simp add: fill_spaces_def takeWhile_spaces [OF assms(1,2)] assms(3) Let_def fill_to_def copy_to_def)

lemma list_update_last_replicate: "(replicate (Suc k) f)[k := c] = replicate k f @ [c]"
  by (induction k) simp_all

lemma fill_spaces_Some:
  assumes "core \<noteq> []" "hd core \<noteq> CHR '' ''" and "n = length pre"
  shows "fill_spaces (Some c) spec n (pre @ replicate (Suc k) (CHR '' '') @ core @ rest) = pre @ replicate k (fill spec) @ c # core @ rest"
  using takeWhile_spaces [OF assms(1,2), of "Suc k" rest]
  by (simp add: fill_spaces_def assms(3) Let_def fill_to_def copy_to_def list_update_append list_update_last_replicate del: replicate_Suc)

lemma grow_contents:
  assumes "r_size b + n \<le> length (r_store b)"
  shows "contents (fst (raw_grow_buffer junk n b)) = take (r_size b + n) (r_store b)"
  using assms by (simp add: raw_grow_buffer_def raw_reserve_def contents_def)


text \<open>The last step, on what the loop leaves.\<close>

lemma finish_unsigned:
  assumes "core \<noteq> []" "hd core \<noteq> CHR '' ''" and "r_store b = pre @ replicate k (CHR '' '') @ core @ rest" and "r_size b = length pre"
    and "n = k + length core" and "align spec = ALIGN_CENTER \<Longrightarrow> width spec \<le> n"
  shows "contents (double_finish junk None spec (length pre) n b) = pre @ replicate k (fill spec) @ core"
  using assms(3-6)
  by (auto simp: double_finish_def put_sign_def Let_def fill_spaces_None [OF assms(1,2)] grow_contents)

lemma finish_signed:
  assumes "core \<noteq> []" "hd core \<noteq> CHR '' ''" and "r_store b = pre @ x # core @ rest" and "r_size b = length pre"
    and "n = length core" and "align spec = ALIGN_CENTER \<Longrightarrow> width spec \<le> Suc n"
  shows "contents (double_finish junk (Some c) spec (Suc (length pre)) n b) = pre @ c # core"
proof -
  have "r_store b ! Suc (length pre) = hd core" using assms(1,3) by (cases core) (simp_all add: nth_append)
  then have "put_sign (Some c) spec (Suc (length pre)) n (r_store b) = (None, Suc n, pre @ c # core @ rest)"
    using assms(2,3) by (simp add: put_sign_def list_update_append)
  moreover have "fill_spaces None spec (Suc (length pre)) (pre @ c # core @ rest) = pre @ c # core @ rest"
    using fill_spaces_None [OF assms(1,2), of "Suc (length pre)" "pre @ [c]" spec 0 rest] by simp
  ultimately show ?thesis using assms(4-6) by (auto simp: double_finish_def Let_def grow_contents)
qed

lemma finish_signed_spaces:
  assumes "core \<noteq> []" "hd core \<noteq> CHR '' ''" and "r_store b = pre @ x # replicate (Suc k) (CHR '' '') @ core @ rest" and "r_size b = length pre"
    and "n = Suc k + length core" and "align spec \<noteq> ALIGN_CENTER"
  shows "contents (double_finish junk (Some c) spec (Suc (length pre)) n b)
    = (if align spec = ALIGN_RIGHT \<or> align spec = ALIGN_DEFAULT then pre @ replicate (Suc k) (fill spec) @ c # core
       else pre @ c # replicate (Suc k) (fill spec) @ core)"
proof (cases "align spec = ALIGN_RIGHT \<or> align spec = ALIGN_DEFAULT")
  case True
  have "put_sign (Some c) spec (Suc (length pre)) n (r_store b)
    = (Some c, Suc n, pre @ fill spec # replicate (Suc k) (CHR '' '') @ core @ rest)"
    using True assms(3) by (simp add: put_sign_def list_update_append nth_append)
  then show ?thesis
    using True assms(4-6) fill_spaces_Some [OF assms(1,2), of "Suc (length pre)" "pre @ [fill spec]" c spec k rest]
    by (simp add: double_finish_def Let_def grow_contents)
next
  case False
  have "put_sign (Some c) spec (Suc (length pre)) n (r_store b)
    = (None, Suc n, pre @ c # replicate (Suc k) (CHR '' '') @ core @ rest)"
    using False assms(3) by (auto simp: put_sign_def list_update_append)
  then show ?thesis
    using False assms(4-6) fill_spaces_None [OF assms(1,2), of "Suc (length pre)" "pre @ [c]" spec "Suc k" rest]
    by (simp add: double_finish_def Let_def grow_contents)
qed


text \<open>The centred number: the characters move by half of the padding, within the capacity.\<close>

lemma center_contents:
  assumes "r_store b = pre @ body @ rest" "r_size b = length pre" "n = length body" "n < width spec" "width spec \<le> n + length rest"
    and "put_sign sign spec start n0 store = (sign', n, r_store b)" "align spec = ALIGN_CENTER" and "store = r_store b0" "r_size b0 = r_size b"
  shows "contents (double_finish junk sign spec start n0 b0)
    = pre @ replicate ((width spec - n) div 2) (fill spec) @ body @ replicate (width spec - n - (width spec - n) div 2) (fill spec)"
proof -
  define l where "l = (width spec - n) div 2"
  define r where "r = width spec - n - l"
  have w: "width spec = l + n + r" using assms(4) by (simp add: l_def r_def)
  have pad: "width spec - n = l + r" "(l + r) div 2 = l" using w unfolding l_def by simp_all
  have g: "raw_grow_buffer junk (width spec) (b0\<lparr>r_store := r_store b\<rparr>)
    = (b0\<lparr>r_store := r_store b, r_size := length pre + width spec\<rparr>, length pre)"
    using assms(1-5,9) by (simp add: raw_grow_buffer_def raw_reserve_def)
  have cut: "take n (drop (length pre) (r_store b)) = body" using assms(1,3) by simp
  have len: "length (r_store b) \<ge> length pre + l + n + r" using assms(1,3,5) w by simp
  define moved where "moved = copy_to body (length pre + l) (r_store b)"
  have m: "length moved = length (r_store b)" "take (length pre) moved = pre" "take n (drop (length pre + l) moved) = body"
    using len assms(1,3) by (simp_all add: moved_def copy_to_def)
  define fp where "fp = fst (fill_padding (length pre) (width spec) n (fill spec) moved)"
  have fp_eq: "fp = pre @ replicate l (fill spec) @ body @ replicate r (fill spec) @ drop (length pre + l + n + r) moved"
    using len m unfolding fp_def fill_padding_def Let_def pad fill_to_def copy_to_def
    by (simp add: add.assoc take_add) (simp add: ac_simps)
  have "contents (double_finish junk sign spec start n0 b0) = take (length pre + width spec) fp"
    using assms(4,6-8) g cut by (simp add: double_finish_def Let_def contents_def pad fp_def moved_def)
  then show ?thesis using assms(3) by (simp add: fp_eq w l_def [symmetric] pad)
qed


section \<open>The text of a number\<close>

text \<open>What is relied on of \<open>snprintf\<close>: it pads the same characters \<open>core\<close> to the given width with spaces.\<close>

definition snprintf_pads :: "'v snprintf \<Rightarrow> format_spec \<Rightarrow> bool \<Rightarrow> char \<Rightarrow> 'v \<Rightarrow> string \<Rightarrow> bool" where
  "snprintf_pads sn spec long_double ty x core \<longleftrightarrow> core \<noteq> [] \<and> hd core \<noteq> CHR '' '' \<and>
     (\<forall>w. format_float sn (float_format spec w long_double ty) (if align spec = ALIGN_CENTER then 0 else w) (precision spec) x
       = Some (if align spec = ALIGN_CENTER then core
               else if align spec = ALIGN_LEFT then core @ replicate (w - length core) (CHR '' '')
               else replicate (w - length core) (CHR '' '') @ core))"

lemma finish_None:
  assumes "core \<noteq> []" "hd core \<noteq> CHR '' ''" and "r_store b = pre @ t @ CHR 0x00 # rest" "r_size b = length pre"
    and t: "t = (if align spec = ALIGN_CENTER then core
               else if align spec = ALIGN_LEFT then core @ replicate (width spec - length core) (CHR '' '')
               else replicate (width spec - length core) (CHR '' '') @ core)"
    and "align spec = ALIGN_CENTER \<Longrightarrow> width spec \<le> length core + length (CHR 0x00 # rest)"
  shows "contents (double_finish junk None spec (length pre) (length t) b) = pre @ double_field spec None core"
proof -
  consider "align spec = ALIGN_CENTER" "length core < width spec" | "align spec = ALIGN_CENTER" "width spec \<le> length core"
    | "align spec = ALIGN_LEFT" | "align spec \<noteq> ALIGN_CENTER" "align spec \<noteq> ALIGN_LEFT" by linarith
  then show ?thesis
  proof cases
    case 1
    then show ?thesis using assms by (subst center_contents [where b = b and body = core and n = "length core" and sign' = None])
      (auto simp: put_sign_def double_field_def sign_text_def Let_def)
  next
    case 2
    then show ?thesis using assms by (subst finish_unsigned [where core = core and k = 0])
      (auto simp: double_field_def sign_text_def Let_def)
  next
    case 3
    then show ?thesis using assms
      by (subst finish_unsigned [where core = "core @ replicate (width spec - length core) (CHR '' '')" and k = 0])
        (auto simp: double_field_def sign_text_def Let_def)
  next
    case 4
    then show ?thesis using assms
      by (subst finish_unsigned [where core = core and k = "width spec - length core"])
        (auto simp: double_field_def sign_text_def Let_def)
  qed
qed

lemma finish_Some:
  assumes "core \<noteq> []" "hd core \<noteq> CHR '' ''" and "r_store b = pre @ x # t @ CHR 0x00 # rest" "r_size b = length pre"
    and t: "t = (if align spec = ALIGN_CENTER then core
               else if align spec = ALIGN_LEFT then core @ replicate (width spec - 1 - length core) (CHR '' '')
               else replicate (width spec - 1 - length core) (CHR '' '') @ core)"
    and "align spec = ALIGN_CENTER \<Longrightarrow> width spec \<le> Suc (length core) + length (CHR 0x00 # rest)"
  shows "contents (double_finish junk (Some c) spec (Suc (length pre)) (length t) b) = pre @ double_field spec (Some c) core"
proof -
  consider "align spec = ALIGN_CENTER" "Suc (length core) < width spec" | "align spec = ALIGN_CENTER" "width spec \<le> Suc (length core)"
    | "align spec = ALIGN_LEFT" | "align spec \<noteq> ALIGN_CENTER" "align spec \<noteq> ALIGN_LEFT" "width spec - 1 - length core = 0"
    | k where "align spec \<noteq> ALIGN_CENTER" "align spec \<noteq> ALIGN_LEFT" "width spec - 1 - length core = Suc k"
    by (metis linorder_not_less not0_implies_Suc)
  then show ?thesis
  proof cases
    case 1
    then show ?thesis using assms
      by (subst center_contents [where b = "b\<lparr>r_store := pre @ (c # core) @ CHR 0x00 # rest\<rparr>" and body = "c # core" and n = "Suc (length core)" and sign' = None])
      (auto simp: put_sign_def list_update_append double_field_def sign_text_def Let_def)
  next
    case 2
    then show ?thesis using assms by (subst finish_signed [where core = core])
      (auto simp: double_field_def sign_text_def Let_def)
  next
    case 3
    then show ?thesis using assms
      by (subst finish_signed [where core = "core @ replicate (width spec - 1 - length core) (CHR '' '')"])
        (auto simp: double_field_def sign_text_def Let_def)
  next
    case 4
    then show ?thesis using assms by (subst finish_signed [where core = core]) (auto simp: double_field_def sign_text_def Let_def)
  next
    case 5
    moreover from 5(1,2) have "align spec = ALIGN_DEFAULT \<or> align spec = ALIGN_RIGHT \<or> align spec = ALIGN_NUMERIC"
      by (cases "align spec") simp_all
    ultimately show ?thesis using assms
      by (subst finish_signed_spaces [where core = core and k = k]) (auto simp: double_field_def sign_text_def Let_def)
  qed
qed




text \<open>A format that \<open>snprintf\<close> always refuses keeps the loop enlarging the buffer.\<close>

lemma write_double_refused:
  assumes "float_type (type_code spec) = Inr (ty, upper)" and "\<And>f w p. sn f w p x = None"
  shows "write_double sn long_double junk (Finite s x) spec b = None"
  using assms by (simp add: write_double_def Let_def format_float_def double_loop_failing)

text \<open>A centred number without sign in a buffer that is too small: growing it forgets the characters of the number.\<close>

lemma centered_number_lost:
  "map_option (map_sum id contents) (write_double (\<lambda>f w p x. Some ''7'') False (CHR ''?'') (Finite False ())
     ((FormatSpec 6 (CHR 0x00) (CHR ''*''))\<lparr>align := ALIGN_CENTER\<rparr>) \<lparr>r_store = ''ab'', r_size = 0\<rparr>) = Some (Inr ''**?***'')"
  by code_simp

text \<open>Left alignment pads with spaces, whatever the fill character.\<close>

lemma left_fill_ignored:
  "map_option (map_sum id contents)
     (write_double (\<lambda>f w p x. Some (CHR ''7'' # replicate ((case w of None \<Rightarrow> 0 | Some n \<Rightarrow> n) - 1) (CHR '' ''))) False (CHR ''?'')
       (Finite False ()) ((FormatSpec 4 (CHR 0x00) (CHR ''*''))\<lparr>align := ALIGN_LEFT\<rparr>) \<lparr>r_store = ''ab'', r_size = 0\<rparr>)
   = Some (Inr ''7   '')"
  by code_simp

section \<open>Infinity and NaN\<close>

lemma raw_grow_split:
  assumes "raw_ok b"
  obtains z y where "raw_grow_buffer junk n b = (b\<lparr>r_store := contents b @ z @ y, r_size := r_size b + n\<rparr>, r_size b)" "length z = n"
proof -
  let ?st = "r_store (raw_reserve junk (r_size b + n) b)"
  have "?st = contents b @ take n (drop (r_size b) ?st) @ drop (r_size b + n) ?st"
    using reserve_store(1) [OF assms, of junk "r_size b + n"]
    by (metis append_take_drop_id contents_def drop_drop add.commute)
  moreover have "length (take n (drop (r_size b) ?st)) = n" using reserve_store(2) [OF assms, of "r_size b + n" junk] by simp
  moreover have "raw_grow_buffer junk n b = (b\<lparr>r_store := ?st, r_size := r_size b + n\<rparr>, r_size b)"
    by (simp add: raw_grow_buffer_def raw_reserve_def Let_def)
  ultimately show thesis using that by metis
qed

lemma contents_written:
  assumes "raw_ok b" shows "contents (b\<lparr>r_store := contents b @ u @ y, r_size := r_size b + length u\<rparr>) = contents b @ u"
proof -
  have "length (contents b) = r_size b" using assms by (simp add: contents_def raw_ok_def)
  then show ?thesis unfolding contents_def [of "b\<lparr>r_store := u', r_size := n\<rparr>" for u' n] by simp
qed

lemma raw_write_str_field:
  assumes "raw_ok b"
  obtains l r y where "\<forall>t. length t = length s \<longrightarrow> str_field spec t = l @ t @ r"
    and "raw_write_str junk s spec b
      = (b\<lparr>r_store := contents b @ (l @ s @ r) @ y, r_size := r_size b + length (l @ s @ r)\<rparr>, r_size b + length l)"
proof (cases "width spec \<le> length s")
  case True
  obtain z y where g: "raw_grow_buffer junk (length s) b = (b\<lparr>r_store := contents b @ z @ y, r_size := r_size b + length s\<rparr>, r_size b)"
    "length z = length s" using raw_grow_split [OF assms] by blast
  have c: "length (contents b) = r_size b" using assms by (simp add: contents_def raw_ok_def)
  have "raw_write_str junk s spec b = (b\<lparr>r_store := contents b @ s @ y, r_size := r_size b + length s\<rparr>, r_size b)"
    using True g c by (simp add: raw_write_str_def copy_to_def)
  moreover have "str_field spec t = t" if "length t = length s" for t
    using True that by (cases "align spec") (simp_all add: str_field_def)
  ultimately show ?thesis using that [of "[]" "[]" y] by simp
next
  case False
  define pad where "pad = width spec - length s"
  have wd: "width spec = length s + pad" "0 < pad" using False by (auto simp: pad_def)
  obtain z y where g: "raw_grow_buffer junk (width spec) b = (b\<lparr>r_store := contents b @ z @ y, r_size := r_size b + width spec\<rparr>, r_size b)"
    "length z = width spec" using raw_grow_split [OF assms] by blast
  have c: "length (contents b) = r_size b" using assms by (simp add: contents_def raw_ok_def)
  define l where "l = (case align spec of ALIGN_RIGHT \<Rightarrow> replicate pad (fill spec) | ALIGN_CENTER \<Rightarrow> replicate (pad div 2) (fill spec) | _ \<Rightarrow> [])"
  define r where "r = (case align spec of ALIGN_RIGHT \<Rightarrow> [] | ALIGN_CENTER \<Rightarrow> replicate (pad - pad div 2) (fill spec) | _ \<Rightarrow> replicate pad (fill spec))"
  have "raw_write_str junk s spec b = (b\<lparr>r_store := contents b @ l @ s @ r @ y, r_size := r_size b + width spec\<rparr>, r_size b + length l)"
    using g(2) c by (cases "align spec")
      (simp_all add: raw_write_str_def g(1) [unfolded wd] wd l_def r_def fill_to_def copy_to_def fill_padding_def Let_def)
  moreover have "str_field spec t = l @ t @ r" if "length t = length s" for t
    using that by (cases "align spec") (simp_all add: str_field_def wd l_def r_def Let_def)
  moreover have "length (l @ s @ r) = width spec" by (cases "align spec") (simp_all add: wd l_def r_def)
  ultimately show ?thesis using that [of l r y] by simp
qed

theorem write_name_field:
  assumes "raw_ok b"
  shows "contents (write_name junk name sign spec b) = contents b @ str_field spec (sign_text sign @ name)"
proof (cases sign)
  case None
  obtain l r y where "\<forall>t. length t = length name \<longrightarrow> str_field spec t = l @ t @ r"
    "raw_write_str junk name spec b
      = (b\<lparr>r_store := contents b @ (l @ name @ r) @ y, r_size := r_size b + length (l @ name @ r)\<rparr>, r_size b + length l)"
    by (rule raw_write_str_field [OF assms, where s = name and spec = spec and junk = junk])
  then show ?thesis using None contents_written [OF assms, of "l @ name @ r" y] by (simp add: write_name_def sign_text_def)
next
  case (Some c)
  obtain l r y where w: "\<forall>t. length t = length (CHR '' '' # name) \<longrightarrow> str_field spec t = l @ t @ r"
    "raw_write_str junk (CHR '' '' # name) spec b
      = (b\<lparr>r_store := contents b @ (l @ (CHR '' '' # name) @ r) @ y, r_size := r_size b + length (l @ (CHR '' '' # name) @ r)\<rparr>, r_size b + length l)"
    by (rule raw_write_str_field [OF assms, where s = "CHR '' '' # name" and spec = spec and junk = junk])
  have "length (contents b) = r_size b" using assms by (simp add: contents_def raw_ok_def)
  moreover have "contents (b\<lparr>r_size := n, r_store := u\<rparr>) = contents (b\<lparr>r_store := u, r_size := n\<rparr>)" for n u
    by (simp add: contents_def)
  ultimately show ?thesis using Some w contents_written [OF assms, of "l @ (c # name) @ r" y]
    by (simp add: write_name_def sign_text_def list_update_append)
qed

end
