(* ===== verification/FmtPrintf.thy ===== *)
theory FmtPrintf
  imports FmtFormat
begin

text \<open>
  The printf interpreter of the formatting library: \<open>PrintfFormatter\<close>, \<open>PrintfArgFormatter\<close> and the visitors they use, of
  \<open>src/common/spdlog/include/details/format.cc\<close>.

  Strings, arguments and the writer are those of \<open>FmtFormat\<close>; \<open>nx\<close> is \<open>next_arg_index_\<close>. The types have
  the sizes of the LP64 model: \<open>int\<close> has 32 bits, \<open>long\<close>, \<open>long long\<close>, \<open>intmax_t\<close>, \<open>size_t\<close> and \<open>ptrdiff_t\<close> have 64,
  and \<open>char\<close> is signed.
\<close>

section \<open>Visitors\<close>

text \<open>The value of an integer argument as the visitors receive it, and with which signedness.\<close>

definition int_value :: "fmt_arg \<Rightarrow> int option" where
  "int_value arg =
     (case arg of
        ArgInt v \<Rightarrow> Some (sint v) | ArgUInt v \<Rightarrow> Some (uint v)
      | ArgLongLong v \<Rightarrow> Some (sint v) | ArgULongLong v \<Rightarrow> Some (uint v)
      | ArgBool b \<Rightarrow> Some (of_bool b) | ArgChar v \<Rightarrow> Some (sint v) | _ \<Rightarrow> None)"

definition IsZeroInt :: "fmt_arg \<Rightarrow> bool" where
  "IsZeroInt arg \<longleftrightarrow> int_value arg = Some 0"

text \<open>\<open>WidthHandler\<close>: the width, and whether the argument was negative; the negation is in the unsigned type of
  the argument.\<close>

definition negated_width :: "'a::len word \<Rightarrow> bool \<times> nat" where
  "negated_width v = (is_negative True v, abs_value True v)"

definition WidthHandler :: "fmt_arg \<Rightarrow> format_spec \<Rightarrow> fmt_error + nat \<times> format_spec" where
  "WidthHandler arg spec =
     sbind (case arg of
              ArgInt v \<Rightarrow> Inr (negated_width v)
            | ArgUInt v \<Rightarrow> Inr (False, unat v)
            | ArgLongLong v \<Rightarrow> Inr (negated_width v)
            | ArgULongLong v \<Rightarrow> Inr (False, unat v)
            | ArgBool b \<Rightarrow> Inr (False, of_bool b)
            | ArgChar v \<Rightarrow> Inr (negated_width v)
            | _ \<Rightarrow> Inl (FormatError ''width is not integer''))
       (\<lambda>(neg, w).
          if w > 0x7fffffff then Inl (FormatError ''number is too big'')
          else Inr (w, if neg then spec\<lparr>align := ALIGN_LEFT\<rparr> else spec))"

definition PrecisionHandler :: "fmt_arg \<Rightarrow> fmt_error + int" where
  "PrecisionHandler arg =
     (case int_value arg of
        None \<Rightarrow> Inl (FormatError ''precision is not integer'')
      | Some v \<Rightarrow> if - 0x80000000 \<le> v \<and> v \<le> 0x7fffffff then Inr v else Inl (FormatError ''number is too big''))"

text \<open>\<open>ArgConverter<T>\<close>, where \<open>T\<close> has \<open>n\<close> bits. For a type larger than \<open>int\<close> the value is converted to the unsigned
  type of the argument, not of \<open>T\<close>.\<close>

definition make_unsigned :: "fmt_arg \<Rightarrow> u64" where
  "make_unsigned arg =
     (case arg of
        ArgInt v \<Rightarrow> ucast v | ArgUInt v \<Rightarrow> ucast v | ArgLongLong v \<Rightarrow> v | ArgULongLong v \<Rightarrow> v
      | ArgBool b \<Rightarrow> of_bool b | ArgChar v \<Rightarrow> ucast v | _ \<Rightarrow> 0)"

definition ArgConverter :: "nat \<Rightarrow> char \<Rightarrow> fmt_arg \<Rightarrow> fmt_arg" where
  "ArgConverter n type arg =
     (case int_value arg of
        None \<Rightarrow> arg
      | Some v \<Rightarrow>
          if type = CHR ''s'' \<and> (case arg of ArgBool _ \<Rightarrow> True | _ \<Rightarrow> False) then arg
          else
            let is_signed = (type = CHR ''d'' \<or> type = CHR ''i'')
            in if n \<le> 32
               then (if is_signed then ArgInt (word_of_int (signed_take_bit (n - 1) v))
                     else ArgUInt (word_of_int (take_bit n v)))
               else (if is_signed then ArgLongLong (make_unsigned arg) else ArgULongLong (make_unsigned arg)))"

definition CharConverter :: "fmt_arg \<Rightarrow> fmt_arg" where
  "CharConverter arg =
     (case int_value arg of None \<Rightarrow> arg | Some v \<Rightarrow> ArgChar (word_of_int (signed_take_bit 7 v)))"

section \<open>PrintfArgFormatter\<close>

definition write_null_pointer :: "char \<Rightarrow> format_spec \<Rightarrow> char list \<Rightarrow> fmt_error + char list" where
  "write_null_pointer junk spec w = write_str_arg junk (Some ''(nil)'') (spec\<lparr>type_code := CHR 0x00\<rparr>) w"

definition printf_bool :: "char \<Rightarrow> bool \<Rightarrow> format_spec \<Rightarrow> char list \<Rightarrow> fmt_error + char list" where
  "printf_bool junk b spec w =
     (if type_code spec \<noteq> CHR ''s'' then write_int junk count_digits_32 False (of_bool b :: u32) spec w
      else write_str_arg junk (Some (if b then ''true'' else ''false'')) (spec\<lparr>type_code := CHR 0x00\<rparr>) w)"

text \<open>The character is written also after the number has been.\<close>

definition printf_char :: "char \<Rightarrow> u32 \<Rightarrow> format_spec \<Rightarrow> char list \<Rightarrow> fmt_error + char list" where
  "printf_char junk v spec w =
     sbind (if type_code spec \<noteq> CHR 0x00 \<and> type_code spec \<noteq> CHR ''c''
            then write_int junk count_digits_32 True v spec w else Inr w)
       (\<lambda>w'. let c = char_of (unat v)
             in Inr (if width spec > 1
                  then
                    let (w1, out) = grow_buffer junk (width spec) w'
                    in if align spec \<noteq> ALIGN_LEFT
                       then (fill_to out (out + (width spec - 1)) (CHR '' '') w1)[out + (width spec - 1) := c]
                       else (fill_to (out + 1) (out + 1 + (width spec - 1)) (CHR '' '') w1)[out := c]
                  else let (w1, out) = grow_buffer junk 1 w' in w1[out := c]))"

definition printf_visit :: "char \<Rightarrow> fmt_arg \<Rightarrow> format_spec \<Rightarrow> char list \<Rightarrow> fmt_error + char list" where
  "printf_visit junk arg spec w =
     (case arg of
        ArgBool b \<Rightarrow> printf_bool junk b spec w
      | ArgChar v \<Rightarrow> printf_char junk v spec w
      | ArgCString p None \<Rightarrow>
          if type_code spec = CHR ''p'' then write_null_pointer junk spec w
          else write_str_arg junk (Some ''(null)'') spec w
      | ArgPointer p \<Rightarrow>
          if p = 0 then write_null_pointer junk spec w else visit_arg junk (ArgPointer p) spec w
      | _ \<Rightarrow> visit_arg junk arg spec w)"

section \<open>PrintfFormatter\<close>

fun parse_flags :: "format_spec \<Rightarrow> string \<Rightarrow> format_spec \<times> string" where
  "parse_flags spec [] = (spec, [])"
| "parse_flags spec (c # s) =
     (if c = CHR ''-'' then parse_flags (spec\<lparr>align := ALIGN_LEFT\<rparr>) s
      else if c = CHR ''+'' then parse_flags (spec\<lparr>flags := flags spec OR (SIGN_FLAG OR PLUS_FLAG)\<rparr>) s
      else if c = CHR ''0'' then parse_flags (spec\<lparr>fill := CHR ''0''\<rparr>) s
      else if c = CHR '' '' then parse_flags (spec\<lparr>flags := flags spec OR SIGN_FLAG\<rparr>) s
      else if c = CHR ''#'' then parse_flags (spec\<lparr>flags := flags spec OR HASH_FLAG\<rparr>) s
      else (spec, c # s))"

text \<open>\<open>get_arg\<close>: \<open>None\<close> is the index \<open>UINT_MAX\<close>, for the next argument. The index of the code starts at 1 and is
  decremented in 32 bits.\<close>

definition printf_get_arg :: "arg_list \<Rightarrow> int \<Rightarrow> string \<Rightarrow> nat option \<Rightarrow> fmt_error + fmt_arg \<times> int" where
  "printf_get_arg args nx s arg_index =
     (case (case arg_index of
              None \<Rightarrow> next_arg args nx
            | Some i \<Rightarrow> get_arg args nx (if i = 0 then 0xffffffff else i - 1)) of
        (Inl error, nx') \<Rightarrow> Inl (FormatError (if s = [] then ''invalid format string'' else error))
      | (Inr arg, nx') \<Rightarrow> Inr (arg, nx'))"

definition parse_star_width ::
  "arg_list \<Rightarrow> int \<Rightarrow> format_spec \<Rightarrow> string \<Rightarrow> fmt_error + int \<times> string \<times> format_spec" where
  "parse_star_width args nx spec s =
     (if is_digit (cur s)
      then sbind (parse_nonnegative_int s) (\<lambda>(v, s'). Inr (nx, s', spec\<lparr>width := v\<rparr>))
      else if cur s = CHR ''*''
      then sbind (printf_get_arg args nx (tl s) None) (\<lambda>(arg, nx').
           sbind (WidthHandler arg spec) (\<lambda>(v, spec'). Inr (nx', tl s, spec'\<lparr>width := v\<rparr>)))
      else Inr (nx, s, spec))"

text \<open>\<open>parse_header\<close> returns the argument index first.\<close>

definition parse_header ::
  "arg_list \<Rightarrow> int \<Rightarrow> format_spec \<Rightarrow> string \<Rightarrow> fmt_error + nat option \<times> int \<times> string \<times> format_spec" where
  "parse_header args nx spec s =
     (let rest = (\<lambda>arg_index sp s1.
            let (sp1, s2) = parse_flags sp s1
            in sbind (parse_star_width args nx sp1 s2) (\<lambda>(nx', s3, sp2). Inr (arg_index, nx', s3, sp2)))
      in if is_digit (cur s)
         then sbind (parse_nonnegative_int s) (\<lambda>(v, s1).
           if cur s1 = CHR ''$'' then rest (Some v) spec (tl s1)
           else
             let sp = (if cur s = CHR ''0'' then spec\<lparr>fill := CHR ''0''\<rparr> else spec)
             in if v \<noteq> 0 then Inr (None, nx, s1, sp\<lparr>width := v\<rparr>) else rest None sp s1)
         else rest None spec s)"

definition printf_precision ::
  "arg_list \<Rightarrow> int \<Rightarrow> format_spec \<Rightarrow> string \<Rightarrow> fmt_error + int \<times> string \<times> format_spec" where
  "printf_precision args nx spec s =
     (if cur s \<noteq> CHR ''.'' then Inr (nx, s, spec)
      else
        let s1 = tl s
        in if is_digit (cur s1)
           then sbind (parse_nonnegative_int s1) (\<lambda>(v, s'). Inr (nx, s', spec\<lparr>precision := int v\<rparr>))
           else if cur s1 = CHR ''*''
           then sbind (printf_get_arg args nx (tl s1) None) (\<lambda>(arg, nx').
                sbind (PrecisionHandler arg) (\<lambda>v. Inr (nx', tl s1, spec\<lparr>precision := v\<rparr>)))
           else Inr (nx, s1, spec))"

text \<open>What becomes of the flags once the argument is known.\<close>

definition adjust_spec :: "fmt_arg \<Rightarrow> format_spec \<Rightarrow> format_spec" where
  "adjust_spec arg spec =
     (let sp1 = (if spec_flag spec HASH_FLAG \<and> IsZeroInt arg
                 then spec\<lparr>flags := flags spec AND NOT HASH_FLAG\<rparr> else spec)
      in if fill sp1 = CHR ''0''
         then (if is_integer_arg arg then sp1\<lparr>align := ALIGN_NUMERIC\<rparr> else sp1\<lparr>fill := CHR '' ''\<rparr>)
         else sp1)"

text \<open>The length modifier.\<close>

definition parse_length :: "fmt_arg \<Rightarrow> string \<Rightarrow> fmt_arg \<times> string" where
  "parse_length arg s =
     (if cur s = CHR ''h''
      then (if cur (tl s) = CHR ''h'' then (ArgConverter 8 (cur (tl (tl s))) arg, tl (tl s))
            else (ArgConverter 16 (cur (tl s)) arg, tl s))
      else if cur s = CHR ''l''
      then (if cur (tl s) = CHR ''l'' then (ArgConverter 64 (cur (tl (tl s))) arg, tl (tl s))
            else (ArgConverter 64 (cur (tl s)) arg, tl s))
      else if cur s = CHR ''j'' \<or> cur s = CHR ''z'' \<or> cur s = CHR ''t'' then (ArgConverter 64 (cur (tl s)) arg, tl s)
      else if cur s = CHR ''L'' then (arg, tl s)
      else (ArgConverter 32 (cur s) arg, s))"

definition printf_type :: "fmt_arg \<Rightarrow> char \<Rightarrow> fmt_arg \<times> char" where
  "printf_type arg c =
     (if is_integer_arg arg
      then (if c = CHR ''i'' \<or> c = CHR ''u'' then (arg, CHR ''d'')
            else if c = CHR ''c'' then (CharConverter arg, c) else (arg, c))
      else (arg, c))"

text \<open>One conversion, from behind its per cent sign: the new index, the rest of the format string and the
  buffer.\<close>

definition printf_conversion ::
  "char \<Rightarrow> arg_list \<Rightarrow> int \<Rightarrow> string \<Rightarrow> char list \<Rightarrow> fmt_error + int \<times> string \<times> char list" where
  "printf_conversion junk args nx s w =
     sbind (parse_header args nx ((FormatSpec 0 (CHR 0x00) (CHR '' ''))\<lparr>align := ALIGN_RIGHT\<rparr>) s) (\<lambda>(arg_index, nx1, s1, sp1).
     sbind (printf_precision args nx1 sp1 s1) (\<lambda>(nx2, s2, sp2).
     sbind (printf_get_arg args nx2 s2 arg_index) (\<lambda>(arg, nx3).
       let sp3 = adjust_spec arg sp2;
           (arg1, s3) = parse_length arg s2
       in if s3 = [] then Inl (FormatError ''invalid format string'')
          else
            let (arg2, ty) = printf_type arg1 (cur s3)
            in sbind (printf_visit junk arg2 (sp3\<lparr>type_code := ty\<rparr>) w) (\<lambda>w'. Inr (nx3, tl s3, w')))))"

text \<open>Every parser moves forward, and the type is always consumed.\<close>

lemma parse_flags_length: "parse_flags spec s = (spec', s') \<Longrightarrow> length s' \<le> length s"
  by (induction spec s rule: parse_flags.induct) (auto split: if_splits)

lemma parse_star_width_length: "parse_star_width args nx spec s = Inr (nx', s', spec') \<Longrightarrow> length s' \<le> length s"
  by (auto simp: parse_star_width_def sbind_Inr_iff dest!: parse_nonnegative_int_length split: if_splits)

lemma parse_header_length:
  assumes "parse_header args nx spec s = Inr (i, nx', s', spec')"
  shows "length s' \<le> length s"
proof -
  have rest: "length s3 \<le> length s1"
    if "parse_flags sp s1 = (sp1, s2)" "parse_star_width args nx sp1 s2 = Inr (nx1, s3, sp2)" for sp s1 sp1 s2 nx1 s3 sp2
    using parse_flags_length [OF that(1)] parse_star_width_length [OF that(2)] by simp
  show ?thesis
    using assms
    by (auto simp: parse_header_def sbind_Inr_iff Let_def dest!: parse_nonnegative_int_length rest
        split: if_splits prod.splits)
qed

lemma printf_precision_length: "printf_precision args nx spec s = Inr (nx', s', spec') \<Longrightarrow> length s' \<le> length s"
  by (auto simp: printf_precision_def sbind_Inr_iff Let_def dest!: parse_nonnegative_int_length split: if_splits)

lemma parse_length_length: "parse_length arg s = (arg', s') \<Longrightarrow> length s' \<le> length s"
  by (auto simp: parse_length_def split: if_splits)

lemma printf_conversion_length:
  assumes "printf_conversion junk args nx s w = Inr (nx', s', w')"
  shows "length s' < Suc (length s)"
proof -
  have *: "length (tl (snd (parse_length arg s2))) \<le> length s"
    if "parse_header args nx sp s = Inr (i, nx1, s1, sp1)" "printf_precision args nx1 sp1 s1 = Inr (nx2, s2, sp2)"
    for sp i nx1 s1 sp1 nx2 s2 sp2 arg
    using parse_header_length [OF that(1)] printf_precision_length [OF that(2)] parse_length_length [of arg s2, OF surjective_pairing]
    by simp
  show ?thesis
    using assms
    by (auto simp: printf_conversion_def sbind_Inr_iff Let_def less_Suc_eq_le case_prod_unfold dest: * split: if_splits)
qed

text \<open>\<open>format\<close>: \<open>pend\<close> are the characters from \<open>start\<close> up to the pointer. An exception leaves what was written before
  it in the buffer.\<close>

function printf_loop ::
  "char \<Rightarrow> arg_list \<Rightarrow> int \<Rightarrow> char list \<Rightarrow> string \<Rightarrow> string \<Rightarrow> fmt_error \<times> char list + char list" where
  "printf_loop junk args nx w pend s =
     (case s of
        [] \<Rightarrow> Inr (w @ pend)
      | c # s1 \<Rightarrow>
          if c \<noteq> CHR ''%'' then printf_loop junk args nx w (pend @ [c]) s1
          else if cur s1 = c then printf_loop junk args nx (w @ pend @ [c]) [] (tl s1)
          else
            case printf_conversion junk args nx s1 (w @ pend) of
              Inl e \<Rightarrow> Inl (e, w @ pend)
            | Inr (nx', s2, w') \<Rightarrow> printf_loop junk args nx' w' [] s2)"
  by pat_completeness auto
termination
  by (relation "measure (\<lambda>(junk, args, nx, w, pend, s). length s)") (auto dest!: printf_conversion_length)

declare printf_loop.simps [simp del]

definition printf_format :: "char \<Rightarrow> string \<Rightarrow> arg_list \<Rightarrow> char list \<Rightarrow> fmt_error \<times> char list + char list" where
  "printf_format junk format_str args w = printf_loop junk args 0 w [] format_str"

lemma printf_loop_Nil [simp]: "printf_loop junk args nx w pend [] = Inr (w @ pend)"
  by (simp add: printf_loop.simps)

lemma printf_loop_char:
  "c \<noteq> CHR ''%'' \<Longrightarrow> printf_loop junk args nx w pend (c # s) = printf_loop junk args nx w (pend @ [c]) s"
  by (simp add: printf_loop.simps [of junk args nx w pend "c # s"])

lemma printf_loop_percent:
  "printf_loop junk args nx w pend (CHR ''%'' # CHR ''%'' # s) = printf_loop junk args nx (w @ pend @ ''%'') [] s"
  by (subst printf_loop.simps) auto

lemma printf_loop_conversion:
  assumes "cur s \<noteq> CHR ''%''" and "printf_conversion junk args nx s (w @ pend) = Inr (nx', s', w')"
  shows "printf_loop junk args nx w pend (CHR ''%'' # s) = printf_loop junk args nx' w' [] s'"
  using assms by (subst printf_loop.simps) simp

section \<open>The text of a conversion\<close>

text \<open>A conversion of printf: its flags, width (0 for none), precision, length modifier and type.\<close>

record conv =
  c_flags :: string
  c_width :: nat
  c_prec :: "nat option"
  c_len :: string
  c_type :: char

definition prec_string :: "nat option \<Rightarrow> string" where
  "prec_string p = (case p of None \<Rightarrow> [] | Some n \<Rightarrow> CHR ''.'' # nat_digits n)"

definition conv_string :: "conv \<Rightarrow> string" where
  "conv_string c =
     c_flags c @ (if c_width c = 0 then [] else nat_digits (c_width c)) @ prec_string (c_prec c) @ c_len c @ [c_type c]"

abbreviation is_flag :: "char \<Rightarrow> bool" where
  "is_flag f \<equiv> f \<in> set ''-+0 #''"

definition conv_ok :: "conv \<Rightarrow> bool" where
  "conv_ok c \<longleftrightarrow>
     list_all is_flag (c_flags c) \<and> c_width c < 2 ^ 31 \<and> (case c_prec c of None \<Rightarrow> True | Some p \<Rightarrow> p < 2 ^ 31)
     \<and> c_len c \<in> {[], ''hh'', ''h'', ''l'', ''ll'', ''j'', ''z'', ''t''} \<and> c_type c \<in> set ''diuoxXcs''"

text \<open>The specification that the flags stand for.\<close>

definition flag_step :: "char \<Rightarrow> format_spec \<Rightarrow> format_spec" where
  "flag_step f spec = fst (parse_flags spec [f])"

lemma parse_flags_fold:
  "list_all is_flag fs \<Longrightarrow> \<not> is_flag (cur s) \<Longrightarrow> parse_flags spec (fs @ s) = (fold flag_step fs spec, s)"
proof (induction fs arbitrary: spec)
  case Nil
  then show ?case by (cases s) auto
qed (auto simp: flag_step_def)

lemma fold_zeros: "(flag_step (CHR ''0'') ^^ n) spec = (if n = 0 then spec else spec\<lparr>fill := CHR ''0''\<rparr>)"
  by (induction n arbitrary: spec) (simp_all add: flag_step_def)

lemma leading_zeros: "\<exists>n fs'. fs = replicate n (CHR ''0'') @ fs' \<and> cur fs' \<noteq> CHR ''0''"
proof (intro exI conjI)
  show "fs = replicate (length (takeWhile (\<lambda>c. c = CHR ''0'') fs)) (CHR ''0'') @ dropWhile (\<lambda>c. c = CHR ''0'') fs"
    by (induction fs) auto
  show "cur (dropWhile (\<lambda>c. c = CHR ''0'') fs) \<noteq> CHR ''0''" by (induction fs) auto
qed

lemma fold_flags:
  "align (fold flag_step fs sp) = (if CHR ''-'' \<in> set fs then ALIGN_LEFT else align sp)"
  "fill (fold flag_step fs sp) = (if CHR ''0'' \<in> set fs then CHR ''0'' else fill sp)"
  "width (fold flag_step fs sp) = width sp" "precision (fold flag_step fs sp) = precision sp"
  "type_code (fold flag_step fs sp) = type_code sp"
  by (induction fs arbitrary: sp) (simp_all add: flag_step_def)

lemma spec_flag_or:
  "spec_flag (sp\<lparr>flags := flags sp OR f\<rparr>) g \<longleftrightarrow> spec_flag sp g \<or> f AND g \<noteq> 0"
  by (simp add: spec_flag_def bit.conj_disj_distrib2 or_eq_0_iff)

lemma fold_spec_flags:
  "spec_flag (fold flag_step fs sp) SIGN_FLAG \<longleftrightarrow> spec_flag sp SIGN_FLAG \<or> CHR ''+'' \<in> set fs \<or> CHR '' '' \<in> set fs"
  "spec_flag (fold flag_step fs sp) PLUS_FLAG \<longleftrightarrow> spec_flag sp PLUS_FLAG \<or> CHR ''+'' \<in> set fs"
  "spec_flag (fold flag_step fs sp) HASH_FLAG \<longleftrightarrow> spec_flag sp HASH_FLAG \<or> CHR ''#'' \<in> set fs"
proof -
  have fl: "spec_flag (sp\<lparr>align := a\<rparr>) g = spec_flag sp g" "spec_flag (sp\<lparr>fill := c\<rparr>) g = spec_flag sp g" for sp a c g
    by (simp_all add: spec_flag_def)
  note s = flag_step_def spec_flag_or fl SIGN_FLAG_def PLUS_FLAG_def HASH_FLAG_def
  show "spec_flag (fold flag_step fs sp) SIGN_FLAG \<longleftrightarrow> spec_flag sp SIGN_FLAG \<or> CHR ''+'' \<in> set fs \<or> CHR '' '' \<in> set fs"
    by (induction fs arbitrary: sp) (auto simp: s)
  show "spec_flag (fold flag_step fs sp) PLUS_FLAG \<longleftrightarrow> spec_flag sp PLUS_FLAG \<or> CHR ''+'' \<in> set fs"
    by (induction fs arbitrary: sp) (auto simp: s)
  show "spec_flag (fold flag_step fs sp) HASH_FLAG \<longleftrightarrow> spec_flag sp HASH_FLAG \<or> CHR ''#'' \<in> set fs"
    by (induction fs arbitrary: sp) (auto simp: s)
qed

text \<open>Reading the flags and the width.\<close>

definition width_digits :: "nat \<Rightarrow> string" where
  "width_digits m = (if m = 0 then [] else nat_digits m)"

lemma zeros_value: "foldl dval 0 (replicate n (CHR ''0'') @ ds) = foldl dval 0 ds"
proof -
  have "foldl dval 0 (replicate n (CHR ''0'')) = 0" by (induction n) simp_all
  then show ?thesis by simp
qed

lemma parse_zeros:
  assumes "m < 2 ^ 31" and "\<not> is_digit (cur s)" and "ds = replicate n (CHR ''0'') @ width_digits m" and "ds \<noteq> []"
  shows "parse_nonnegative_int (ds @ s) = Inr (m, s)"
proof -
  have "foldl dval 0 ds = m" using assms(3) nat_digits_dval [of m] zeros_value [of n] by (simp add: width_digits_def split: if_splits)
  moreover have "list_all is_digit ds" using assms(3) nat_digits_dval [of m] by (auto simp: width_digits_def list_all_iff is_digit_def split: if_splits)
  ultimately have "parse_int_loop 0 (ds @ s) = (word_of_nat m, s)"
    using parse_int_loop_digits [of ds s 0] assms(1,2,4) by simp
  moreover have "unat (word_of_nat m :: u32) = m" using assms(1) by (simp add: unat_of_nat)
  ultimately show ?thesis using assms(1) by (simp add: parse_nonnegative_int_def word_less_nat_alt)
qed

lemma width_digits_start:
  assumes "\<not> is_flag (cur s)"
  shows "\<not> is_flag (cur (width_digits m @ s))"
proof (cases "m = 0")
  case False
  then obtain d ds where "nat_digits m = d # ds" "is_digit d" "d \<noteq> CHR ''0''" using nat_digits_head [of m] by auto
  then show ?thesis using False digit_special [of d] by (auto simp: width_digits_def)
qed (use assms in \<open>simp add: width_digits_def\<close>)

lemma parse_star_width_digits:
  assumes "m < 2 ^ 31" and "\<not> is_digit (cur s)" and "cur s \<noteq> CHR ''*''" and "width sp = 0"
  shows "parse_star_width args nx sp (width_digits m @ s) = Inr (nx, s, sp\<lparr>width := m\<rparr>)"
proof (cases "m = 0")
  case False
  then obtain d ds where "nat_digits m = d # ds" "is_digit d" using nat_digits_head [of m] by auto
  then show ?thesis using False parse_digits [OF assms(1,2)] by (simp add: parse_star_width_def width_digits_def)
qed (use assms in \<open>simp add: parse_star_width_def width_digits_def\<close>)

lemma flags_and_width:
  assumes "list_all is_flag fs" and "m < 2 ^ 31" and "\<not> is_digit (cur s)" and "cur s \<notin> set ''-+ #*$''" and "width sp = 0"
  shows "(let (sp1, s2) = parse_flags sp (fs @ width_digits m @ s)
     in sbind (parse_star_width args nx sp1 s2) (\<lambda>(nx', s3, sp2). Inr (i, nx', s3, sp2)))
    = Inr (i, nx, s, (fold flag_step fs sp)\<lparr>width := m\<rparr>)"
proof -
  have n: "\<not> is_flag (cur s)" using assms(3,4) by (auto simp: is_digit_def)
  have "cur s \<noteq> CHR ''*''" using assms(4) by auto
  from parse_star_width_digits [OF assms(2,3) this, of "fold flag_step fs sp" args nx]
  show ?thesis
    using parse_flags_fold [OF assms(1) width_digits_start [OF n], of sp] assms(5) by (simp add: fold_flags)
qed

lemma parse_header_string:
  assumes "list_all is_flag fs" and "m < 2 ^ 31" and "\<not> is_digit (cur s)" and "cur s \<notin> set ''-+ #*$''" and "width sp = 0"
  shows "parse_header args nx sp (fs @ width_digits m @ s) = Inr (None, nx, s, (fold flag_step fs sp)\<lparr>width := m\<rparr>)"
proof -
  obtain n fs' where fs: "fs = replicate n (CHR ''0'') @ fs'" "cur fs' \<noteq> CHR ''0''" using leading_zeros by blast
  have fl: "list_all is_flag fs'" using assms(1) fs(1) by simp
  note rest = flags_and_width [OF fl assms(2-4)]
  have s: "cur s \<noteq> CHR ''$''" using assms(4) by auto
  have dig: "\<not> is_digit (cur fs')" using fl fs(2) by (cases fs') (auto simp: is_digit_def)
  consider "n = 0" "fs' \<noteq> []" | "n = 0" "fs' = []" "m = 0" | "n = 0" "fs' = []" "m \<noteq> 0" | "n \<noteq> 0" "fs' = []" | "n \<noteq> 0" "fs' \<noteq> []"
    by blast
  then show ?thesis
  proof cases
    case 1
    then have "\<not> is_digit (cur (fs' @ width_digits m @ s))" using dig by (cases fs') auto
    then show ?thesis using rest [OF assms(5), of args nx "None :: nat option"] 1 fs(1) by (simp add: parse_header_def Let_def)
  next
    case 2
    then show ?thesis using rest [OF assms(5), of args nx "None :: nat option"] fs(1) assms(3) by (simp add: parse_header_def width_digits_def Let_def)
  next
    case 3
    then obtain d ds where d: "nat_digits m = d # ds" "is_digit d" "d \<noteq> CHR ''0''" using nat_digits_head [of m] by auto
    then show ?thesis
      using 3 fs(1) parse_digits [OF assms(2,3)] s by (simp add: parse_header_def width_digits_def Let_def)
  next
    case 4
    have "parse_nonnegative_int (replicate n (CHR ''0'') @ width_digits m @ s) = Inr (m, s)"
      using parse_zeros [OF assms(2,3) refl, of n] 4(1) by simp
    moreover have "cur (replicate n (CHR ''0'') @ width_digits m @ s) = CHR ''0''" using 4(1) by (cases n) auto
    moreover have "is_digit (CHR ''0'')" by (simp add: is_digit_def)
    ultimately show ?thesis
      using 4 fs(1) s flags_and_width [of "[]" 0 s "sp\<lparr>fill := CHR ''0''\<rparr>" args nx "None :: nat option"] assms(3-5)
      by (simp add: parse_header_def fold_zeros width_digits_def Let_def)
  next
    case 5
    have nd: "\<not> is_digit (cur (fs' @ width_digits m @ s))" using dig 5 by (cases fs') auto
    have nd2: "cur (fs' @ width_digits m @ s) \<noteq> CHR ''$''" using fl 5 by (cases fs') auto
    have "parse_nonnegative_int (replicate n (CHR ''0'') @ fs' @ width_digits m @ s) = Inr (0, fs' @ width_digits m @ s)"
      using parse_zeros [OF _ nd refl, of 0 n] 5(1) by (simp add: width_digits_def)
    moreover have "cur (replicate n (CHR ''0'') @ fs' @ width_digits m @ s) = CHR ''0''" using 5(1) by (cases n) auto
    moreover have "is_digit (CHR ''0'')" by (simp add: is_digit_def)
    ultimately show ?thesis
      using 5 fs(1) nd2 rest [of "sp\<lparr>fill := CHR ''0''\<rparr>" args nx "None :: nat option"] assms(5)
      by (simp add: parse_header_def fold_zeros Let_def)
  qed
qed

lemma printf_precision_string:
  assumes "\<not> is_digit (cur s)" and "cur s \<noteq> CHR ''.''" and "precision sp = - 1" and "\<And>n. p = Some n \<Longrightarrow> n < 2 ^ 31"
  shows "printf_precision args nx sp (prec_string p @ s) = Inr (nx, s, sp\<lparr>precision := (case p of None \<Rightarrow> - 1 | Some n \<Rightarrow> int n)\<rparr>)"
proof (cases p)
  case (Some n)
  have "nat_digits n \<noteq> []" using length_nat_digits_pos [of n] by fastforce
  then obtain d ds where d: "nat_digits n = d # ds" "is_digit d" using nat_digits_dval [of n] by (cases "nat_digits n") auto
  have "parse_nonnegative_int (nat_digits n @ s) = Inr (n, s)" by (rule parse_digits [OF assms(4) [OF Some] assms(1)])
  then show ?thesis using Some d by (simp add: printf_precision_def prec_string_def)
qed (use assms in \<open>simp add: printf_precision_def prec_string_def\<close>)

section \<open>What the C standard says of a conversion\<close>

definition len_bits :: "string \<Rightarrow> nat" where
  "len_bits l = (if l = ''hh'' then 8 else if l = ''h'' then 16 else if l = [] then 32 else 64)"

definition signed_conv :: "conv \<Rightarrow> bool" where
  "signed_conv c \<longleftrightarrow> c_type c = CHR ''d'' \<or> c_type c = CHR ''i''"

text \<open>The value converted to the type that the length modifier and the type name.\<close>

definition c_value :: "conv \<Rightarrow> int \<Rightarrow> int" where
  "c_value c v = (if signed_conv c then signed_take_bit (len_bits (c_len c) - 1) v else take_bit (len_bits (c_len c)) v)"

definition c_digits :: "conv \<Rightarrow> nat \<Rightarrow> string" where
  "c_digits c n =
     (if c_type c = CHR ''o'' then base_digits hex_lower 3 n
      else if c_type c = CHR ''x'' then base_digits hex_lower 4 n
      else if c_type c = CHR ''X'' then base_digits hex_upper 4 n
      else nat_digits n)"

text \<open>The digits with the precision and the \<open>#\<close> flag of \<open>%o\<close>, and what stands before them.\<close>

definition c_number :: "conv \<Rightarrow> int \<Rightarrow> string" where
  "c_number c v =
     (let ds = (if c_prec c = Some 0 \<and> v = 0 then [] else c_digits c (nat \<bar>v\<bar>));
          ds' = replicate ((case c_prec c of None \<Rightarrow> 1 | Some p \<Rightarrow> p) - length ds) (CHR ''0'') @ ds
      in if c_type c = CHR ''o'' \<and> CHR ''#'' \<in> set (c_flags c) \<and> cur ds' \<noteq> CHR ''0'' then CHR ''0'' # ds' else ds')"

definition c_prefix :: "conv \<Rightarrow> int \<Rightarrow> string" where
  "c_prefix c v =
     (if signed_conv c
      then (if v < 0 then ''-'' else if CHR ''+'' \<in> set (c_flags c) then ''+'' else if CHR '' '' \<in> set (c_flags c) then '' '' else [])
      else if CHR ''#'' \<in> set (c_flags c) \<and> v \<noteq> 0 \<and> (c_type c = CHR ''x'' \<or> c_type c = CHR ''X'') then [CHR ''0'', c_type c]
      else [])"

definition c_pad :: "conv \<Rightarrow> nat \<Rightarrow> char \<Rightarrow> string" where
  "c_pad c n f = replicate (c_width c - n) f"

definition c_int :: "conv \<Rightarrow> int \<Rightarrow> string" where
  "c_int c v =
     (let pre = c_prefix c v; num = c_number c v; n = length pre + length num
      in if CHR ''-'' \<in> set (c_flags c) then pre @ num @ c_pad c n (CHR '' '')
         else if CHR ''0'' \<in> set (c_flags c) \<and> c_prec c = None then pre @ c_pad c n (CHR ''0'') @ num
         else c_pad c n (CHR '' '') @ pre @ num)"

definition c_text :: "conv \<Rightarrow> string \<Rightarrow> string" where
  "c_text c s =
     (if CHR ''-'' \<in> set (c_flags c) then s @ c_pad c (length s) (CHR '' '') else c_pad c (length s) (CHR '' '') @ s)"

definition c_conversion :: "conv \<Rightarrow> fmt_arg \<Rightarrow> string" where
  "c_conversion c arg =
     (let str = (\<lambda>s. c_text c (case c_prec c of None \<Rightarrow> s | Some p \<Rightarrow> take p s))
      in case arg of
           ArgString s \<Rightarrow> str s
         | ArgCString p (Some s) \<Rightarrow> str s
         | _ \<Rightarrow> (case int_value arg of
                   None \<Rightarrow> []
                 | Some v \<Rightarrow> if c_type c = CHR ''c'' then c_text c [char_of (nat (v mod 256))] else c_int c (c_value c v)))"

text \<open>The conversions on which the code follows the standard: a string for \<open>%s\<close> and an integer for the others, and not

  \<^item> the flags \<open>0\<close> and \<open>-\<close>, or the flag \<open>0\<close> and a precision, together;
  \<^item> the flags \<open>+\<close> and space with an unsigned conversion;
  \<^item> the precision 0 for the value 0;
  \<^item> the flag \<open>#\<close> when the value becomes 0 only by the length modifier;
  \<^item> a negative argument of 32 bits with a length modifier for 64 bits.\<close>

definition narrow_negative :: "fmt_arg \<Rightarrow> bool" where
  "narrow_negative arg = (case arg of ArgInt v \<Rightarrow> sint v < 0 | ArgChar v \<Rightarrow> sint v < 0 | _ \<Rightarrow> False)"

definition conv_fits :: "conv \<Rightarrow> fmt_arg \<Rightarrow> bool" where
  "conv_fits c arg \<longleftrightarrow>
     (case arg of
        ArgString s \<Rightarrow> c_type c = CHR ''s''
      | ArgCString p (Some s) \<Rightarrow> c_type c = CHR ''s''
      | _ \<Rightarrow>
        (case int_value arg of
           None \<Rightarrow> False
         | Some v \<Rightarrow>
             c_type c \<noteq> CHR ''s'' \<and> \<not> (CHR ''0'' \<in> set (c_flags c) \<and> CHR ''-'' \<in> set (c_flags c))
             \<and> (c_type c = CHR ''c''
                \<or> \<not> (CHR ''0'' \<in> set (c_flags c) \<and> c_prec c \<noteq> None)
                  \<and> (signed_conv c \<or> CHR ''+'' \<notin> set (c_flags c) \<and> CHR '' '' \<notin> set (c_flags c))
                  \<and> \<not> (c_prec c = Some 0 \<and> c_value c v = 0)
                  \<and> (CHR ''#'' \<in> set (c_flags c) \<and> c_value c v = 0 \<longrightarrow> v = 0)
                  \<and> \<not> (len_bits (c_len c) = 64 \<and> narrow_negative arg))))"

section \<open>The code does what the standard says\<close>

lemma base_digits_head: "n \<noteq> 0 \<Longrightarrow> cur (base_digits hex_lower 3 n) \<noteq> CHR ''0''"
proof (induction n rule: less_induct)
  case (less n)
  show ?case
  proof (cases "n div 8 = 0")
    case True
    then have "n \<in> {1..7}" using less.prems by auto
    then have "n \<in> set [1..<8]" by auto
    moreover have "list_all (\<lambda>m. cur (base_digits hex_lower 3 m) \<noteq> CHR ''0'') [1..<8]"
      by (simp add: upt_rec base_digits.simps hex_lower_def)
    ultimately show ?thesis by (simp add: list_all_iff)
  next
    case False
    then have "base_digits hex_lower 3 n = base_digits hex_lower 3 (n div 8) @ [hex_lower ! (n mod 8)]"
      by (subst base_digits.simps) simp
    moreover have "base_digits hex_lower 3 (n div 8) \<noteq> []" by (subst base_digits.simps) simp
    ultimately show ?thesis using less.IH [of "n div 8"] False by (cases "base_digits hex_lower 3 (n div 8)") simp_all
  qed
qed

lemma parse_length_string:
  assumes "l \<in> {[], ''hh'', ''h'', ''l'', ''ll'', ''j'', ''z'', ''t''}" and "t \<in> set ''diuoxXcs''"
  shows "parse_length arg (l @ t # s) = (ArgConverter (len_bits l) t arg, t # s)"
proof -
  have t: "t \<noteq> CHR ''h''" "t \<noteq> CHR ''l''" "t \<noteq> CHR ''j''" "t \<noteq> CHR ''z''" "t \<noteq> CHR ''t''" "t \<noteq> CHR ''L''"
    using assms(2) by (simp_all, elim disjE; simp)+
  show ?thesis
    using assms(1) unfolding insert_iff empty_iff
    by (elim disjE FalseE) (simp_all add: parse_length_def len_bits_def t)
qed

text \<open>The notation of a value that is written under a specification.\<close>

definition value_notation :: "int \<Rightarrow> format_spec \<Rightarrow> (string \<times> string) option" where
  "value_notation i spec =
     (let n = nat \<bar>i\<bar>; c = type_code spec;
          sign = (if i < 0 then ''-''
                  else if spec_flag spec SIGN_FLAG then (if spec_flag spec PLUS_FLAG then ''+'' else '' '') else []);
          mark = (\<lambda>m. if spec_flag spec HASH_FLAG then sign @ m else sign)
      in if c = CHR 0x00 \<or> c = CHR ''d'' then Some (sign, nat_digits n)
         else if c = CHR ''x'' then Some (mark ''0x'', base_digits hex_lower 4 n)
         else if c = CHR ''X'' then Some (mark ''0X'', base_digits hex_upper 4 n)
         else if c = CHR ''b'' then Some (mark ''0b'', base_digits hex_lower 1 n)
         else if c = CHR ''B'' then Some (mark ''0B'', base_digits hex_lower 1 n)
         else if c = CHR ''o'' then Some (mark ''0'', base_digits hex_lower 3 n)
         else None)"

lemma int_notation_value: "int_notation sg v spec = value_notation (if sg then sint v else uint v) spec"
  by (cases sg) (simp_all add: int_notation_def value_notation_def int_prefix_def)

definition machine_int :: "fmt_arg \<Rightarrow> bool" where
  "machine_int arg =
     (case arg of ArgInt _ \<Rightarrow> True | ArgUInt _ \<Rightarrow> True | ArgLongLong _ \<Rightarrow> True | ArgULongLong _ \<Rightarrow> True | _ \<Rightarrow> False)"

lemma int_value_simps [simp]:
  "int_value (ArgInt x) = Some (sint x)" "int_value (ArgUInt x) = Some (uint x)" "int_value (ArgLongLong y) = Some (sint y)"
  "int_value (ArgULongLong y) = Some (uint y)" "int_value (ArgBool b) = Some (of_bool b)" "int_value (ArgChar x) = Some (sint x)"
  "int_value (ArgCString p t) = None" "int_value (ArgString s) = None" "int_value (ArgPointer p) = None"
  by (simp_all add: int_value_def)

lemma printf_visit_int:
  assumes "machine_int arg" and "int_value arg = Some i" and "value_notation i sp = Some (pre, ds)"
  shows "printf_visit junk arg sp w = Inr (w @ int_field sp pre ds)"
  using assms
  by (cases arg) (auto simp: machine_int_def printf_visit_def visit_arg_def write_int_32 write_int_64 int_notation_value)

lemma make_unsigned_value:
  assumes "int_value arg = Some v" and "\<not> narrow_negative arg"
  shows "make_unsigned arg = word_of_int v"
proof -
  have nonneg: "uint x = sint x" if "\<not> sint x < 0" for x :: u32
  proof -
    have "0 \<le> sint x" using that by simp
    then have "nat (uint x) = nat (sint x)" using nat_sint_nonneg [of x] unat_eq_nat_uint [of x] by metis
    then show ?thesis using \<open>0 \<le> sint x\<close> uint_nonnegative [of x] by (metis nat_0_le)
  qed
  have of_bool: "of_bool b = (word_of_int (of_bool b) :: u64)" for b by (cases b) simp_all
  show ?thesis
  proof (cases arg)
    case (ArgInt x)
    then show ?thesis using assms nonneg [of x] by (simp add: make_unsigned_def narrow_negative_def ucast_eq)
  next
    case (ArgChar x)
    then show ?thesis using assms nonneg [of x] by (simp add: make_unsigned_def narrow_negative_def ucast_eq)
  next
    case (ArgBool b)
    then show ?thesis using assms(1) of_bool [of b] by (simp add: make_unsigned_def)
  next
    case (ArgUInt x)
    then show ?thesis using assms(1) by (simp add: make_unsigned_def ucast_eq)
  qed (use assms(1) in \<open>auto simp: make_unsigned_def\<close>)
qed

lemma ArgConverter_value:
  assumes "int_value arg = Some v" and "t \<noteq> CHR ''s''" and "n \<in> {8, 16, 32, 64}" and "n = 64 \<Longrightarrow> \<not> narrow_negative arg"
  shows "machine_int (ArgConverter n t arg)"
    and "int_value (ArgConverter n t arg) = Some (if t = CHR ''d'' \<or> t = CHR ''i'' then signed_take_bit (n - 1) v else take_bit n v)"
proof -
  have "n \<le> 32 \<and> 0 < n \<or> n = 64 \<and> make_unsigned arg = word_of_int v"
    using assms(1,3,4) make_unsigned_value by auto
  moreover have "ArgConverter n t arg =
    (if n \<le> 32
     then (if t = CHR ''d'' \<or> t = CHR ''i'' then ArgInt (word_of_int (signed_take_bit (n - 1) v)) else ArgUInt (word_of_int (take_bit n v)))
     else (if t = CHR ''d'' \<or> t = CHR ''i'' then ArgLongLong (make_unsigned arg) else ArgULongLong (make_unsigned arg)))"
    by (simp add: ArgConverter_def assms(1,2) Let_def)
  moreover have m: "n \<le> 32 \<Longrightarrow> min 31 (n - Suc 0) = n - Suc 0" "n \<le> 32 \<Longrightarrow> min 32 n = n" by simp_all
  ultimately have "machine_int (ArgConverter n t arg)
    \<and> int_value (ArgConverter n t arg) = Some (if t = CHR ''d'' \<or> t = CHR ''i'' then signed_take_bit (n - 1) v else take_bit n v)"
    by (elim disjE) (simp_all add: machine_int_def sint_sbintrunc' uint_word_of_int_eq m)
  then show "machine_int (ArgConverter n t arg)"
    "int_value (ArgConverter n t arg) = Some (if t = CHR ''d'' \<or> t = CHR ''i'' then signed_take_bit (n - 1) v else take_bit n v)"
    by blast+
qed

text \<open>The specification of a conversion before and after the argument is known.\<close>

definition conv_spec :: "conv \<Rightarrow> format_spec" where
  "conv_spec c =
     (fold flag_step (c_flags c) ((FormatSpec 0 (CHR 0x00) (CHR '' ''))\<lparr>align := ALIGN_RIGHT\<rparr>))
       \<lparr>width := c_width c, precision := (case c_prec c of None \<Rightarrow> - 1 | Some n \<Rightarrow> int n)\<rparr>"

lemma conv_spec_simps [simp]:
  "width (conv_spec c) = c_width c" "precision (conv_spec c) = (case c_prec c of None \<Rightarrow> - 1 | Some n \<Rightarrow> int n)"
  "align (conv_spec c) = (if CHR ''-'' \<in> set (c_flags c) then ALIGN_LEFT else ALIGN_RIGHT)"
  "fill (conv_spec c) = (if CHR ''0'' \<in> set (c_flags c) then CHR ''0'' else CHR '' '')"
  by (simp_all add: conv_spec_def fold_flags FormatSpec_def)

lemma conv_spec_flags:
  "spec_flag (conv_spec c) SIGN_FLAG \<longleftrightarrow> CHR ''+'' \<in> set (c_flags c) \<or> CHR '' '' \<in> set (c_flags c)"
  "spec_flag (conv_spec c) PLUS_FLAG \<longleftrightarrow> CHR ''+'' \<in> set (c_flags c)"
  "spec_flag (conv_spec c) HASH_FLAG \<longleftrightarrow> CHR ''#'' \<in> set (c_flags c)"
proof -
  have "spec_flag (conv_spec c) g = spec_flag (fold flag_step (c_flags c) ((FormatSpec 0 (CHR 0x00) (CHR '' ''))\<lparr>align := ALIGN_RIGHT\<rparr>)) g" for g
    by (simp add: conv_spec_def spec_flag_def)
  then show "spec_flag (conv_spec c) SIGN_FLAG \<longleftrightarrow> CHR ''+'' \<in> set (c_flags c) \<or> CHR '' '' \<in> set (c_flags c)"
    "spec_flag (conv_spec c) PLUS_FLAG \<longleftrightarrow> CHR ''+'' \<in> set (c_flags c)"
    "spec_flag (conv_spec c) HASH_FLAG \<longleftrightarrow> CHR ''#'' \<in> set (c_flags c)"
    by (simp_all add: fold_spec_flags, simp_all add: spec_flag_def FormatSpec_def)
qed

lemma adjust_conv_spec:
  fixes c arg
  defines "sp \<equiv> adjust_spec arg (conv_spec c)"
  shows "width sp = c_width c" "precision sp = precision (conv_spec c)"
    "spec_flag sp SIGN_FLAG \<longleftrightarrow> CHR ''+'' \<in> set (c_flags c) \<or> CHR '' '' \<in> set (c_flags c)"
    "spec_flag sp PLUS_FLAG \<longleftrightarrow> CHR ''+'' \<in> set (c_flags c)"
    "spec_flag sp HASH_FLAG \<longleftrightarrow> CHR ''#'' \<in> set (c_flags c) \<and> \<not> IsZeroInt arg"
    "align sp = (if CHR ''0'' \<in> set (c_flags c) \<and> is_integer_arg arg then ALIGN_NUMERIC
                 else if CHR ''-'' \<in> set (c_flags c) then ALIGN_LEFT else ALIGN_RIGHT)"
    "fill sp = (if CHR ''0'' \<in> set (c_flags c) \<and> is_integer_arg arg then CHR ''0'' else CHR '' '')"
proof -
  have f: "spec_flag (s\<lparr>align := a\<rparr>) g = spec_flag s g" "spec_flag (s\<lparr>fill := k\<rparr>) g = spec_flag s g" for s a k g
    by (simp_all add: spec_flag_def)
  have n: "spec_flag (s\<lparr>flags := flags s AND NOT HASH_FLAG\<rparr>) SIGN_FLAG = spec_flag s SIGN_FLAG"
    "spec_flag (s\<lparr>flags := flags s AND NOT HASH_FLAG\<rparr>) PLUS_FLAG = spec_flag s PLUS_FLAG"
    "\<not> spec_flag (s\<lparr>flags := flags s AND NOT HASH_FLAG\<rparr>) HASH_FLAG" for s
    by (simp_all add: spec_flag_def and.assoc SIGN_FLAG_def PLUS_FLAG_def HASH_FLAG_def)
  show "width sp = c_width c" "precision sp = precision (conv_spec c)"
    "align sp = (if CHR ''0'' \<in> set (c_flags c) \<and> is_integer_arg arg then ALIGN_NUMERIC
                 else if CHR ''-'' \<in> set (c_flags c) then ALIGN_LEFT else ALIGN_RIGHT)"
    "fill sp = (if CHR ''0'' \<in> set (c_flags c) \<and> is_integer_arg arg then CHR ''0'' else CHR '' '')"
    by (simp_all add: sp_def adjust_spec_def Let_def)
  show "spec_flag sp SIGN_FLAG \<longleftrightarrow> CHR ''+'' \<in> set (c_flags c) \<or> CHR '' '' \<in> set (c_flags c)"
    "spec_flag sp PLUS_FLAG \<longleftrightarrow> CHR ''+'' \<in> set (c_flags c)"
    "spec_flag sp HASH_FLAG \<longleftrightarrow> CHR ''#'' \<in> set (c_flags c) \<and> \<not> IsZeroInt arg"
    by (simp_all add: sp_def adjust_spec_def Let_def f n conv_spec_flags) blast
qed

definition c_layout :: "conv \<Rightarrow> string \<Rightarrow> string \<Rightarrow> string" where
  "c_layout c pre num =
     (let n = length pre + length num
      in if CHR ''-'' \<in> set (c_flags c) then pre @ num @ c_pad c n (CHR '' '')
         else if CHR ''0'' \<in> set (c_flags c) \<and> c_prec c = None then pre @ c_pad c n (CHR ''0'') @ num
         else c_pad c n (CHR '' '') @ pre @ num)"

lemma c_int_layout: "c_int c v = c_layout c (c_prefix c v) (c_number c v)"
  by (simp add: c_int_def c_layout_def Let_def)

definition prec_zeros :: "conv \<Rightarrow> string \<Rightarrow> string" where
  "prec_zeros c ds = replicate ((case c_prec c of None \<Rightarrow> 1 | Some p \<Rightarrow> p) - length ds) (CHR ''0'') @ ds"

lemma field_c_layout:
  assumes "pre = [] \<or> last pre \<noteq> CHR ''0''" and "ds \<noteq> []" and "is_integer_arg arg"
    and "\<not> (CHR ''0'' \<in> set (c_flags c) \<and> CHR ''-'' \<in> set (c_flags c))"
    and "\<not> (CHR ''0'' \<in> set (c_flags c) \<and> c_prec c \<noteq> None)"
  shows "int_field (adjust_spec arg (conv_spec c)) pre ds = c_layout c pre (prec_zeros c ds)"
proof (cases "c_prec c")
  case None
  have "1 - length ds = 0" using assms(2) by (cases ds) simp_all
  then show ?thesis
    using None assms(3,4)
    by (auto simp: int_field_def layout_def layout_plain_def c_layout_def prec_zeros_def c_pad_def adjust_conv_spec Let_def)
next
  case (Some p)
  have z: "CHR ''0'' \<notin> set (c_flags c)" using assms(5) Some by auto
  show ?thesis
  proof (cases "length ds < p")
    case True
    then have "length (prec_zeros c ds) = p" by (simp add: prec_zeros_def Some)
    then show ?thesis
      using True Some z assms(1)
      by (auto simp: int_field_def layout_def c_layout_def prec_zeros_def c_pad_def adjust_conv_spec Let_def)
  next
    case False
    then show ?thesis
      using Some z by (auto simp: int_field_def layout_def layout_plain_def c_layout_def prec_zeros_def c_pad_def adjust_conv_spec Let_def)
  qed
qed

lemma field_type [simp]: "int_field (sp\<lparr>type_code := t\<rparr>) pre ds = int_field sp pre ds"
  by (cases "align sp") (simp_all add: int_field_def layout_def layout_plain_def Let_def)

lemma octal_mark:
  assumes "align sp = ALIGN_NUMERIC \<Longrightarrow> fill sp = CHR ''0''"
  shows "int_field sp ''0'' ds = (if precision sp > int (length ds) then int_field sp [] ds else int_field sp [] (CHR ''0'' # ds))"
  using assms by (auto simp: int_field_def layout_def layout_plain_def Let_def replicate_app_Cons_same split: alignment.split)

lemma base_digits_ne [simp]: "base_digits d k n \<noteq> []"
  by (subst base_digits.simps) simp

lemma nat_digits_ne [simp]: "nat_digits n \<noteq> []"
  using length_nat_digits_pos [of n] by fastforce

lemma c_digits_ne [simp]: "c_digits c n \<noteq> []"
  by (simp add: c_digits_def)

lemma c_value_zero [simp]: "c_value c 0 = 0"
  by (simp add: c_value_def)

lemma c_value_nonneg: "\<not> signed_conv c \<Longrightarrow> 0 \<le> c_value c v"
  by (simp add: c_value_def)

lemma c_number_zeros:
  assumes "\<not> (c_prec c = Some 0 \<and> v = 0)"
  shows "c_number c v = (if c_type c = CHR ''o'' \<and> CHR ''#'' \<in> set (c_flags c) \<and> cur (prec_zeros c (c_digits c (nat \<bar>v\<bar>))) \<noteq> CHR ''0''
    then CHR ''0'' # prec_zeros c (c_digits c (nat \<bar>v\<bar>)) else prec_zeros c (c_digits c (nat \<bar>v\<bar>)))"
proof -
  have "(if c_prec c = Some 0 \<and> v = 0 then [] else c_digits c (nat \<bar>v\<bar>)) = c_digits c (nat \<bar>v\<bar>)" using assms by auto
  then show ?thesis by (simp only: c_number_def prec_zeros_def Let_def)
qed

lemma octal_number:
  assumes "c_type c = CHR ''o''" and "CHR ''#'' \<in> set (c_flags c)" and "u \<noteq> 0" and "is_integer_arg arg"
    and "\<not> (CHR ''0'' \<in> set (c_flags c) \<and> CHR ''-'' \<in> set (c_flags c))"
    and "\<not> (CHR ''0'' \<in> set (c_flags c) \<and> c_prec c \<noteq> None)"
  shows "int_field (adjust_spec arg (conv_spec c)) ''0'' (c_digits c (nat \<bar>u\<bar>)) = c_layout c [] (c_number c u)"
proof -
  let ?ds = "c_digits c (nat \<bar>u\<bar>)"
  have h: "cur ?ds \<noteq> CHR ''0''" using base_digits_head [of "nat \<bar>u\<bar>"] assms(1,3) by (simp add: c_digits_def)
  have n: "c_number c u = (if cur (prec_zeros c ?ds) \<noteq> CHR ''0'' then CHR ''0'' # prec_zeros c ?ds else prec_zeros c ?ds)"
    using c_number_zeros [of c u] assms(1-3) by simp
  have nm: "align (adjust_spec arg (conv_spec c)) = ALIGN_NUMERIC \<Longrightarrow> fill (adjust_spec arg (conv_spec c)) = CHR ''0''"
    by (simp add: adjust_conv_spec split: if_splits)
  note f = field_c_layout [OF disjI1 [OF refl] _ assms(4-6)]
  show ?thesis
  proof (cases "\<exists>p. c_prec c = Some p \<and> length ?ds < p")
    case True
    then have "cur (prec_zeros c ?ds) = CHR ''0''" by (auto simp: prec_zeros_def cur_def split: list.split) (metis Suc_diff_Suc replicate_Suc list.sel(1) append_Cons)
    then show ?thesis using True n octal_mark [OF nm] f [of ?ds] by (auto simp: adjust_conv_spec)
  next
    case False
    have l: "Suc 0 \<le> length ?ds" by (rule Suc_leI) (simp only: length_greater_0_conv c_digits_ne not_False_eq_True)
    have z: "prec_zeros c ?ds = ?ds" "prec_zeros c (CHR ''0'' # ?ds) = CHR ''0'' # ?ds"
      using False l by (auto simp: prec_zeros_def split: option.split)
    have "\<not> precision (adjust_spec arg (conv_spec c)) > int (length ?ds)"
      using False l by (auto simp: adjust_conv_spec split: option.split)
    then show ?thesis using octal_mark [OF nm] f [of "CHR ''0'' # ?ds"] n h z by simp
  qed
qed

lemma spec_flag_type [simp]: "spec_flag (sp\<lparr>type_code := t\<rparr>) g = spec_flag sp g"
  by (simp add: spec_flag_def)

lemma int_conversion:
  assumes "int_value arg = Some v" and "conv_fits c arg" and "c_type c \<in> set ''diuoxX''" and "is_integer_arg arg"
    and "sp = (adjust_spec arg (conv_spec c))\<lparr>type_code := (if c_type c = CHR ''i'' \<or> c_type c = CHR ''u'' then CHR ''d'' else c_type c)\<rparr>"
  shows "\<exists>pre ds. value_notation (c_value c v) sp = Some (pre, ds) \<and> int_field sp pre ds = c_int c (c_value c v)"
proof -
  let ?u = "c_value c v" and ?a = "adjust_spec arg (conv_spec c)"
  have fits: "\<not> (CHR ''0'' \<in> set (c_flags c) \<and> CHR ''-'' \<in> set (c_flags c))"
    "\<not> (CHR ''0'' \<in> set (c_flags c) \<and> c_prec c \<noteq> None)"
    "signed_conv c \<or> CHR ''+'' \<notin> set (c_flags c) \<and> CHR '' '' \<notin> set (c_flags c)"
    "\<not> (c_prec c = Some 0 \<and> ?u = 0)" "CHR ''#'' \<in> set (c_flags c) \<and> ?u = 0 \<longrightarrow> v = 0"
    using assms(1-3) by (auto simp: conv_fits_def split: fmt_arg.splits)
  have zero: "IsZeroInt arg \<longleftrightarrow> v = 0" by (simp add: IsZeroInt_def assms(1))
  note layout = field_c_layout [OF _ c_digits_ne assms(4) fits(1,2)]
  have num: "c_number c ?u = prec_zeros c (c_digits c (nat \<bar>?u\<bar>))" if "c_type c \<noteq> CHR ''o'' \<or> CHR ''#'' \<notin> set (c_flags c)"
    using c_number_zeros [OF fits(4)] that by auto
  let ?sign = "if ?u < 0 then ''-'' else if spec_flag ?a SIGN_FLAG then (if spec_flag ?a PLUS_FLAG then ''+'' else '' '') else []"
  have sign: "?sign = (if signed_conv c then c_prefix c ?u else [])"
    using fits(3) c_value_nonneg [of c v] by (cases "signed_conv c") (auto simp: c_prefix_def adjust_conv_spec)
  have hash: "spec_flag ?a HASH_FLAG \<longleftrightarrow> CHR ''#'' \<in> set (c_flags c) \<and> v \<noteq> 0" by (simp add: adjust_conv_spec zero)
  have vn: "value_notation ?u (?a\<lparr>type_code := t\<rparr>) =
    (let sign = (if signed_conv c then c_prefix c ?u else []);
         mark = (\<lambda>m. if CHR ''#'' \<in> set (c_flags c) \<and> v \<noteq> 0 then sign @ m else sign)
     in if t = CHR 0x00 \<or> t = CHR ''d'' then Some (sign, nat_digits (nat \<bar>?u\<bar>))
        else if t = CHR ''x'' then Some (mark ''0x'', base_digits hex_lower 4 (nat \<bar>?u\<bar>))
        else if t = CHR ''X'' then Some (mark ''0X'', base_digits hex_upper 4 (nat \<bar>?u\<bar>))
        else if t = CHR ''b'' then Some (mark ''0b'', base_digits hex_lower 1 (nat \<bar>?u\<bar>))
        else if t = CHR ''B'' then Some (mark ''0B'', base_digits hex_lower 1 (nat \<bar>?u\<bar>))
        else if t = CHR ''o'' then Some (mark ''0'', base_digits hex_lower 3 (nat \<bar>?u\<bar>))
        else None)" for t
    unfolding value_notation_def spec_flag_type sign hash Let_def by simp
  have last: "c_prefix c ?u = [] \<or> last (c_prefix c ?u) \<noteq> CHR ''0''" by (auto simp: c_prefix_def)
  have direct: ?thesis if "value_notation ?u sp = Some (c_prefix c ?u, c_digits c (nat \<bar>?u\<bar>))" "c_type c \<noteq> CHR ''o''"
    using that layout [OF last] num by (simp add: assms(5) c_int_layout)
  have oct: ?thesis if oc: "c_type c = CHR ''o''"
  proof -
    have s: "\<not> signed_conv c" "c_prefix c ?u = []" using oc by (simp_all add: signed_conv_def c_prefix_def)
    have n: "value_notation ?u sp = Some (if CHR ''#'' \<in> set (c_flags c) \<and> v \<noteq> 0 then ''0'' else [], c_digits c (nat \<bar>?u\<bar>))"
      by (simp add: assms(5) vn oc s c_digits_def Let_def)
    have z: "c_number c ?u = prec_zeros c (c_digits c (nat \<bar>?u\<bar>))" if "v = 0"
    proof -
      have "c_digits c 0 = ''0''" by (simp add: c_digits_def oc base_digits.simps hex_lower_def)
      then have "cur (prec_zeros c (c_digits c (nat \<bar>?u\<bar>))) = CHR ''0''"
        using that by (cases "(case c_prec c of None \<Rightarrow> 1 | Some p \<Rightarrow> p) - Suc 0") (simp_all add: prec_zeros_def)
      then show ?thesis using c_number_zeros [OF fits(4)] by simp
    qed
    show ?thesis
    proof (cases "CHR ''#'' \<in> set (c_flags c) \<and> v \<noteq> 0")
      case True
      then show ?thesis using n octal_number [OF oc _ _ assms(4) fits(1,2), of ?u] fits(5) s(2) by (simp add: assms(5) c_int_layout)
    next
      case False
      then have "c_number c ?u = prec_zeros c (c_digits c (nat \<bar>?u\<bar>))" using num z by blast
      then show ?thesis using n layout [of "[]"] s(2) False by (simp add: assms(5) c_int_layout)
    qed
  qed
  have mark: "CHR ''#'' \<in> set (c_flags c) \<and> v \<noteq> 0 \<longleftrightarrow> CHR ''#'' \<in> set (c_flags c) \<and> ?u \<noteq> 0" using fits(5) by auto
  consider "c_type c = CHR ''d'' \<or> c_type c = CHR ''i''" | "c_type c = CHR ''u''" | "c_type c = CHR ''x''" | "c_type c = CHR ''X''" | "c_type c = CHR ''o''"
    using assms(3) by auto
  then have "c_type c = CHR ''o'' \<or> value_notation ?u sp = Some (c_prefix c ?u, c_digits c (nat \<bar>?u\<bar>)) \<and> c_type c \<noteq> CHR ''o''"
    by cases (auto simp: assms(5) vn mark c_prefix_def c_digits_def signed_conv_def Let_def)
  then show ?thesis using direct oct by blast
qed

lemma make_unsigned_mod: "int_value arg = Some v \<Longrightarrow> uint (make_unsigned arg) mod 256 = v mod 256"
proof -
  assume a: "int_value arg = Some v"
  have u: "uint (ucast x :: u64) = uint x" for x :: u32 by (simp add: uint_up_ucast is_up)
  have s: "uint x mod 256 = sint x mod 256" if "8 \<le> LENGTH('a)" for x :: "'a::len word"
  proof -
    have "take_bit 8 (uint x) = take_bit 8 (sint x)" using that by (simp add: uint_sint min_def)
    then show ?thesis by (simp add: take_bit_eq_mod)
  qed
  show ?thesis using a by (cases arg) (auto simp: make_unsigned_def u s)
qed

lemma converted_mod:
  assumes "int_value arg = Some v" and "n \<in> {8, 16, 32, 64}"
  shows "\<exists>i. machine_int (ArgConverter n (CHR ''c'') arg) \<and> int_value (ArgConverter n (CHR ''c'') arg) = Some i \<and> i mod 256 = v mod 256"
proof (cases "n = 64")
  case True
  then show ?thesis using assms(1) make_unsigned_mod [OF assms(1)] by (simp add: ArgConverter_def machine_int_def)
next
  case False
  then have n: "8 \<le> n" "n \<le> 32" using assms(2) by auto
  then have "take_bit n v mod 256 = v mod 256"
    using take_bit_take_bit [of 8 n v] by (simp add: take_bit_eq_mod min_def)
  then show ?thesis using assms(1) n by (simp add: ArgConverter_def machine_int_def uint_word_of_int_eq min_def)
qed

lemma char_converted: "char_of (unat (word_of_int (signed_take_bit 7 i) :: u32)) = (char_of (nat (i mod 256)) :: char)"
proof -
  have m: "char_of (k mod 256 :: nat) = (char_of k :: char)" for k by (rule char_of_mod_256)
  have "take_bit 8 (take_bit 32 (signed_take_bit 7 i)) = take_bit 8 i"
    by (simp add: take_bit_signed_take_bit)
  then have "take_bit 32 (signed_take_bit 7 i) mod 256 = i mod 256" by (simp add: take_bit_eq_mod)
  then have "unat (word_of_int (signed_take_bit 7 i) :: u32) mod 256 = nat (i mod 256)"
    using nat_mod_distrib [of "take_bit 32 (signed_take_bit 7 i)" 256] by (simp add: unat_eq_nat_uint uint_word_of_int_eq)
  then show ?thesis by (metis m)
qed

lemma char_at_end:
  "(fill_to (length w) (length w + n) f (w @ replicate (Suc n) junk))[length w + n := ch] = w @ replicate n f @ [ch]"
proof -
  have "Suc n - n = Suc 0" by simp
  moreover have "replicate (Suc 0) junk = [junk]" by simp
  ultimately show ?thesis by (simp add: fill_to_def copy_to_def list_update_append del: replicate_Suc)
qed

lemma char_at_start:
  "(fill_to (length w + 1) (length w + 1 + n) f (w @ replicate (Suc n) junk))[length w := ch] = w @ ch # replicate n f"
  by (simp add: fill_to_def copy_to_def list_update_append)

lemma printf_char_text:
  assumes "CHR ''0'' \<notin> set (c_flags c) \<or> CHR ''-'' \<notin> set (c_flags c)" and "is_integer_arg arg"
  shows "printf_char junk x ((adjust_spec arg (conv_spec c))\<lparr>type_code := CHR ''c''\<rparr>) w = Inr (w @ c_text c [char_of (unat x)])"
proof (cases "c_width c > 1")
  case True
  let ?n = "c_width c - 1"
  have n: "c_width c = Suc ?n" using True by simp
  have al: "align (adjust_spec arg (conv_spec c)) \<noteq> ALIGN_LEFT \<longleftrightarrow> CHR ''-'' \<notin> set (c_flags c)"
    using assms by (auto simp: adjust_conv_spec)
  have "printf_char junk x ((adjust_spec arg (conv_spec c))\<lparr>type_code := CHR ''c''\<rparr>) w
    = Inr (if CHR ''-'' \<notin> set (c_flags c)
           then (fill_to (length w) (length w + ?n) (CHR '' '') (w @ replicate (Suc ?n) junk))[length w + ?n := char_of (unat x)]
           else (fill_to (length w + 1) (length w + 1 + ?n) (CHR '' '') (w @ replicate (Suc ?n) junk))[length w := char_of (unat x)])"
    using True by (simp add: printf_char_def al adjust_conv_spec(1) grow_buffer_def Let_def n [symmetric] del: replicate_Suc)
  then show ?thesis unfolding char_at_end char_at_start by (simp add: c_text_def c_pad_def)
next
  case False
  then have "c_width c - 1 = 0" by simp
  then show ?thesis using False by (simp add: printf_char_def adjust_conv_spec grow_buffer_def c_text_def c_pad_def Let_def)
qed

lemma string_text:
  assumes "c_type c = CHR ''s''" and "\<not> is_integer_arg arg"
  shows "write_str_arg junk (Some t) ((adjust_spec arg (conv_spec c))\<lparr>type_code := c_type c\<rparr>) w
    = Inr (w @ c_text c (case c_prec c of None \<Rightarrow> t | Some p \<Rightarrow> take p t))"
  by (cases "c_prec c") (simp_all add: write_str_arg_field str_field_def adjust_conv_spec assms c_text_def c_pad_def Let_def)

lemma is_integer_value: "is_integer_arg arg \<longleftrightarrow> int_value arg \<noteq> None"
  by (cases arg) (simp_all add: is_integer_arg_def)

lemma machine_integer: "machine_int arg \<Longrightarrow> is_integer_arg arg"
  by (cases arg) (simp_all add: is_integer_arg_def machine_int_def)

lemma len_bits_cases: "len_bits l \<in> {8, 16, 32, 64}"
  by (simp add: len_bits_def)

lemma visit_conversion:
  assumes "conv_ok c" and "conv_fits c arg"
    and "printf_type (ArgConverter (len_bits (c_len c)) (c_type c) arg) (c_type c) = (arg', t)"
  shows "printf_visit junk arg' ((adjust_spec arg (conv_spec c))\<lparr>type_code := t\<rparr>) w = Inr (w @ c_conversion c arg)"
proof (cases "int_value arg")
  case None
  then have a: "\<not> is_integer_arg arg" "arg' = arg" "t = c_type c"
    using assms(3) by (simp_all add: is_integer_value ArgConverter_def printf_type_def)
  have s: "c_type c = CHR ''s''" using assms(2) None by (auto simp: conv_fits_def split: fmt_arg.splits option.splits)
  have "(\<exists>st. arg = ArgString st) \<or> (\<exists>p st. arg = ArgCString p (Some st))"
    using assms(2) None by (auto simp: conv_fits_def split: fmt_arg.splits option.splits)
  then show ?thesis
    using string_text [OF s a(1)] a(2,3) s by (auto simp: printf_visit_def visit_arg_def c_conversion_def Let_def)
next
  case (Some v)
  let ?conv = "ArgConverter (len_bits (c_len c)) (c_type c) arg"
  have int: "is_integer_arg arg" using Some by (simp add: is_integer_value)
  have cc: "c_conversion c arg = (if c_type c = CHR ''c'' then c_text c [char_of (nat (v mod 256))] else c_int c (c_value c v))"
    using Some by (cases arg) (simp_all add: c_conversion_def Let_def)
  have ns: "c_type c \<noteq> CHR ''s''" "\<not> (CHR ''0'' \<in> set (c_flags c) \<and> CHR ''-'' \<in> set (c_flags c))"
    "c_type c \<noteq> CHR ''c'' \<Longrightarrow> len_bits (c_len c) = 64 \<Longrightarrow> \<not> narrow_negative arg"
    using assms(2) Some by (cases arg; auto simp: conv_fits_def)+
  show ?thesis
  proof (cases "c_type c = CHR ''c''")
    case True
    obtain i where i: "machine_int ?conv" "int_value ?conv = Some i" "i mod 256 = v mod 256"
      using converted_mod [OF Some len_bits_cases] True by metis
    then have "arg' = ArgChar (word_of_int (signed_take_bit 7 i))" "t = CHR ''c''"
      using assms(3) True machine_integer [OF i(1)] by (simp_all add: printf_type_def CharConverter_def)
    then show ?thesis using printf_char_text [OF _ int] ns(2) True cc i(3) by (simp add: printf_visit_def char_converted)
  next
    case False
    have ty: "c_type c \<in> set ''diuoxX''" using assms(1) ns(1) False by (simp add: conv_ok_def)
    have m: "machine_int ?conv" "int_value ?conv = Some (c_value c v)"
      using ArgConverter_value [OF Some ns(1) len_bits_cases ns(3) [OF False]] by (simp_all add: c_value_def signed_conv_def)
    then have "arg' = ?conv" "t = (if c_type c = CHR ''i'' \<or> c_type c = CHR ''u'' then CHR ''d'' else c_type c)"
      using assms(3) False machine_integer [OF m(1)] by (auto simp: printf_type_def split: if_splits)
    then show ?thesis using int_conversion [OF Some assms(2) ty int refl] printf_visit_int [OF m] cc False by auto
  qed
qed

lemma printf_conversion_string:
  assumes "conv_ok c" and "conv_fits c (snd (args ! n))" and "n < length args"
  shows "printf_conversion junk args (int n) (conv_string c @ s) w = Inr (int n + 1, s, w @ c_conversion c (snd (args ! n)))"
proof -
  let ?t = "c_len c @ c_type c # s" and ?arg = "snd (args ! n)"
  have ok: "list_all is_flag (c_flags c)" "c_width c < 2 ^ 31" "\<And>p. c_prec c = Some p \<Longrightarrow> p < 2 ^ 31"
    "c_len c \<in> {[], ''hh'', ''h'', ''l'', ''ll'', ''j'', ''z'', ''t''}" "c_type c \<in> set ''diuoxXcs''"
    using assms(1) by (simp_all add: conv_ok_def)
  have "cur ?t \<in> set ''hljztdiuoxXcs''" using ok(4,5) by auto
  then have t: "\<not> is_digit (cur ?t)" "cur ?t \<noteq> CHR ''.''" "cur ?t \<notin> set ''-+ #*$''" by (auto simp: is_digit_def)
  have p: "\<not> is_digit (cur (prec_string (c_prec c) @ ?t))" "cur (prec_string (c_prec c) @ ?t) \<notin> set ''-+ #*$''"
    using t by (cases "c_prec c"; simp add: prec_string_def is_digit_def)+
  let ?sp = "(FormatSpec 0 (CHR 0x00) (CHR '' ''))\<lparr>align := ALIGN_RIGHT\<rparr>"
  have sp: "width ?sp = 0" "precision ?sp = - 1" by (simp_all add: FormatSpec_def)
  have header: "parse_header args (int n) ?sp (conv_string c @ s)
      = Inr (None, int n, prec_string (c_prec c) @ ?t, (fold flag_step (c_flags c) ?sp)\<lparr>width := c_width c\<rparr>)"
    using parse_header_string [OF ok(1,2) p sp(1)] by (simp add: conv_string_def width_digits_def)
  have prec: "printf_precision args (int n) ((fold flag_step (c_flags c) ?sp)\<lparr>width := c_width c\<rparr>) (prec_string (c_prec c) @ ?t)
      = Inr (int n, ?t, conv_spec c)"
    using printf_precision_string [OF t(1,2) _ ok(3), of "(fold flag_step (c_flags c) ?sp)\<lparr>width := c_width c\<rparr>"] sp(2)
    by (simp add: fold_flags conv_spec_def)
  have arg: "printf_get_arg args (int n) ?t None = Inr (?arg, int n + 1)"
    using assms(3) by (simp add: printf_get_arg_def next_arg_def do_get_arg_def)
  obtain arg' ty where ty: "printf_type (ArgConverter (len_bits (c_len c)) (c_type c) ?arg) (c_type c) = (arg', ty)" by fastforce
  show ?thesis
    unfolding printf_conversion_def
    by (simp add: header prec arg parse_length_string [OF ok(4,5)] ty visit_conversion [OF assms(1,2) ty] Let_def)
qed

section \<open>Format strings\<close>

datatype printf_piece = PText string | PConv conv

fun ptemplate :: "printf_piece list \<Rightarrow> string" where
  "ptemplate [] = []"
| "ptemplate (PText t # ps) = concat (map (\<lambda>c. if c = CHR ''%'' then ''%%'' else [c]) t) @ ptemplate ps"
| "ptemplate (PConv c # ps) = CHR ''%'' # conv_string c @ ptemplate ps"

fun pconvs :: "printf_piece list \<Rightarrow> conv list" where
  "pconvs [] = []"
| "pconvs (PText t # ps) = pconvs ps"
| "pconvs (PConv c # ps) = c # pconvs ps"

fun pexpand :: "printf_piece list \<Rightarrow> fmt_arg list \<Rightarrow> string" where
  "pexpand [] args = []"
| "pexpand (PText t # ps) args = t @ pexpand ps args"
| "pexpand (PConv c # ps) args = c_conversion c (hd args) @ pexpand ps (tl args)"

lemma printf_loop_text:
  "\<exists>w' pend'. w' @ pend' = w @ pend @ t \<and>
     printf_loop junk args nx w pend (concat (map (\<lambda>c. if c = CHR ''%'' then ''%%'' else [c]) t) @ s) = printf_loop junk args nx w' pend' s"
proof (induction t arbitrary: w pend)
  case (Cons c t)
  show ?case
  proof (cases "c = CHR ''%''")
    case True
    then show ?thesis using Cons [of "w @ pend @ ''%''" "[]"] by (simp add: printf_loop_percent)
  next
    case False
    then show ?thesis using Cons [of w "pend @ [c]"] by (simp add: printf_loop_char)
  qed
qed auto

lemma nat_digits_percent: "CHR ''%'' \<notin> set (nat_digits n)"
  using nat_digits_dval [of n] by (auto simp: list_all_iff is_digit_def)

lemma conv_string_start:
  assumes "conv_ok c"
  shows "cur (conv_string c @ s) \<noteq> CHR ''%''"
proof -
  have f: "list_all is_flag (c_flags c)" and l: "c_len c \<in> {[], ''hh'', ''h'', ''l'', ''ll'', ''j'', ''z'', ''t''}"
    and t: "c_type c \<in> set ''diuoxXcs''"
    using assms unfolding conv_ok_def by blast+
  have fl: "CHR ''%'' \<notin> set (c_flags c)"
  proof
    assume "CHR ''%'' \<in> set (c_flags c)"
    then have "is_flag (CHR ''%'')" using f unfolding list_all_iff by blast
    then show False by simp
  qed
  have "CHR ''%'' \<notin> set (c_len c)" using l unfolding insert_iff empty_iff by (elim disjE FalseE) simp_all
  moreover have "c_type c \<noteq> CHR ''%''" using t by (simp, elim disjE) simp_all
  moreover have "CHR ''%'' \<notin> set (prec_string (c_prec c))" by (simp add: prec_string_def nat_digits_percent split: option.split)
  ultimately have "CHR ''%'' \<notin> set (conv_string c)" using fl by (simp add: conv_string_def nat_digits_percent)
  moreover have "conv_string c \<noteq> []" by (simp add: conv_string_def)
  ultimately show ?thesis by (cases "conv_string c") auto
qed

lemma printf_loop_template:
  assumes "list_all conv_ok (pconvs ps)" and "list_all2 conv_fits (pconvs ps) (map snd (drop n args))" and "n \<le> length args"
  shows "printf_loop junk args (int n) w pend (ptemplate ps) = Inr (w @ pend @ pexpand ps (map snd (drop n args)))"
  using assms
proof (induction ps arbitrary: n w pend rule: ptemplate.induct)
  case (2 t ps)
  obtain w' pend' where "w' @ pend' = w @ pend @ t"
    "printf_loop junk args (int n) w pend (ptemplate (PText t # ps)) = printf_loop junk args (int n) w' pend' (ptemplate ps)"
    using printf_loop_text [of w pend t junk args "int n" "ptemplate ps"] by auto
  then show ?case using "2.IH" [of n w' pend'] "2.prems" by (simp flip: append_assoc)
next
  case (3 c ps)
  have n: "n < length args" using "3.prems"(2) by (cases "n < length args") simp_all
  then have d: "drop n args = args ! n # drop (Suc n) args" by (simp add: Cons_nth_drop_Suc)
  have c: "conv_ok c" "conv_fits c (snd (args ! n))" "list_all2 conv_fits (pconvs ps) (map snd (drop (Suc n) args))"
    using "3.prems"(1,2) by (simp_all add: d)
  have "printf_loop junk args (int n) w pend (ptemplate (PConv c # ps))
      = printf_loop junk args (int n + 1) ((w @ pend) @ c_conversion c (snd (args ! n))) [] (ptemplate ps)"
    using printf_loop_conversion [OF conv_string_start [OF c(1)] printf_conversion_string [OF c(1,2) n]] by simp
  moreover have "int n + 1 = int (Suc n)" by simp
  ultimately show ?case using "3.IH" [OF _ c(3)] "3.prems"(1) n d by simp
qed simp


definition sample_pieces :: "printf_piece list" where
  "sample_pieces =
     [PText ''100% ['', PConv \<lparr>c_flags = ''#0'', c_width = 6, c_prec = None, c_len = [], c_type = CHR ''x''\<rparr>, PText ''] '',
      PConv \<lparr>c_flags = ''-'', c_width = 5, c_prec = None, c_len = [], c_type = CHR ''s''\<rparr>, PText ''|'',
      PConv \<lparr>c_flags = ''+'', c_width = 0, c_prec = Some 3, c_len = ''hh'', c_type = CHR ''d''\<rparr>]"

definition sample_args :: arg_list where
  "sample_args = [(None, ArgInt 255), (None, ArgString ''ab''), (None, ArgInt 300)]"

lemma sample_fits:
  "list_all conv_ok (pconvs sample_pieces)" "list_all2 conv_fits (pconvs sample_pieces) (map snd sample_args)"
  "ptemplate sample_pieces = ''100%% [%#06x] %-5s|%+.3hhd''"
  "pexpand sample_pieces (map snd sample_args) = ''100% [0x00ff] ab   |+044''"
  by (simp add: sample_pieces_def conv_ok_def, simp add: sample_pieces_def sample_args_def conv_fits_def c_value_def signed_conv_def
      len_bits_def narrow_negative_def signed_take_bit_eq_if_positive, code_simp, code_simp)


text \<open>A width from the arguments is the same as the flag \<open>-\<close> for a negative number and the absolute value.\<close>

lemma WidthHandler_value:
  assumes "int_value arg = Some k" and "\<bar>k\<bar> < 2 ^ 31"
  shows "WidthHandler arg sp = Inr (nat \<bar>k\<bar>, if k < 0 then sp\<lparr>align := ALIGN_LEFT\<rparr> else sp)"
proof -
  have small: "(nat \<bar>k\<bar> > 0x7fffffff) = False" using assms(2) by simp
  have s: "negated_width x = (sint x < 0, nat \<bar>sint x\<bar>)" for x :: "'a::len word"
    by (simp add: negated_width_def abs_value_int is_negative_def)
  obtain neg m where m: "WidthHandler arg sp = (if m > 0x7fffffff then Inl (FormatError ''number is too big'')
      else Inr (m, if neg then sp\<lparr>align := ALIGN_LEFT\<rparr> else sp))" "m = nat \<bar>k\<bar>" "neg \<longleftrightarrow> k < 0"
  proof (cases arg)
    case (ArgUInt x)
    then show ?thesis using assms(1) nat_abs_uint [of x] by (intro that [of "unat x" False]) (auto simp: WidthHandler_def)
  next
    case (ArgULongLong x)
    then show ?thesis using assms(1) nat_abs_uint [of x] by (intro that [of "unat x" False]) (auto simp: WidthHandler_def)
  next
    case (ArgBool b)
    then show ?thesis using assms(1) by (intro that [of "of_bool b" False]) (cases b; auto simp: WidthHandler_def)+
  qed (use assms(1) in \<open>auto simp: WidthHandler_def s intro: that\<close>)
  show ?thesis unfolding m small by simp
qed

lemma star_width:
  assumes "int_value (snd (args ! n)) = Some k" and "n < length args" and "\<bar>k\<bar> < 2 ^ 31"
  shows "parse_star_width args (int n) sp (CHR ''*'' # s)
    = Inr (int n + 1, s, (if k < 0 then sp\<lparr>align := ALIGN_LEFT\<rparr> else sp)\<lparr>width := nat \<bar>k\<bar>\<rparr>)"
proof -
  have "printf_get_arg args (int n) s None = Inr (snd (args ! n), int n + 1)"
    using assms(2) by (simp add: printf_get_arg_def next_arg_def do_get_arg_def)
  then show ?thesis using WidthHandler_value [OF assms(1,3), of sp] by (simp add: parse_star_width_def is_digit_def)
qed

text \<open>Where printf differs from the standard: the flag \<open>0\<close> wins over \<open>-\<close> and is not ignored with a precision, a sign flag
  marks unsigned numbers, the base mark stays on a value that the length modifier makes 0, a negative \<open>int\<close>
  with \<open>%ld\<close> becomes a large number, and \<open>%Ld\<close> of a character writes its number and the character.\<close>

lemma printf_loop_one:
  assumes "printf_conversion junk args 0 s [] = Inr (1, [], t)" and "cur s \<noteq> CHR ''%''"
  shows "printf_format junk (CHR ''%'' # s) args [] = Inr t"
  using printf_loop_conversion [OF assms(2), of junk args 0 "[]" "[]"] assms(1) by (simp add: printf_format_def)

lemmas printf_eval = printf_conversion_def parse_header_def is_digit_def parse_nonnegative_int_def FormatSpec_def parse_star_width_def
  printf_precision_def printf_get_arg_def next_arg_def do_get_arg_def adjust_spec_def spec_flag_def IsZeroInt_def is_integer_arg_def
  parse_length_def ArgConverter_def make_unsigned_def printf_type_def printf_visit_def visit_arg_def printf_char_def
  write_int_32 write_int_64 int_notation_value value_notation_def int_field_def layout_def layout_plain_def
  grow_buffer_def nat_digits_small nat_digits_rec Let_def SIGN_FLAG_def PLUS_FLAG_def HASH_FLAG_def

lemma char_codes:
  "char_of (48 :: nat) = CHR ''0''" "char_of (49 :: nat) = CHR ''1''" "char_of (50 :: nat) = CHR ''2''" "char_of (52 :: nat) = CHR ''4''"
  "char_of (53 :: nat) = CHR ''5''" "char_of (54 :: nat) = CHR ''6''" "char_of (55 :: nat) = CHR ''7''" "char_of (57 :: nat) = CHR ''9''"
  "char_of (65 :: nat) = CHR ''A''"
  by code_simp+

lemma minus_one: "(ucast (- 1 :: u32) :: u64) = 4294967295"
  by code_simp

lemma short_fills: "replicate 3 x = [x, x, x]" "replicate 2 x = [x, x]"
  by (simp_all add: numeral_eq_Suc)

lemma printf_differs:
  "printf_format junk ''%-05d'' [(None, ArgInt 42)] [] = Inr ''00042''"
  "printf_format junk ''%08.4d'' [(None, ArgInt (- 12))] [] = Inr ''000-0012''"
  "printf_format junk ''%+u'' [(None, ArgUInt 7)] [] = Inr ''+7''"
  "printf_format junk ''%#hhx'' [(None, ArgInt 256)] [] = Inr ''0x0''"
  "printf_format junk ''%ld'' [(None, ArgInt (- 1))] [] = Inr ''4294967295''"
  "printf_format junk ''%Ld'' [(None, ArgChar 65)] [] = Inr ''65A''"
  by (rule printf_loop_one; simp add: printf_eval char_codes short_fills minus_one base_digits.simps hex_lower_def)+

lemma printf_visit_in_buffer [simp]: "in_buffer (printf_visit junk arg spec w)"
  by (auto simp: printf_visit_def printf_bool_def printf_char_def write_null_pointer_def Let_def
      split: fmt_arg.split option.split prod.split)

lemma printf_handlers_in_buffer [simp]:
  "in_buffer (WidthHandler arg spec)" "in_buffer (PrecisionHandler arg)" "in_buffer (printf_get_arg args nx s i)"
  by (auto simp: WidthHandler_def PrecisionHandler_def printf_get_arg_def split: fmt_arg.split option.split sum.split prod.split)

lemma printf_parsers_in_buffer [simp]:
  "in_buffer (parse_star_width args nx sp s)" "in_buffer (printf_precision args nx sp s)"
  by (auto simp: parse_star_width_def printf_precision_def Let_def case_prod_unfold intro!: in_buffer_sbind)

lemma parse_header_in_buffer [simp]: "in_buffer (parse_header args nx sp s)"
  by (auto simp: parse_header_def Let_def case_prod_unfold intro!: in_buffer_sbind)

lemma printf_conversion_in_buffer [simp]: "in_buffer (printf_conversion junk args nx s w)"
  by (auto simp: printf_conversion_def Let_def case_prod_unfold intro!: in_buffer_sbind)

text \<open>Whatever the format string and the arguments, nothing is written outside the buffer.\<close>

lemma printf_loop_in_buffer: "printf_loop junk args nx w pend s \<noteq> Inl (Overrun, t)"
proof (induction junk args nx w pend s rule: printf_loop.induct)
  case (1 junk args nx w pend s)
  show ?case
  proof (cases s)
    case (Cons c s1)
    have "printf_conversion junk args nx s1 (w @ pend) \<noteq> Inl Overrun" by (metis printf_conversion_in_buffer in_buffer_simps(3))
    then show ?thesis using Cons 1 by (subst printf_loop.simps) (auto split: sum.split prod.split)
  qed simp
qed

lemma printf_in_buffer: "printf_format junk fmt args w \<noteq> Inl (Overrun, t)"
  unfolding printf_format_def by (rule printf_loop_in_buffer)

end
