(* ===== verification/FmtReport.thy ===== *)
theory FmtReport
  imports FmtPrintf
begin

text \<open>
  Output and error reports of the formatting library (\<open>src/common/spdlog/include/details/format.cc\<close>): \<open>print\<close>, \<open>fprintf\<close>,
  \<open>print_colored\<close>, the texts of system errors, and the stream buffer \<open>FormatBuf\<close> of \<open>format.h\<close> through which values
  with an output operator are formatted.

  A file is the text written to it. How much of a text a call of \<open>fwrite\<close> accepts is a parameter, and so is
  \<open>strerror_r\<close> of the C library, in the GNU variant: whether it used the buffer it was given, and the text.
\<close>

section \<open>Printing\<close>

text \<open>\<open>fwrite\<close>: the file after it and the number of characters it accepted, at most \<open>room\<close>.\<close>

definition fmt_fwrite :: "nat \<Rightarrow> string \<Rightarrow> string \<Rightarrow> string \<times> nat" where
  "fmt_fwrite room t file = (file @ take room t, min room (length t))"

definition fmt_print :: "char \<Rightarrow> nat \<Rightarrow> string \<Rightarrow> arg_list \<Rightarrow> string \<Rightarrow> fmt_error option \<times> string" where
  "fmt_print junk room format_str args file =
     (case format_write junk format_str args [] of
        Inl (e, w) \<Rightarrow> (Some e, file)
      | Inr w \<Rightarrow> (None, fst (fmt_fwrite room w file)))"

definition fmt_sprintf :: "char \<Rightarrow> string \<Rightarrow> arg_list \<Rightarrow> fmt_error + string" where
  "fmt_sprintf junk format args =
     (case printf_format junk format args [] of Inl (e, w) \<Rightarrow> Inl e | Inr w \<Rightarrow> Inr w)"

text \<open>The conversion of the size to \<open>int\<close> wraps.\<close>

definition fmt_fprintf :: "char \<Rightarrow> nat \<Rightarrow> string \<Rightarrow> arg_list \<Rightarrow> string \<Rightarrow> (fmt_error + int) \<times> string" where
  "fmt_fprintf junk room format args file =
     (case printf_format junk format args [] of
        Inl (e, w) \<Rightarrow> (Inl e, file)
      | Inr w \<Rightarrow>
          let (file', n) = fmt_fwrite room w file
          in (Inr (if n < length w then - 1 else sint (word_of_nat (length w) :: u32)), file'))"

datatype color = BLACK | RED | GREEN | YELLOW | BLUE | MAGENTA | CYAN | WHITE

definition color_code :: "color \<Rightarrow> nat" where
  "color_code c =
     (case c of BLACK \<Rightarrow> 0 | RED \<Rightarrow> 1 | GREEN \<Rightarrow> 2 | YELLOW \<Rightarrow> 3 | BLUE \<Rightarrow> 4 | MAGENTA \<Rightarrow> 5 | CYAN \<Rightarrow> 6 | WHITE \<Rightarrow> 7)"

definition RESET_COLOR :: string where "RESET_COLOR = CHR 0x1B # ''[0m''"

definition fmt_print_colored :: "char \<Rightarrow> nat \<Rightarrow> color \<Rightarrow> string \<Rightarrow> arg_list \<Rightarrow> string \<Rightarrow> fmt_error option \<times> string" where
  "fmt_print_colored junk room c format args out =
     (case fmt_print junk room format args (out @ CHR 0x1B # ''[3'' @ [char_of (48 + color_code c)] @ ''m'') of
        (Some e, out') \<Rightarrow> (Some e, out')
      | (None, out') \<Rightarrow> (None, out' @ RESET_COLOR))"

section \<open>System errors\<close>

definition ERANGE :: int where "ERANGE = 34"

text \<open>\<open>safe_strerror\<close>: its result and the text that \<open>buffer\<close> points to after it.\<close>

type_synonym strerror = "u32 \<Rightarrow> nat \<Rightarrow> bool \<times> string"

definition safe_strerror :: "strerror \<Rightarrow> u32 \<Rightarrow> nat \<Rightarrow> int \<times> string" where
  "safe_strerror strerror_r error_code buffer_size =
     (let (in_buffer, message) = strerror_r error_code buffer_size
      in if in_buffer \<and> length message = buffer_size - 1 then (ERANGE, message) else (0, message))"

definition format_error_code :: "char \<Rightarrow> u32 \<Rightarrow> string \<Rightarrow> char list option" where
  "format_error_code junk error_code message =
     (let error_code_size = 2 + 6 + count_digits_32 (unat error_code);
          out = (if length message \<le> INLINE_BUFFER_SIZE - error_code_size then message @ '': '' else [])
      in write_decimal junk count_digits_32 True error_code (out @ ''error ''))"

partial_function (option) system_error_loop ::
  "char \<Rightarrow> strerror \<Rightarrow> u32 \<Rightarrow> string \<Rightarrow> char list \<Rightarrow> nat \<Rightarrow> char list option option" where
  "system_error_loop junk strerror_r error_code message out buf_size =
     (let (result, system_message) = safe_strerror strerror_r error_code buf_size
      in if result = 0 then Some (Some (out @ message @ '': '' @ system_message))
         else if result \<noteq> ERANGE then Some (format_error_code junk error_code message)
         else system_error_loop junk strerror_r error_code message out (buf_size * 2))"

definition format_system_error ::
  "char \<Rightarrow> strerror \<Rightarrow> u32 \<Rightarrow> string \<Rightarrow> char list \<Rightarrow> char list option option" where
  "format_system_error junk strerror_r error_code message out =
     system_error_loop junk strerror_r error_code message out INLINE_BUFFER_SIZE"

text \<open>\<open>SystemError::init\<close>: the code and the description, or the error of the format string.\<close>

definition SystemError_init ::
  "char \<Rightarrow> strerror \<Rightarrow> u32 \<Rightarrow> string \<Rightarrow> arg_list \<Rightarrow> (fmt_error + u32 \<times> char list option) option" where
  "SystemError_init junk strerror_r err_code format_str args =
     (case format_write junk format_str args [] of
        Inl (e, w) \<Rightarrow> Some (Inl e)
      | Inr message \<Rightarrow> map_option (\<lambda>t. Inr (err_code, t)) (format_system_error junk strerror_r err_code message []))"

definition report_system_error :: "char \<Rightarrow> strerror \<Rightarrow> u32 \<Rightarrow> string \<Rightarrow> string \<Rightarrow> string option option" where
  "report_system_error junk strerror_r error_code message err =
     map_option (map_option (\<lambda>full. err @ full @ [CHR 0x0A])) (format_system_error junk strerror_r error_code message [])"

section \<open>FormatBuf\<close>

text \<open>The put area begins at the start of the buffer. \<open>fb_text\<close> are the characters from there to \<open>pptr\<close>,
  \<open>fb_end\<close> is \<open>epptr\<close>, \<open>fb_size\<close> and \<open>fb_capacity\<close> are those of the buffer, of which growing copies \<open>fb_size\<close> characters.
  A write outside the capacity is \<open>None\<close>.\<close>

record format_buf =
  fb_text :: string
  fb_end :: nat
  fb_size :: nat
  fb_capacity :: nat

definition FormatBuf :: format_buf where
  "FormatBuf = \<lparr>fb_text = [], fb_end = INLINE_BUFFER_SIZE, fb_size = 0, fb_capacity = INLINE_BUFFER_SIZE\<rparr>"

definition fb_reserve :: "nat \<Rightarrow> format_buf \<Rightarrow> format_buf" where
  "fb_reserve n b =
     (if n > fb_capacity b
      then let c = fb_capacity b + fb_capacity b div 2
           in b\<lparr>fb_capacity := (if n > c then n else c), fb_text := take (fb_size b) (fb_text b)\<rparr>
      else b)"

definition fb_overflow :: "char \<Rightarrow> format_buf \<Rightarrow> format_buf option" where
  "fb_overflow ch b =
     (let size = length (fb_text b);
          b1 = (fb_reserve size b)\<lparr>fb_size := size\<rparr>;
          b2 = fb_reserve (size * 2) b1
      in if size < fb_capacity b2 then Some (b2\<lparr>fb_text := fb_text b2 @ [ch], fb_end := size * 2\<rparr>) else None)"

definition fb_sputc :: "char \<Rightarrow> format_buf \<Rightarrow> format_buf option" where
  "fb_sputc ch b =
     (if length (fb_text b) < fb_end b then Some (b\<lparr>fb_text := fb_text b @ [ch]\<rparr>) else fb_overflow ch b)"

fun fb_sputn :: "string \<Rightarrow> format_buf \<Rightarrow> format_buf option" where
  "fb_sputn [] b = Some b"
| "fb_sputn (c # s) b = Option.bind (fb_sputc c b) (fb_sputn s)"

section \<open>Properties\<close>

lemma int_digits_length: "length (int_digits i) = of_bool (i < 0) + length (nat_digits (nat \<bar>i\<bar>))"
  by (simp add: int_digits_def)

lemma format_error_code_text:
  "format_error_code junk code msg =
     Some ((if length msg \<le> 492 - length (nat_digits (unat code)) then msg @ '': '' else []) @ ''error '' @ int_digits (sint code))"
proof -
  have "unat code < 2 ^ 32" using unsigned_less [of code, where ?'a = nat] by simp
  then have c: "count_digits_32 (unat code) = length (nat_digits (unat code))" by (rule count_digits_32_length)
  show ?thesis
    using write_decimal_notation [where 'a = 32, of count_digits_32 junk True code] count_digits_32_length
    by (simp add: format_error_code_def c INLINE_BUFFER_SIZE_def)
qed


lemma digits_bound: "n < 10 ^ (k + 1) \<Longrightarrow> length (nat_digits n) \<le> k + 1"
proof -
  assume n: "n < 10 ^ (k + 1)"
  obtain j where j: "length (nat_digits n) = j + 1" using length_nat_digits_pos [of n] by (metis Suc_eq_plus1 gr0_implies_Suc)
  have "j \<le> k"
  proof (rule ccontr)
    assume "\<not> j \<le> k"
    then have "j \<noteq> 0" "k + 1 \<le> j" by simp_all
    moreover have "10 ^ (k + 1) \<le> (10 :: nat) ^ j" by (rule power_increasing [OF \<open>k + 1 \<le> j\<close>]) simp
    ultimately show False using j length_nat_digits [of n j] n by simp
  qed
  then show ?thesis using j by simp
qed

text \<open>C28: The text of an error code alone keeps to the size of the inline buffer, so that no memory is
  allocated, with one exception: the digits are counted without the sign, and a code of ten digits below
  zero with the longest message that is let through needs one character more.\<close>

theorem error_code_fits:
  "\<exists>t. format_error_code junk code msg = Some t
     \<and> t = (if length msg \<le> 492 - length (nat_digits (unat code)) then msg @ '': '' else []) @ ''error '' @ int_digits (sint code)
     \<and> (500 < length t \<longleftrightarrow> sint code \<le> - (10 ^ 9) \<and> length msg = 482) \<and> length t \<le> 501"
proof -
  let ?t = "(if length msg \<le> 492 - length (nat_digits (unat code)) then msg @ '': '' else []) @ ''error '' @ int_digits (sint code)"
  have "(500 < length ?t \<longleftrightarrow> sint code \<le> - (10 ^ 9) \<and> length msg = 482) \<and> length ?t \<le> 501"
  proof (cases "sint code < 0")
    case False
    then have "nat \<bar>sint code\<bar> = unat code" using nat_sint_nonneg [of code] by simp
    moreover have "length (nat_digits (unat code)) \<le> 10"
      using digits_bound [of "unat code" 9] unsigned_less [of code, where ?'a = nat] by simp
    ultimately show ?thesis using False by (auto simp: int_digits_length)
  next
    case True
    have lo: "- (2 ^ 31) \<le> sint code" using sint_ge [of code] by simp
    have "uint code = take_bit 32 (sint code)" using uint_sint [of code] by simp
    also have "\<dots> = (sint code + 2 ^ 32) mod 2 ^ 32" by (simp add: take_bit_eq_mod)
    also have "\<dots> = sint code + 2 ^ 32" using True lo by (intro mod_pos_pos_trivial) auto
    finally have u: "unat code = nat (sint code + 2 ^ 32)" by (simp add: unat_eq_nat_uint)
    have "length (nat_digits (unat code)) = 9 + 1" unfolding length_nat_digits using u lo True by (auto simp: nat_less_iff nat_le_iff le_nat_iff)
    moreover have "sint code \<le> - (10 ^ 9) \<Longrightarrow> length (nat_digits (nat \<bar>sint code\<bar>)) = 9 + 1"
      unfolding length_nat_digits using lo by (auto simp: nat_less_iff le_nat_iff)
    moreover have "\<not> sint code \<le> - (10 ^ 9) \<Longrightarrow> length (nat_digits (nat \<bar>sint code\<bar>)) \<le> 9"
      using digits_bound [of "nat \<bar>sint code\<bar>" 8] True by simp
    ultimately show ?thesis using True by (cases "sint code \<le> - (10 ^ 9)") (auto simp: int_digits_length)
  qed
  then show ?thesis using format_error_code_text [of junk code msg] by blast
qed


lemma system_error_loop_text:
  assumes "\<And>n. strerror_r code n = (False, full) \<or> strerror_r code n = (True, take (n - 1) full)" and "0 < n"
  shows "system_error_loop junk strerror_r code msg out n = Some (Some (out @ msg @ '': '' @ full))"
  using assms(2)
proof (induction "length full + 2 - n" arbitrary: n rule: less_induct)
  case less
  show ?case
  proof (cases "strerror_r code n = (False, full) \<or> length full < n - 1")
    case True
    then have "safe_strerror strerror_r code n = (0, full)" using assms(1) [of n] by (auto simp: safe_strerror_def)
    then show ?thesis by (subst system_error_loop.simps) simp
  next
    case False
    then have t: "strerror_r code n = (True, take (n - 1) full)" "n - 1 \<le> length full" using assms(1) [of n] by auto
    then have l: "length (take (n - 1) full) = n - 1" by simp
    have "safe_strerror strerror_r code n = (ERANGE, take (n - 1) full)" unfolding safe_strerror_def t using l by simp
    then have step: "system_error_loop junk strerror_r code msg out n = system_error_loop junk strerror_r code msg out (n * 2)"
      by (subst system_error_loop.simps) (simp add: ERANGE_def)
    show ?thesis unfolding step using t(2) less.prems by (intro less.hyps) auto
  qed
qed

text \<open>C27: The description of a system error is the message, a colon and the text of the system in full, however
  long it is: the loop ends. The assumption is what the manual of \<open>strerror_r\<close> says: it returns the
  text itself or, in the buffer, as much of it as fits.\<close>

theorem system_error_text:
  assumes "\<And>n. strerror_r code n = (False, full) \<or> strerror_r code n = (True, take (n - 1) full)"
  shows "format_system_error junk strerror_r code msg out = Some (Some (out @ msg @ '': '' @ full))"
  unfolding format_system_error_def by (rule system_error_loop_text) (rule assms, simp add: INLINE_BUFFER_SIZE_def)

definition unknown_error :: strerror where
  "unknown_error code n = (True, take (n - 1) (''Unknown error '' @ int_digits (sint code)))"

theorem system_error_text_witness:
  "format_system_error (CHR 0x00) unknown_error 5 ''cannot open'' [] = Some (Some ''cannot open: Unknown error 5'')"
  using system_error_text [of unknown_error 5 "''Unknown error 5''" "CHR 0x00" "''cannot open''" "[]"]
  by (simp add: unknown_error_def int_digits_def nat_digits_small char_codes)

text \<open>Text written through a \<open>FormatBuf\<close> arrives as it is, whatever its length, and stays in the buffer.\<close>

definition fb_ok :: "format_buf \<Rightarrow> bool" where
  "fb_ok b \<longleftrightarrow> length (fb_text b) \<le> fb_end b \<and> fb_end b \<le> fb_capacity b \<and> 0 < fb_end b"

lemma fb_sputc_ok:
  assumes "fb_ok b"
  shows "\<exists>b'. fb_sputc c b = Some b' \<and> fb_ok b' \<and> fb_text b' = fb_text b @ [c]"
proof (cases "length (fb_text b) < fb_end b")
  case True
  then show ?thesis using assms by (simp add: fb_sputc_def fb_ok_def)
next
  case False
  let ?n = "length (fb_text b)"
  have n: "?n = fb_end b" "0 < ?n" "?n \<le> fb_capacity b" using False assms by (auto simp: fb_ok_def)
  then have r: "fb_reserve ?n b = b" by (simp add: fb_reserve_def)
  define b2 where "b2 = fb_reserve (?n * 2) (b\<lparr>fb_size := ?n\<rparr>)"
  have b2: "?n * 2 \<le> fb_capacity b2" "fb_text b2 = fb_text b" by (simp_all add: b2_def fb_reserve_def Let_def)
  then have lt: "?n < fb_capacity b2" and le: "?n + 1 \<le> ?n * 2" "0 < ?n * 2" using n(2) by linarith+
  have "fb_overflow c b = Some (b2\<lparr>fb_text := fb_text b2 @ [c], fb_end := ?n * 2\<rparr>)"
    unfolding fb_overflow_def Let_def r b2_def [symmetric] using lt by (simp only: if_True)
  then show ?thesis using False b2 le by (simp add: fb_sputc_def fb_ok_def Suc_le_eq)
qed

lemma fb_sputn_text:
  "fb_ok b \<Longrightarrow> \<exists>b'. fb_sputn s b = Some b' \<and> fb_ok b' \<and> fb_text b' = fb_text b @ s"
proof (induction s arbitrary: b)
  case (Cons c s)
  obtain b1 where "fb_sputc c b = Some b1" "fb_ok b1" "fb_text b1 = fb_text b @ [c]" using fb_sputc_ok [OF Cons.prems] by blast
  then show ?case using Cons.IH [of b1] by auto
qed simp

lemma FormatBuf_text: "\<exists>b. fb_sputn s FormatBuf = Some b \<and> fb_text b = s"
  using fb_sputn_text [of FormatBuf s] by (auto simp: FormatBuf_def fb_ok_def INLINE_BUFFER_SIZE_def)

text \<open>A format error in \<open>print_colored\<close> leaves the terminal in the colour.\<close>

lemma colored_error_keeps_color:
  "format_write junk fmt args [] = Inl (e, w) \<Longrightarrow>
   fmt_print_colored junk room RED fmt args out = (Some e, out @ CHR 0x1B # ''[31m'')"
  by (simp add: fmt_print_colored_def fmt_print_def color_code_def char_codes)

text \<open>\<open>fprintf\<close> returns the number of characters, and -1 if the file did not take them all.\<close>

lemma fprintf_result:
  assumes "printf_format junk fmt args [] = Inr w" and "length w < 2 ^ 31"
  shows "fmt_fprintf junk room fmt args file = (Inr (if room < length w then - 1 else int (length w)), file @ take room w)"
proof -
  have "sint (word_of_int (int (length w)) :: u32) = int (length w)"
    unfolding sint_sbintrunc' using assms(2) by (intro signed_take_bit_int_eq_self) simp_all
  then have "sint (word_of_nat (length w) :: u32) = int (length w)" by (simp only: of_int_of_nat_eq)
  then show ?thesis using assms(1) by (auto simp: fmt_fprintf_def fmt_fwrite_def Let_def)
qed

end
