(* ===== verification/SpdPattern.thy ===== *)
theory SpdPattern
  imports FmtFormat EcDate
begin

text \<open>
  Levels, messages and the pattern formatter of spdlog (\<open>src/common/spdlog/include/common.h\<close>,
  \<open>details/log_msg.h\<close>, \<open>details/os.h\<close>, \<open>details/pattern_formatter_impl.h\<close>).

  A formatter appends to the writer \<open>formatted\<close> of a message through the writer of \<open>FmtWriter\<close>; a
  \<open>std::ostream\<close>-like chain \<open>w << a << b\<close> is \<open>chain\<close>. Local time is that of a zone of fixed offset
  \<open>off\<close> (\<open>tm_gmtoff\<close>), as in \<open>EcDate\<close>; a time point of the system clock is its number of nanoseconds
  since the epoch. The variants for Windows and the switches \<open>SPDLOG_NO_...\<close> are not modelled.
\<close>

section \<open>Levels\<close>

datatype level_enum =
    L_trace | L_debug | L_info | L_notice | L_warn | L_err | L_critical | L_alert | L_emerg | L_off

fun level_value :: "level_enum \<Rightarrow> nat" where
  "level_value L_trace = 0" | "level_value L_debug = 1" | "level_value L_info = 2"
| "level_value L_notice = 3" | "level_value L_warn = 4" | "level_value L_err = 5"
| "level_value L_critical = 6" | "level_value L_alert = 7" | "level_value L_emerg = 8"
| "level_value L_off = 9"

lemma level_value_inject: "level_value a = level_value b \<longleftrightarrow> a = b"
  by (cases a; cases b) simp_all

lemma level_value_less: "level_value l < 10"
  by (cases l) simp_all

text \<open>The order of the enumeration.\<close>

instantiation level_enum :: linorder
begin

definition less_eq_level_enum :: "level_enum \<Rightarrow> level_enum \<Rightarrow> bool" where
  "less_eq_level_enum a b \<longleftrightarrow> level_value a \<le> level_value b"

definition less_level_enum :: "level_enum \<Rightarrow> level_enum \<Rightarrow> bool" where
  "less_level_enum a b \<longleftrightarrow> level_value a < level_value b"

instance
  by standard (auto simp: less_eq_level_enum_def less_level_enum_def level_value_inject)

end

definition level_names :: "string list" where
  "level_names = [''trace'', ''debug'', ''info'', ''notice'', ''warning'', ''error'', ''critical'', ''alert'',
     ''emerg'', ''off'']"

definition short_level_names :: "string list" where
  "short_level_names = [''T'', ''D'', ''I'', ''N'', ''W'', ''E'', ''C'', ''A'', ''M'', ''O'']"

definition to_str :: "level_enum \<Rightarrow> string" where
  "to_str l = level_names ! level_value l"

definition to_short_str :: "level_enum \<Rightarrow> string" where
  "to_short_str l = short_level_names ! level_value l"

text \<open>What a logging call throws: \<open>spdlog_ex\<close>. A write outside a buffer would be undefined.\<close>

datatype spd_error = SpdlogEx string | Undefined

section \<open>Messages\<close>

record log_msg =
  logger_name :: string
  msg_level :: level_enum
  time :: int
  thread_id :: u64
  raw :: string
  formatted :: string

text \<open>The constructor leaves the time and the thread as they are in memory.\<close>

definition log_msg_of_level :: "int \<Rightarrow> u64 \<Rightarrow> level_enum \<Rightarrow> log_msg" where
  "log_msg_of_level junk_time junk_id l =
     \<lparr>logger_name = [], msg_level = l, time = junk_time, thread_id = junk_id, raw = [], formatted = []\<rparr>"

definition log_msg_copy :: "log_msg \<Rightarrow> log_msg" where
  "log_msg_copy other =
     \<lparr>logger_name = logger_name other, msg_level = msg_level other, time = time other, thread_id = thread_id other,
      raw = (if raw other \<noteq> [] then raw other else []),
      formatted = (if formatted other \<noteq> [] then formatted other else [])\<rparr>"

definition log_msg_clear :: "log_msg \<Rightarrow> log_msg" where
  "log_msg_clear m = m\<lparr>msg_level := L_off, raw := [], formatted := []\<rparr>"

text \<open>The move constructor: the new message and what is left in the old one, whose name is \<open>left_name\<close>.\<close>

definition log_msg_move :: "string \<Rightarrow> log_msg \<Rightarrow> log_msg \<times> log_msg" where
  "log_msg_move left_name other =
     (\<lparr>logger_name = logger_name other, msg_level = msg_level other, time = time other, thread_id = thread_id other,
       raw = raw other, formatted = formatted other\<rparr>,
      log_msg_clear (other\<lparr>logger_name := left_name\<rparr>))"

section \<open>Writing\<close>

type_synonym writer_op = "char list \<Rightarrow> fmt_error + char list"

definition wr :: "string \<Rightarrow> writer_op" where
  "wr s w = Inr (w @ s)"

text \<open>\<open>w << value\<close> for an int, an unsigned int and a \<open>size_t\<close>, and \<open>w << fmt::pad(value, width, '0')\<close>; a
  C++ int is the word of its value.\<close>

definition wr_int :: "char \<Rightarrow> int \<Rightarrow> writer_op" where
  "wr_int junk v w = of_overrun (write_decimal junk count_digits_32 True (word_of_int v :: u32) w)"

definition wr_uint :: "char \<Rightarrow> u32 \<Rightarrow> writer_op" where
  "wr_uint junk v w = write_int junk count_digits_32 False v (TypeSpec (CHR 0x00)) w"

definition wr_size :: "char \<Rightarrow> u64 \<Rightarrow> writer_op" where
  "wr_size junk v w = write_int junk count_digits_64 False v (TypeSpec (CHR 0x00)) w"

definition wr_pad :: "char \<Rightarrow> int \<Rightarrow> nat \<Rightarrow> writer_op" where
  "wr_pad junk v n w =
     write_int junk count_digits_32 True (word_of_int v :: u32) (AlignSpec n (CHR ''0'') ALIGN_DEFAULT) w"

definition wr_upad :: "char \<Rightarrow> u32 \<Rightarrow> nat \<Rightarrow> writer_op" where
  "wr_upad junk v n w = write_int junk count_digits_32 False v (AlignSpec n (CHR ''0'') ALIGN_DEFAULT) w"

fun chain :: "writer_op list \<Rightarrow> writer_op" where
  "chain [] w = Inr w"
| "chain (f # fs) w = sbind (f w) (chain fs)"

definition pad_n_join2 :: "char \<Rightarrow> int \<Rightarrow> int \<Rightarrow> char \<Rightarrow> writer_op" where
  "pad_n_join2 junk v1 v2 sep = chain [wr_pad junk v1 2, wr [sep], wr_pad junk v2 2]"

definition pad_n_join3 :: "char \<Rightarrow> int \<Rightarrow> int \<Rightarrow> int \<Rightarrow> char \<Rightarrow> writer_op" where
  "pad_n_join3 junk v1 v2 v3 sep =
     chain [wr_pad junk v1 2, wr [sep], wr_pad junk v2 2, wr [sep], wr_pad junk v3 2]"

section \<open>The flags\<close>

definition ampm :: "tm \<Rightarrow> string" where
  "ampm t = (if tm_hour t \<ge> 12 then ''PM'' else ''AM'')"

definition to12h :: "tm \<Rightarrow> int" where
  "to12h t = (if tm_hour t > 12 then tm_hour t - 12 else tm_hour t)"

definition days :: "string list" where
  "days = [''Sun'', ''Mon'', ''Tue'', ''Wed'', ''Thu'', ''Fri'', ''Sat'']"

definition full_days :: "string list" where
  "full_days = [''Sunday'', ''Monday'', ''Tuesday'', ''Wednesday'', ''Thursday'', ''Friday'', ''Saturday'']"

definition months :: "string list" where
  "months = [''Jan'', ''Feb'', ''Mar'', ''Apr'', ''May'', ''June'', ''July'', ''Aug'', ''Sept'', ''Oct'', ''Nov'',
     ''Dec'']"

definition full_months :: "string list" where
  "full_months = [''January'', ''February'', ''March'', ''April'', ''May'', ''June'', ''July'', ''August'',
     ''September'', ''October'', ''November'', ''December'']"

definition millis :: "log_msg \<Rightarrow> int" where
  "millis msg = c_mod (c_div (time msg) 1000000) 1000"

definition micros :: "log_msg \<Rightarrow> int" where
  "micros msg = c_mod (c_div (time msg) 1000) 1000000"

definition nanos :: "log_msg \<Rightarrow> int" where
  "nanos msg = c_mod (time msg) 1000000000"

definition utc_minutes_offset :: "int \<Rightarrow> int" where
  "utc_minutes_offset off = c_div off 60"

definition c_format :: "char \<Rightarrow> tm \<Rightarrow> writer_op" where
  "c_format junk t =
     chain [wr (days ! nat (tm_wday t)), wr '' '', wr (months ! nat (tm_mon t)), wr '' '', wr_int junk (tm_mday t),
       wr '' '', pad_n_join3 junk (tm_hour t) (tm_min t) (tm_sec t) (CHR '':''), wr '' '',
       wr_int junk (tm_year t + 1900)]"

definition z_format :: "char \<Rightarrow> int \<Rightarrow> writer_op" where
  "z_format junk off =
     (let total_minutes = utc_minutes_offset off; h = c_div total_minutes 60; m = c_mod total_minutes 60
      in chain [wr (if h \<ge> 0 then ''+'' else ''-''), pad_n_join2 junk h m (CHR '':'')])"

definition full_format :: "char \<Rightarrow> log_msg \<Rightarrow> tm \<Rightarrow> writer_op" where
  "full_format junk msg t =
     chain [wr ''['', wr_uint junk (word_of_int (tm_year t + 1900)), wr ''-'',
       wr_upad junk (word_of_int (tm_mon t + 1)) 2, wr ''-'', wr_upad junk (word_of_int (tm_mday t)) 2, wr '' '',
       wr_upad junk (word_of_int (tm_hour t)) 2, wr '':'', wr_upad junk (word_of_int (tm_min t)) 2, wr '':'',
       wr_upad junk (word_of_int (tm_sec t)) 2, wr ''.'', wr_upad junk (word_of_int (millis msg)) 3, wr ''] '',
       wr ''['', wr (logger_name msg), wr ''] '', wr ''['', wr (to_str (msg_level msg)), wr ''] '', wr (raw msg)]"

text \<open>The classes derived from \<open>flag_formatter\<close>, and their \<open>format\<close>.\<close>

datatype flag_formatter =
    name_formatter | level_formatter | short_level_formatter | a_formatter | A_formatter | b_formatter
  | B_formatter | c_formatter | C_formatter | D_formatter | Y_formatter | m_formatter | d_formatter
  | H_formatter | I_formatter | M_formatter | S_formatter | e_formatter | f_formatter | F_formatter
  | p_formatter | r_formatter | R_formatter | T_formatter | z_formatter | t_formatter | v_formatter
  | ch_formatter char | aggregate_formatter string | full_formatter

fun flag_format :: "char \<Rightarrow> int \<Rightarrow> flag_formatter \<Rightarrow> log_msg \<Rightarrow> tm \<Rightarrow> writer_op" where
  "flag_format junk off name_formatter msg t = wr (logger_name msg)"
| "flag_format junk off level_formatter msg t = wr (to_str (msg_level msg))"
| "flag_format junk off short_level_formatter msg t = wr (to_short_str (msg_level msg))"
| "flag_format junk off a_formatter msg t = wr (days ! nat (tm_wday t))"
| "flag_format junk off A_formatter msg t = wr (full_days ! nat (tm_wday t))"
| "flag_format junk off b_formatter msg t = wr (months ! nat (tm_mon t))"
| "flag_format junk off B_formatter msg t = wr (full_months ! nat (tm_mon t))"
| "flag_format junk off c_formatter msg t = c_format junk t"
| "flag_format junk off C_formatter msg t = wr_pad junk (c_mod (tm_year t) 100) 2"
| "flag_format junk off D_formatter msg t =
     pad_n_join3 junk (tm_mon t + 1) (tm_mday t) (c_mod (tm_year t) 100) (CHR ''/'')"
| "flag_format junk off Y_formatter msg t = wr_int junk (tm_year t + 1900)"
| "flag_format junk off m_formatter msg t = wr_pad junk (tm_mon t + 1) 2"
| "flag_format junk off d_formatter msg t = wr_pad junk (tm_mday t) 2"
| "flag_format junk off H_formatter msg t = wr_pad junk (tm_hour t) 2"
| "flag_format junk off I_formatter msg t = wr_pad junk (to12h t) 2"
| "flag_format junk off M_formatter msg t = wr_pad junk (tm_min t) 2"
| "flag_format junk off S_formatter msg t = wr_pad junk (tm_sec t) 2"
| "flag_format junk off e_formatter msg t = wr_pad junk (millis msg) 3"
| "flag_format junk off f_formatter msg t = wr_pad junk (micros msg) 6"
| "flag_format junk off F_formatter msg t = wr_pad junk (nanos msg) 9"
| "flag_format junk off p_formatter msg t = wr (ampm t)"
| "flag_format junk off r_formatter msg t =
     chain [pad_n_join3 junk (to12h t) (tm_min t) (tm_sec t) (CHR '':''), wr '' '', wr (ampm t)]"
| "flag_format junk off R_formatter msg t = pad_n_join2 junk (tm_hour t) (tm_min t) (CHR '':'')"
| "flag_format junk off T_formatter msg t = pad_n_join3 junk (tm_hour t) (tm_min t) (tm_sec t) (CHR '':'')"
| "flag_format junk off z_formatter msg t = z_format junk off"
| "flag_format junk off t_formatter msg t = wr_size junk (thread_id msg)"
| "flag_format junk off v_formatter msg t = wr (raw msg)"
| "flag_format junk off (ch_formatter c) msg t = wr [c]"
| "flag_format junk off (aggregate_formatter s) msg t = wr s"
| "flag_format junk off full_formatter msg t = full_format junk msg t"

section \<open>Patterns\<close>

definition handle_flag :: "char \<Rightarrow> flag_formatter list" where
  "handle_flag flag =
     (if flag = CHR ''n'' then [name_formatter] else if flag = CHR ''l'' then [level_formatter]
      else if flag = CHR ''L'' then [short_level_formatter] else if flag = CHR ''t'' then [t_formatter]
      else if flag = CHR ''v'' then [v_formatter] else if flag = CHR ''a'' then [a_formatter]
      else if flag = CHR ''A'' then [A_formatter]
      else if flag = CHR ''b'' \<or> flag = CHR ''h'' then [b_formatter]
      else if flag = CHR ''B'' then [B_formatter] else if flag = CHR ''c'' then [c_formatter]
      else if flag = CHR ''C'' then [C_formatter] else if flag = CHR ''Y'' then [Y_formatter]
      else if flag = CHR ''D'' \<or> flag = CHR ''x'' then [D_formatter]
      else if flag = CHR ''m'' then [m_formatter] else if flag = CHR ''d'' then [d_formatter]
      else if flag = CHR ''H'' then [H_formatter] else if flag = CHR ''I'' then [I_formatter]
      else if flag = CHR ''M'' then [M_formatter] else if flag = CHR ''S'' then [S_formatter]
      else if flag = CHR ''e'' then [e_formatter] else if flag = CHR ''f'' then [f_formatter]
      else if flag = CHR ''F'' then [F_formatter] else if flag = CHR ''p'' then [p_formatter]
      else if flag = CHR ''r'' then [r_formatter] else if flag = CHR ''R'' then [R_formatter]
      else if flag = CHR ''T'' \<or> flag = CHR ''X'' then [T_formatter]
      else if flag = CHR ''z'' then [z_formatter] else if flag = CHR ''+'' then [full_formatter]
      else [ch_formatter (CHR ''%''), ch_formatter flag])"

definition flush_chars :: "string option \<Rightarrow> flag_formatter list" where
  "flush_chars user_chars = (case user_chars of None \<Rightarrow> [] | Some s \<Rightarrow> [aggregate_formatter s])"

fun compile_loop :: "string option \<Rightarrow> string \<Rightarrow> flag_formatter list" where
  "compile_loop user_chars [] = flush_chars user_chars"
| "compile_loop user_chars (c # rest) =
     (if c = CHR ''%''
      then flush_chars user_chars @ (case rest of [] \<Rightarrow> [] | flag # rest' \<Rightarrow> handle_flag flag @ compile_loop None rest')
      else compile_loop (Some (case user_chars of None \<Rightarrow> [c] | Some s \<Rightarrow> s @ [c])) rest)"

definition pattern_formatter :: "string \<Rightarrow> flag_formatter list" where
  "pattern_formatter pattern = compile_loop None pattern"

definition eol :: string where "eol = [CHR 0x0A]"

definition to_time_t :: "int \<Rightarrow> int" where
  "to_time_t t = c_div t 1000000000"

definition pattern_format ::
  "char \<Rightarrow> int \<Rightarrow> flag_formatter list \<Rightarrow> log_msg \<Rightarrow> spd_error + log_msg" where
  "pattern_format junk off formatters msg =
     (let tm_time = localtime_r off (to_time_t (time msg))
      in case chain (map (\<lambda>f. flag_format junk off f msg tm_time) formatters @ [wr eol]) (formatted msg) of
           Inl (FormatError e) \<Rightarrow> Inl (SpdlogEx (''formatting error while processing format string: '' @ e))
         | Inl Overrun \<Rightarrow> Inl Undefined
         | Inr w \<Rightarrow> Inr (msg\<lparr>formatted := w\<rparr>))"

section \<open>The text a pattern stands for\<close>

lemma sint_word_of_int: "- (2 ^ 31) \<le> v \<Longrightarrow> v < 2 ^ 31 \<Longrightarrow> sint (word_of_int v :: u32) = v"
  by (simp add: signed_of_int signed_take_bit_int_eq_self)

text \<open>A writer operation that appends a text.\<close>

definition writes :: "writer_op \<Rightarrow> string \<Rightarrow> bool" where
  "writes f s \<longleftrightarrow> (\<forall>w. f w = Inr (w @ s))"

named_theorems writes_intros \<open>what the writer operations append\<close>

lemma writesD: "writes f s \<Longrightarrow> f w = Inr (w @ s)"
  by (simp add: writes_def)

lemma writes_wr [writes_intros]: "writes (wr s) s"
  by (simp add: writes_def wr_def)

lemma writes_Nil [writes_intros]: "writes (chain []) []"
  by (simp add: writes_def)

lemma writes_Cons [writes_intros]: "writes f s \<Longrightarrow> writes (chain fs) t \<Longrightarrow> writes (chain (f # fs)) (s @ t)"
  by (simp add: writes_def)

lemma chain_append: "chain (fs @ gs) w = sbind (chain fs w) (chain gs)"
proof (induction fs arbitrary: w)
  case (Cons f fs)
  then show ?case by (cases "f w") simp_all
qed simp

lemma writes_append: "writes (chain fs) s \<Longrightarrow> writes (chain gs) t \<Longrightarrow> writes (chain (fs @ gs)) (s @ t)"
  by (simp add: writes_def chain_append)

lemma writes_int [writes_intros]: "writes (wr_int junk v) (int_digits (sint (word_of_int v :: u32)))"
  using write_decimal_notation [where v = "word_of_int v :: u32" and count = count_digits_32 and sg = True]
  by (simp add: writes_def wr_int_def of_overrun_def count_digits_32_length)

text \<open>A number padded with zeros to \<open>n\<close> characters: the zeros stand before the sign.\<close>

definition zero_pad :: "nat \<Rightarrow> int \<Rightarrow> string" where
  "zero_pad n v = replicate (n - length (int_digits v)) (CHR ''0'') @ int_digits v"

lemma int_field_pad:
  "int_field (AlignSpec n (CHR ''0'') ALIGN_DEFAULT) prefix digits
   = replicate (n - length (prefix @ digits)) (CHR ''0'') @ prefix @ digits"
  by (simp add: int_field_def layout_def layout_plain_def AlignSpec_def)

lemma pad_notation:
  "int_notation True v (AlignSpec n c al) = Some (if sint v < 0 then ''-'' else [], nat_digits (nat \<bar>sint v\<bar>))"
  "int_notation False v (AlignSpec n c al) = Some ([], nat_digits (unat v))"
  "int_notation False v (TypeSpec (CHR 0x00)) = Some ([], nat_digits (unat v))"
  by (simp_all add: int_notation_def int_prefix_def Let_def spec_flag_def AlignSpec_def TypeSpec_def nat_abs_uint
    del: unsigned_eq_0_iff abs_of_nonneg)

lemma int_digits_abs: "int_digits i = (if i < 0 then ''-'' else []) @ nat_digits (nat \<bar>i\<bar>)"
  by (simp add: int_digits_def)

lemma writes_pad [writes_intros]: "writes (wr_pad junk v n) (zero_pad n (sint (word_of_int v :: u32)))"
  by (simp add: writes_def wr_pad_def write_int_32 pad_notation int_field_pad zero_pad_def int_digits_abs)

lemma int_digits_nat: "int_digits (int k) = nat_digits k"
  by (simp add: int_digits_def)

lemma writes_upad [writes_intros]: "writes (wr_upad junk v n) (zero_pad n (int (unat v)))"
  by (simp add: writes_def wr_upad_def write_int_32 pad_notation int_field_pad zero_pad_def int_digits_nat
    del: of_nat_unat)

lemma type_field [simp]: "int_field (TypeSpec (CHR 0x00)) [] digits = digits"
  by (simp add: int_field_def layout_def layout_plain_def TypeSpec_def)

lemma writes_uint [writes_intros]: "writes (wr_uint junk v) (nat_digits (unat v))"
  by (simp add: writes_def wr_uint_def write_int_32 pad_notation)

lemma writes_size [writes_intros]: "writes (wr_size junk v) (nat_digits (unat v))"
  by (simp add: writes_def wr_size_def write_int_64 pad_notation)

lemma writes_join [writes_intros]:
  "writes (pad_n_join2 junk a b sep)
     (zero_pad 2 (sint (word_of_int a :: u32)) @ [sep] @ zero_pad 2 (sint (word_of_int b :: u32)))"
  "writes (pad_n_join3 junk a b c sep)
     (zero_pad 2 (sint (word_of_int a :: u32)) @ [sep] @ zero_pad 2 (sint (word_of_int b :: u32)) @ [sep]
      @ zero_pad 2 (sint (word_of_int c :: u32)))"
  unfolding pad_n_join2_def pad_n_join3_def
  by (simp_all add: writes_def wr_def writesD [OF writes_pad])

lemma writes_exists:
  "\<exists>s'. writes (wr s) s'" "\<exists>s'. writes (pad_n_join2 junk a b sep) s'" "\<exists>s'. writes (pad_n_join3 junk a b c sep) s'"
  "\<exists>s'. writes (wr_pad junk v n) s'" "\<exists>s'. writes (wr_upad junk x n) s'" "\<exists>s'. writes (wr_int junk v) s'"
  "\<exists>s'. writes (wr_uint junk x) s'" "\<exists>s'. writes (wr_size junk y) s'" "\<exists>s'. writes (chain []) s'"
  by (rule exI, rule writes_intros)+

lemma writes_exists_Cons:
  "\<exists>s. writes f s \<Longrightarrow> \<exists>s. writes (chain fs) s \<Longrightarrow> \<exists>s. writes (chain (f # fs)) s"
  using writes_Cons by blast

lemma flag_writes: "\<exists>s. writes (flag_format junk off f msg t) s"
  by (cases f; simp only: flag_format.simps c_format_def z_format_def full_format_def Let_def)
    (rule writes_exists writes_exists_Cons)+

text \<open>The text of one formatter, and the text a pattern stands for, read character by character.\<close>

definition flag_text :: "int \<Rightarrow> log_msg \<Rightarrow> flag_formatter \<Rightarrow> string" where
  "flag_text off msg f =
     projr (flag_format (CHR 0x00) off f msg (localtime_r off (to_time_t (time msg))) [])"

fun render :: "(flag_formatter \<Rightarrow> string) \<Rightarrow> string \<Rightarrow> string" where
  "render text [] = []"
| "render text (c # rest) =
     (if c = CHR ''%''
      then (case rest of [] \<Rightarrow> [] | flag # rest' \<Rightarrow> concat (map text (handle_flag flag)) @ render text rest')
      else c # render text rest)"

lemma junk_irrelevant: "flag_format junk off f msg t w = flag_format junk' off f msg t w"
proof (cases f)
  case full_formatter
  then show ?thesis
    by (simp add: full_format_def writesD [OF writes_uint] writesD [OF writes_upad] wr_def)
qed (simp_all add: c_format_def z_format_def Let_def writesD [OF writes_join(1)] writesD [OF writes_join(2)]
    writesD [OF writes_pad] writesD [OF writes_int] writesD [OF writes_size] wr_def)

lemma flag_text_writes:
  "writes (flag_format junk off f msg (localtime_r off (to_time_t (time msg)))) (flag_text off msg f)"
proof -
  obtain s where s: "writes (flag_format junk off f msg (localtime_r off (to_time_t (time msg)))) s"
    using flag_writes by blast
  then have "flag_text off msg f = s"
    using junk_irrelevant [of "CHR 0x00" off f msg _ "[]" junk] by (simp add: flag_text_def writes_def)
  then show ?thesis using s by simp
qed

lemma aggregate_text [simp]: "flag_text off msg (aggregate_formatter s) = s"
  "flag_text off msg (ch_formatter c) = [c]" "flag_text off msg name_formatter = logger_name msg"
  "flag_text off msg level_formatter = to_str (msg_level msg)" "flag_text off msg v_formatter = raw msg"
  by (simp_all add: flag_text_def wr_def)

lemma compile_loop_render:
  "concat (map (flag_text off msg) (compile_loop u p))
   = (case u of None \<Rightarrow> [] | Some s \<Rightarrow> s) @ render (flag_text off msg) p"
proof (induction u p rule: compile_loop.induct)
  case (1 u)
  then show ?case by (simp add: flush_chars_def split: option.split)
next
  case (2 u c rest)
  then show ?case by (auto simp: flush_chars_def split: option.split list.split)
qed

lemma chain_flags:
  "writes (chain (map (\<lambda>f. flag_format junk off f msg (localtime_r off (to_time_t (time msg)))) fs))
     (concat (map (flag_text off msg) fs))"
proof (induction fs)
  case (Cons f fs)
  then show ?case using writes_Cons [OF flag_text_writes] by (simp del: chain.simps)
qed (simp add: writes_def)

lemma pattern_format_text:
  "pattern_format junk off fs msg
   = Inr (msg\<lparr>formatted := formatted msg @ concat (map (flag_text off msg) fs) @ eol\<rparr>)"
proof -
  have "writes (chain [wr eol]) eol" using writes_Cons [OF writes_wr writes_Nil] by simp
  from writesD [OF writes_append [OF chain_flags this]] show ?thesis
    by (simp add: pattern_format_def Let_def)
qed


section \<open>The default pattern\<close>

definition full_pattern :: string where
  "full_pattern = ''[%Y-%m-%d %H:%M:%S.%e] [%n] [%l] %v''"

text \<open>The default line of a message from its local time.\<close>

definition default_line :: "log_msg \<Rightarrow> tm \<Rightarrow> string" where
  "default_line msg t =
     ''['' @ nat_digits (nat (tm_year t + 1900)) @ ''-'' @ zero_pad 2 (tm_mon t + 1) @ ''-'' @ zero_pad 2 (tm_mday t)
     @ '' '' @ zero_pad 2 (tm_hour t) @ '':'' @ zero_pad 2 (tm_min t) @ '':'' @ zero_pad 2 (tm_sec t)
     @ ''.'' @ zero_pad 3 (millis msg) @ ''] ['' @ logger_name msg @ ''] ['' @ to_str (msg_level msg) @ ''] '' @ raw msg"

lemma unat_word_of_int: "0 \<le> v \<Longrightarrow> v < 2 ^ 32 \<Longrightarrow> int (unat (word_of_int v :: u32)) = v"
  by (simp add: unsigned_of_int take_bit_int_eq_self)

lemma year_bounds:
  assumes "- 86400 \<le> stamp + off" and "stamp + off \<le> 10 ^ 10"
  shows "1969 \<le> tm_year (localtime_r off stamp) + 1900" and "tm_year (localtime_r off stamp) + 1900 < 2300"
proof -
  define n where "n = (stamp + off) div 86400 + epoch_day"
  define y where "y = year_of_day n"
  have y: "tm_year (localtime_r off stamp) + 1900 = y"
    by (simp add: localtime_r_def Let_def n_def y_def split: prod.split)
  have "- 1 \<le> (stamp + off) div 86400"
    using assms(1) zdiv_mono1 [of "- 86400" "stamp + off" 86400] by simp
  moreover have "(stamp + off) div 86400 \<le> 115740"
    using assms(2) zdiv_mono1 [of "stamp + off" "10 ^ 10" 86400] by simp
  ultimately have n: "719161 \<le> n" "n \<le> 834902" by (simp_all add: n_def epoch_day_def)
  have b: "days_before_year y \<le> n" "n < days_before_year y + year_length y"
    using year_of_day_bounds [of n] by (simp_all add: y_def)
  have m: "days_before_year a \<le> days_before_year c" if "a \<le> c" for a c
  proof (cases "a = c")
    case False
    then have "days_before_year a + year_length a \<le> days_before_year c" using that by (intro year_mono) simp
    then show ?thesis by (simp add: year_length_def split: if_splits)
  qed simp
  have "1969 \<le> y"
  proof (rule ccontr)
    assume "\<not> 1969 \<le> y"
    then have "days_before_year y + year_length y \<le> days_before_year 1969" by (intro year_mono) simp
    moreover have "days_before_year 1969 = 718797" by (simp add: days_before_year_def)
    ultimately show False using b n by linarith
  qed
  moreover have "y < 2300"
  proof (rule ccontr)
    assume "\<not> y < 2300"
    then have "days_before_year 2300 \<le> days_before_year y" by (intro m) simp
    moreover have "days_before_year 2300 = 839692" by (simp add: days_before_year_def)
    ultimately show False using b n by linarith
  qed
  ultimately show "1969 \<le> tm_year (localtime_r off stamp) + 1900" "tm_year (localtime_r off stamp) + 1900 < 2300"
    using y by simp_all
qed

lemma tm_ranges:
  assumes "tm_ok t"
  shows "0 \<le> tm_sec t" "tm_sec t < 60" "0 \<le> tm_min t" "tm_min t < 60" "0 \<le> tm_hour t" "tm_hour t < 24"
    "0 \<le> tm_mon t" "tm_mon t < 12" "1 \<le> tm_mday t" "tm_mday t \<le> 31"
proof -
  have "month_length y m \<le> 31" for y m by (simp add: month_length_def)
  then show "tm_mday t \<le> 31" using assms unfolding tm_ok_def by (meson order_trans)
qed (use assms in \<open>simp_all add: tm_ok_def\<close>)

lemma word_fields:
  assumes "0 \<le> v" and "v < 2 ^ 31"
  shows "sint (word_of_int v :: u32) = v" and "int (unat (word_of_int v :: u32)) = v" and "unat (word_of_int v :: u32) = nat v"
proof -
  show "sint (word_of_int v :: u32) = v" using assms by (intro sint_word_of_int) simp_all
  show i: "int (unat (word_of_int v :: u32)) = v" using assms by (intro unat_word_of_int) simp_all
  show "unat (word_of_int v :: u32) = nat v" by (metis i nat_int)
qed

lemma c_mod_range: "0 \<le> a \<Longrightarrow> 0 < b \<Longrightarrow> 0 \<le> c_mod a b \<and> c_mod a b < b"
  by (simp add: c_mod_nonneg)

lemma time_ranges:
  assumes "0 \<le> time msg"
  shows "0 \<le> millis msg" "millis msg < 1000" "to_time_t (time msg) = time msg div 1000000000"
  using assms c_mod_range [of "time msg div 1000000" 1000]
  by (simp_all add: millis_def to_time_t_def c_div_nonneg pos_imp_zdiv_nonneg_iff)

lemma local_fields:
  assumes "0 \<le> time msg" and "time msg < 2 ^ 63" and "\<bar>off\<bar> \<le> 86400"
  defines "t \<equiv> localtime_r off (to_time_t (time msg))"
  shows "\<And>v. v \<in> {tm_year t + 1900, tm_mon t + 1, tm_mday t, tm_hour t, tm_min t, tm_sec t, millis msg} \<Longrightarrow> 0 \<le> v \<and> v < 2 ^ 31"
proof -
  have "tm_ok t" unfolding t_def using stamp_of_localtime by blast
  note r = tm_ranges [OF this]
  let ?s = "to_time_t (time msg)"
  have "0 \<le> ?s" "?s \<le> 9223372036"
    using assms(1,2) zdiv_mono1 [of "time msg" "2 ^ 63 - 1" 1000000000]
    by (simp_all add: time_ranges pos_imp_zdiv_nonneg_iff)
  then have "- 86400 \<le> ?s + off" "?s + off \<le> 10 ^ 10" using assms(3) by simp_all
  note y = year_bounds [OF this, folded t_def]
  fix v assume "v \<in> {tm_year t + 1900, tm_mon t + 1, tm_mday t, tm_hour t, tm_min t, tm_sec t, millis msg}"
  then show "0 \<le> v \<and> v < 2 ^ 31"
    using r y time_ranges(1,2) [OF assms(1)] by auto
qed

lemma full_text:
  assumes "0 \<le> time msg" and "time msg < 2 ^ 63" and "\<bar>off\<bar> \<le> 86400"
  shows "flag_text off msg full_formatter = default_line msg (localtime_r off (to_time_t (time msg)))"
proof -
  define t where "t = localtime_r off (to_time_t (time msg))"
  note f = local_fields [OF assms, folded t_def]
  have w: "unat (word_of_int v :: u32) = nat v" "int (nat v) = v"
    if "v \<in> {tm_year t + 1900, tm_mon t + 1, tm_mday t, tm_hour t, tm_min t, tm_sec t, millis msg}" for v
    using f [OF that] word_fields(3) [of v] by simp_all
  have "full_format (CHR 0x00) msg t [] = Inr (default_line msg t)"
    unfolding full_format_def default_line_def
    using w by (simp add: wr_def writesD [OF writes_uint] writesD [OF writes_upad] del: of_int_add)
  then show ?thesis by (simp add: flag_text_def t_def)
qed

lemma full_pattern_text:
  assumes "0 \<le> time msg" and "time msg < 2 ^ 63" and "\<bar>off\<bar> \<le> 86400"
  shows "render (flag_text off msg) full_pattern = default_line msg (localtime_r off (to_time_t (time msg)))"
proof -
  define t where "t = localtime_r off (to_time_t (time msg))"
  note f = local_fields [OF assms, folded t_def]
  have w: "sint (word_of_int v :: u32) = v"
    if "v \<in> {tm_year t + 1900, tm_mon t + 1, tm_mday t, tm_hour t, tm_min t, tm_sec t, millis msg}" for v
    using f [OF that] word_fields(1) [of v] by simp
  have y: "int_digits (tm_year t + 1900) = nat_digits (nat (tm_year t + 1900))"
    using f [of "tm_year t + 1900"] by (simp add: int_digits_def)
  have e: "flag_text off msg Y_formatter = int_digits (tm_year t + 1900)" "flag_text off msg m_formatter = zero_pad 2 (tm_mon t + 1)"
    "flag_text off msg d_formatter = zero_pad 2 (tm_mday t)" "flag_text off msg H_formatter = zero_pad 2 (tm_hour t)"
    "flag_text off msg M_formatter = zero_pad 2 (tm_min t)" "flag_text off msg S_formatter = zero_pad 2 (tm_sec t)"
    "flag_text off msg e_formatter = zero_pad 3 (millis msg)"
    using w by (simp_all add: flag_text_def t_def [symmetric] writesD [OF writes_int] writesD [OF writes_pad] del: of_int_add)
  show ?thesis
    unfolding full_pattern_def t_def [symmetric] default_line_def
    by (simp add: handle_flag_def e y)
qed

text \<open>The hand-written formatter of the default pattern \<open>%+\<close> prints exactly what its documented pattern
  \<open>[%Y-%m-%d %H:%M:%S.%e] [%n] [%l] %v\<close> prints, for every time point from the epoch to the end of
  the range of the clock and every zone within a day of UTC: the date and time with leading zeros, the
  name, the level and the message.\<close>

theorem full_formatter_is_pattern:
  assumes "0 \<le> time msg" and "time msg < 2 ^ 63" and "\<bar>off\<bar> \<le> 86400"
  shows "pattern_format junk off (pattern_formatter ''%+'') msg = pattern_format junk off (pattern_formatter full_pattern) msg
    \<and> pattern_format junk off (pattern_formatter ''%+'') msg
        = Inr (msg\<lparr>formatted := formatted msg @ default_line msg (localtime_r off (to_time_t (time msg))) @ eol\<rparr>)"
proof -
  have "pattern_formatter ''%+'' = [full_formatter]"
    by (simp add: pattern_formatter_def flush_chars_def handle_flag_def)
  then show ?thesis
    using full_text [OF assms] full_pattern_text [OF assms]
    by (simp add: pattern_format_text pattern_formatter_def compile_loop_render)
qed

definition sample_msg :: log_msg where
  "sample_msg = \<lparr>logger_name = ''main'', msg_level = L_warn, time = 1447416000123456789, thread_id = 7,
     raw = ''disk full'', formatted = []\<rparr>"

theorem full_formatter_is_pattern_witness:
  "pattern_format (CHR ''?'') 3600 (pattern_formatter ''%+'') sample_msg
   = Inr (sample_msg\<lparr>formatted := ''[2015-11-13 13:00:00.123] [main] [warning] disk full'' @ eol\<rparr>)"
proof -
  have h: "0 \<le> time sample_msg" "time sample_msg < 2 ^ 63" "\<bar>3600 :: int\<bar> \<le> 86400" by (simp_all add: sample_msg_def)
  have t: "localtime_r 3600 (to_time_t (time sample_msg)) = \<lparr>tm_sec = 0, tm_min = 0, tm_hour = 13, tm_mday = 13, tm_mon = 10,
      tm_year = 115, tm_wday = 5, tm_yday = 316\<rparr>"
    by code_simp
  have m: "millis sample_msg = 123" by code_simp
  have line: "default_line sample_msg (localtime_r 3600 (to_time_t (time sample_msg))) = ''[2015-11-13 13:00:00.123] [main] [warning] disk full''"
    unfolding t default_line_def m
    by (simp add: zero_pad_def int_digits_def nat_digits_rec nat_digits_small digit_chars sample_msg_def to_str_def
        level_names_def)
  have "formatted sample_msg = []" by (simp add: sample_msg_def)
  then show ?thesis
    using full_formatter_is_pattern [OF h, of "CHR ''?''", THEN conjunct2] by (simp only: line append_Nil)
qed


section \<open>Two flags that print something else than documented\<close>

text \<open>The flag \<open>%z\<close> prints an offset of whole minutes east of UTC as \<open>+HH:MM\<close>. West of UTC both numbers are negative
  and carry a sign of their own: three and a half hours west is printed as \<open>--3:-30\<close>. The flag \<open>%I\<close>,
  documented as an hour from 1 to 12, prints 0 for the first hour of the day.\<close>

theorem z_and_I_formatters:
  assumes "0 \<le> h" and "h < 24" and "0 \<le> m" and "m < 60"
  shows "z_format junk ((h * 60 + m) * 60) w = Inr (w @ ''+'' @ zero_pad 2 h @ '':'' @ zero_pad 2 m)
    \<and> z_format junk (- 12600) w = Inr (w @ ''--3:-30'')
    \<and> (0 \<le> tm_hour t \<and> tm_hour t < 24 \<longrightarrow> flag_format junk off I_formatter msg t w = Inr (w @ zero_pad 2 (to12h t))
        \<and> (to12h t = 0 \<longleftrightarrow> tm_hour t = 0))"
proof (intro conjI impI)
  have "c_div ((h * 60 + m) * 60) 60 = h * 60 + m" using assms by (simp add: c_div_nonneg)
  moreover have "c_div (h * 60 + m) 60 = h" "c_mod (h * 60 + m) 60 = m"
    using assms by (simp_all add: c_div_nonneg c_mod_nonneg)
  ultimately show "z_format junk ((h * 60 + m) * 60) w = Inr (w @ ''+'' @ zero_pad 2 h @ '':'' @ zero_pad 2 m)"
    using assms word_fields(1) [of h] word_fields(1) [of m]
    by (simp add: z_format_def utc_minutes_offset_def Let_def wr_def writesD [OF writes_join(1)])
  have "c_div (- 12600) 60 = - 210" "c_div (- 210) 60 = - 3" "c_mod (- 210) 60 = - 30" by code_simp+
  then show "z_format junk (- 12600) w = Inr (w @ ''--3:-30'')"
    using sint_word_of_int [of "- 3"] sint_word_of_int [of "- 30"]
    by (simp add: z_format_def utc_minutes_offset_def Let_def wr_def writesD [OF writes_join(1)] zero_pad_def
        int_digits_def nat_digits_rec nat_digits_small digit_chars)
next
  assume t: "0 \<le> tm_hour t \<and> tm_hour t < 24"
  then show "flag_format junk off I_formatter msg t w = Inr (w @ zero_pad 2 (to12h t))"
    using word_fields(1) [of "to12h t"] by (simp add: writesD [OF writes_pad] to12h_def)
  show "to12h t = 0 \<longleftrightarrow> tm_hour t = 0" by (simp add: to12h_def)
qed

theorem z_and_I_formatters_witness:
  "z_format (CHR ''?'') ((5 * 60 + 30) * 60) [] = Inr ''+05:30''"
  using z_and_I_formatters [of 5 30 "CHR ''?''" "[]"]
  by (simp add: zero_pad_def int_digits_def nat_digits_rec nat_digits_small digit_chars)

end
