(* ===== verification/SpdFile.thy ===== *)
theory SpdFile
  imports SpdPattern
begin

text \<open>
  Files of spdlog: \<open>details/file_helper.h\<close> and the sinks of \<open>sinks/file_sinks.h\<close>.

  The file system maps names to contents; a write is what has been handed to the C library, whether
  buffered or not. \<open>denied f\<close> is the number of attempts to open \<open>f\<close> that still fail, so a failure may be
  lasting or pass; \<open>stuck f\<close> says that \<open>f\<close> cannot be removed or renamed, \<open>full\<close> that nothing can be
  written. A \<open>FILE *\<close> is the name of its file, which is not renamed while it is open. Sizes are natural
  numbers: they stay far below \<open>2\<^sup>6\<^sup>4\<close>. Every operation returns the new state also when it throws.
\<close>

record fsys =
  files :: "string \<rightharpoonup> string"
  denied :: "string \<Rightarrow> nat"
  stuck :: "string \<Rightarrow> bool"
  full :: bool

section \<open>The C library\<close>

definition fopen :: "string \<Rightarrow> bool \<Rightarrow> fsys \<Rightarrow> bool \<times> fsys" where
  "fopen fname trunc fs =
     (if denied fs fname > 0 then (False, fs\<lparr>denied := (denied fs)(fname := denied fs fname - 1)\<rparr>)
      else (True, fs\<lparr>files := (files fs)(fname \<mapsto>
              (if trunc then [] else case files fs fname of None \<Rightarrow> [] | Some c \<Rightarrow> c))\<rparr>))"

definition file_exists :: "string \<Rightarrow> fsys \<Rightarrow> bool" where
  "file_exists fname fs \<longleftrightarrow> files fs fname \<noteq> None"

definition remove_file :: "string \<Rightarrow> fsys \<Rightarrow> bool \<times> fsys" where
  "remove_file fname fs =
     (if stuck fs fname then (False, fs) else (True, fs\<lparr>files := (files fs)(fname := None)\<rparr>))"

definition rename_file :: "string \<Rightarrow> string \<Rightarrow> fsys \<Rightarrow> bool \<times> fsys" where
  "rename_file src target fs =
     (if stuck fs src \<or> stuck fs target then (False, fs)
      else (True, fs\<lparr>files := (files fs)(src := None, target := files fs src)\<rparr>))"

definition fwrite :: "string \<Rightarrow> string \<Rightarrow> fsys \<Rightarrow> bool \<times> fsys" where
  "fwrite fname data fs =
     (if full fs \<and> data \<noteq> [] then (False, fs)
      else (True, fs\<lparr>files := (files fs)(fname \<mapsto> (case files fs fname of None \<Rightarrow> [] | Some c \<Rightarrow> c) @ data)\<rparr>))"

section \<open>The file helper\<close>

record file_helper =
  fd :: "string option"
  fh_filename :: string
  force_flush :: bool

definition file_helper_new :: "bool \<Rightarrow> file_helper" where
  "file_helper_new flush = \<lparr>fd = None, fh_filename = [], force_flush = flush\<rparr>"

definition open_tries :: nat where "open_tries = 5"

definition fh_close :: "file_helper \<Rightarrow> file_helper" where
  "fh_close h = h\<lparr>fd := None\<rparr>"

text \<open>The loop over the attempts: what remains of them.\<close>

fun try_open :: "nat \<Rightarrow> string \<Rightarrow> bool \<Rightarrow> fsys \<Rightarrow> bool \<times> fsys" where
  "try_open 0 fname trunc fs = (False, fs)"
| "try_open (Suc n) fname trunc fs =
     (case fopen fname trunc fs of
        (True, fs') \<Rightarrow> (True, fs')
      | (False, fs') \<Rightarrow> try_open n fname trunc fs')"

definition fh_open :: "string \<Rightarrow> bool \<Rightarrow> file_helper \<times> fsys \<Rightarrow> spd_error option \<times> file_helper \<times> fsys" where
  "fh_open fname trunc hf =
     (let (h, fs) = hf; h1 = (fh_close h)\<lparr>fh_filename := fname\<rparr>
      in case try_open open_tries fname trunc fs of
           (True, fs') \<Rightarrow> (None, h1\<lparr>fd := Some fname\<rparr>, fs')
         | (False, fs') \<Rightarrow> (Some (SpdlogEx (''Failed opening file '' @ fname @ '' for writing'')), h1, fs'))"

definition fh_reopen :: "bool \<Rightarrow> file_helper \<times> fsys \<Rightarrow> spd_error option \<times> file_helper \<times> fsys" where
  "fh_reopen trunc hf =
     (if fh_filename (fst hf) = []
      then (Some (SpdlogEx ''Failed re opening file - was not opened before''), hf)
      else fh_open (fh_filename (fst hf)) trunc hf)"

definition fh_write :: "log_msg \<Rightarrow> file_helper \<times> fsys \<Rightarrow> spd_error option \<times> file_helper \<times> fsys" where
  "fh_write msg hf =
     (let (h, fs) = hf
      in case fd h of
           None \<Rightarrow> (Some Undefined, hf)
         | Some f \<Rightarrow>
             (case fwrite f (formatted msg) fs of
                (True, fs') \<Rightarrow> (None, h, fs')
              | (False, fs') \<Rightarrow> (Some (SpdlogEx (''Failed writing to file '' @ fh_filename h)), h, fs')))"

definition fh_size :: "file_helper \<Rightarrow> fsys \<Rightarrow> spd_error + nat" where
  "fh_size h fs =
     (case fd h of
        None \<Rightarrow> Inl (SpdlogEx (''Cannot use size() on closed file '' @ fh_filename h))
      | Some f \<Rightarrow> Inr (case files fs f of None \<Rightarrow> 0 | Some c \<Rightarrow> length c))"

section \<open>Sinks\<close>

text \<open>A file sink with the file system it works on. \<open>simple_file_sink\<close>:\<close>

definition simple_file_sink :: "string \<Rightarrow> bool \<Rightarrow> fsys \<Rightarrow> spd_error option \<times> file_helper \<times> fsys" where
  "simple_file_sink filename flush fs = fh_open filename False (file_helper_new flush, fs)"

definition simple_sink_it :: "log_msg \<Rightarrow> file_helper \<times> fsys \<Rightarrow> spd_error option \<times> file_helper \<times> fsys" where
  "simple_sink_it msg hf = fh_write msg hf"

record rotating_sink =
  base_filename :: string
  extension :: string
  max_size :: nat
  max_files :: nat
  current_size :: nat
  rot_helper :: file_helper

definition rot_filename :: "string \<Rightarrow> nat \<Rightarrow> string \<Rightarrow> string" where
  "rot_filename filename index ext =
     projr (if index \<noteq> 0
            then format_write (CHR 0x00) ''{}.{}.{}''
                   [(None, ArgString filename), (None, ArgULongLong (word_of_nat index)), (None, ArgString ext)] []
            else format_write (CHR 0x00) ''{}.{}'' [(None, ArgString filename), (None, ArgString ext)] [])"

definition rotating_file_sink ::
  "string \<Rightarrow> string \<Rightarrow> nat \<Rightarrow> nat \<Rightarrow> bool \<Rightarrow> fsys \<Rightarrow> spd_error + rotating_sink \<times> fsys" where
  "rotating_file_sink base ext msize mfiles flush fs =
     (case fh_open (rot_filename base 0 ext) False (file_helper_new flush, fs) of
        (Some e, _) \<Rightarrow> Inl e
      | (None, h, fs') \<Rightarrow>
          sbind (fh_size h fs') (\<lambda>size0.
            Inr (\<lparr>base_filename = base, extension = ext, max_size = msize, max_files = mfiles,
                  current_size = size0, rot_helper = h\<rparr>, fs')))"

text \<open>One round of the loop of \<open>_rotate\<close>, and the loop from \<open>i\<close> down to 1.\<close>

definition rotate_step :: "rotating_sink \<Rightarrow> nat \<Rightarrow> fsys \<Rightarrow> spd_error option \<times> fsys" where
  "rotate_step r i fs =
     (let src = rot_filename (base_filename r) (i - 1) (extension r);
          target = rot_filename (base_filename r) i (extension r);
          (removed, fs1) = (if file_exists target fs then remove_file target fs else (True, fs))
      in if \<not> removed then (Some (SpdlogEx (''rotating_file_sink: failed removing '' @ target)), fs1)
         else
           let (renamed, fs2) = (if file_exists src fs1 then rename_file src target fs1 else (True, fs1))
           in if \<not> renamed
              then (Some (SpdlogEx (''rotating_file_sink: failed renaming '' @ src @ '' to '' @ target)), fs2)
              else (None, fs2))"

fun rotate_loop :: "rotating_sink \<Rightarrow> nat \<Rightarrow> fsys \<Rightarrow> spd_error option \<times> fsys" where
  "rotate_loop r 0 fs = (None, fs)"
| "rotate_loop r (Suc i) fs =
     (case rotate_step r (Suc i) fs of
        (Some e, fs') \<Rightarrow> (Some e, fs')
      | (None, fs') \<Rightarrow> rotate_loop r i fs')"

definition rotate :: "rotating_sink \<times> fsys \<Rightarrow> spd_error option \<times> rotating_sink \<times> fsys" where
  "rotate rf =
     (let (r, fs) = rf; r1 = r\<lparr>rot_helper := fh_close (rot_helper r)\<rparr>
      in case rotate_loop r (max_files r) fs of
           (Some e, fs1) \<Rightarrow> (Some e, r1, fs1)
         | (None, fs1) \<Rightarrow>
             let (e, h, fs2) = fh_reopen True (rot_helper r1, fs1) in (e, r1\<lparr>rot_helper := h\<rparr>, fs2))"

definition rot_write :: "log_msg \<Rightarrow> rotating_sink \<times> fsys \<Rightarrow> spd_error option \<times> rotating_sink \<times> fsys" where
  "rot_write msg rf =
     (let (r, fs) = rf; (e, h, fs') = fh_write msg (rot_helper r, fs) in (e, r\<lparr>rot_helper := h\<rparr>, fs'))"

definition rotating_sink_it :: "log_msg \<Rightarrow> rotating_sink \<times> fsys \<Rightarrow> spd_error option \<times> rotating_sink \<times> fsys" where
  "rotating_sink_it msg rf =
     (let (r, fs) = rf; r1 = r\<lparr>current_size := current_size r + length (formatted msg)\<rparr>
      in if current_size r1 > max_size r1
         then (case rotate (r1, fs) of
                 (Some e, r2, fs2) \<Rightarrow> (Some e, r2, fs2)
               | (None, r2, fs2) \<Rightarrow> rot_write msg (r2\<lparr>current_size := length (formatted msg)\<rparr>, fs2))
         else rot_write msg (r1, fs))"

record daily_sink =
  daily_base :: string
  daily_ext :: string
  rotation_h :: int
  rotation_m :: int
  rotation_tp :: int
  daily_helper :: file_helper

text \<open>\<open>now\<close> is the clock in nanoseconds, the same for all readings within one call, \<open>off\<close> the offset of the
  zone.\<close>

definition next_rotation_tp :: "int \<Rightarrow> int \<Rightarrow> int \<Rightarrow> int \<Rightarrow> int" where
  "next_rotation_tp off h m now =
     (let date = (localtime_r off (to_time_t now))\<lparr>tm_hour := h, tm_min := m, tm_sec := 0\<rparr>;
          rotation_time = fst (mktime off date) * 1000000000
      in if rotation_time > now then rotation_time else rotation_time + 24 * 3600 * 1000000000)"

definition daily_filename :: "int \<Rightarrow> int \<Rightarrow> string \<Rightarrow> string \<Rightarrow> string" where
  "daily_filename off now_t base ext =
     (let t = localtime_r off now_t; n = (\<lambda>v. (None, ArgInt (word_of_int v)))
      in projr (format_write (CHR 0x00) ''{}_{:04d}-{:02d}-{:02d}_{:02d}-{:02d}.{}''
           [(None, ArgString base), n (tm_year t + 1900), n (tm_mon t + 1), n (tm_mday t), n (tm_hour t), n (tm_min t),
            (None, ArgString ext)] []))"

definition daily_file_sink ::
  "int \<Rightarrow> int \<Rightarrow> string \<Rightarrow> string \<Rightarrow> int \<Rightarrow> int \<Rightarrow> bool \<Rightarrow> fsys \<Rightarrow> spd_error + daily_sink \<times> fsys" where
  "daily_file_sink off now base ext h m flush fs =
     (if h < 0 \<or> h > 23 \<or> m < 0 \<or> m > 59
      then Inl (SpdlogEx ''daily_file_sink: Invalid rotation time in ctor'')
      else
        let tp = next_rotation_tp off h m now
        in case fh_open (daily_filename off (to_time_t now) base ext) False (file_helper_new flush, fs) of
             (Some e, _) \<Rightarrow> Inl e
           | (None, fh, fs') \<Rightarrow>
               Inr (\<lparr>daily_base = base, daily_ext = ext, rotation_h = h, rotation_m = m, rotation_tp = tp,
                     daily_helper = fh\<rparr>, fs'))"

definition daily_write :: "log_msg \<Rightarrow> daily_sink \<times> fsys \<Rightarrow> spd_error option \<times> daily_sink \<times> fsys" where
  "daily_write msg df =
     (let (d, fs) = df; (e, h, fs') = fh_write msg (daily_helper d, fs) in (e, d\<lparr>daily_helper := h\<rparr>, fs'))"

definition daily_sink_it ::
  "int \<Rightarrow> int \<Rightarrow> log_msg \<Rightarrow> daily_sink \<times> fsys \<Rightarrow> spd_error option \<times> daily_sink \<times> fsys" where
  "daily_sink_it off now msg df =
     (let (d, fs) = df
      in if now \<ge> rotation_tp d
         then (case fh_open (daily_filename off (to_time_t now) (daily_base d) (daily_ext d)) False (daily_helper d, fs) of
                 (Some e, h, fs') \<Rightarrow> (Some e, d\<lparr>daily_helper := h\<rparr>, fs')
               | (None, h, fs') \<Rightarrow>
                   daily_write msg
                     (d\<lparr>daily_helper := h, rotation_tp := next_rotation_tp off (rotation_h d) (rotation_m d) now\<rparr>, fs'))
         else daily_write msg df)"

section \<open>Opening\<close>

lemma try_open_result:
  "try_open n fname trunc fs =
     (if denied fs fname < n
      then (True, fs\<lparr>denied := (denied fs)(fname := 0),
              files := (files fs)(fname \<mapsto> (if trunc then [] else case files fs fname of None \<Rightarrow> [] | Some c \<Rightarrow> c))\<rparr>)
      else (False, fs\<lparr>denied := (denied fs)(fname := denied fs fname - n)\<rparr>))"
proof (induction n arbitrary: fs)
  case (Suc n)
  show ?case
  proof (cases "denied fs fname")
    case 0
    then have "fs\<lparr>denied := (denied fs)(fname := 0)\<rparr> = fs" by (simp add: fun_upd_idem)
    then show ?thesis using 0 by (simp add: fopen_def)
  next
    case (Suc k)
    define fs1 where "fs1 = fs\<lparr>denied := (denied fs)(fname := k)\<rparr>"
    have f1: "denied fs1 = (denied fs)(fname := k)" "files fs1 = files fs"
      "\<And>d. fs1\<lparr>denied := d\<rparr> = fs\<lparr>denied := d\<rparr>" by (simp_all add: fs1_def)
    have "fopen fname trunc fs = (False, fs1)" using Suc by (simp add: fopen_def fs1_def)
    then show ?thesis using Suc.IH [of fs1]
      by (simp only: try_open.simps prod.case bool.case f1 fun_upd_same fun_upd_upd Suc_less_eq diff_Suc_Suc Suc)
  qed
qed simp

section \<open>The names of the rotated files\<close>

lemma format_write_pieces:
  assumes "\<forall>a \<in> set args. \<not> is_null (snd a)" and "autos ps \<le> length args"
  shows "format_write junk (template ps) args w = Inr (w @ expand ps (map snd args))"
  using format_loop_template [OF assms(1), of 0 junk w "[]" ps] assms(2) by (simp add: format_write_def)

lemma rot_filename_eq:
  assumes "i < 2 ^ 64"
  shows "rot_filename base i ext = base @ (if i = 0 then [] else ''.'' @ nat_digits i) @ ''.'' @ ext"
proof -
  have u: "unat (word_of_nat i :: u64) = i" using assms by (simp add: unat_of_nat)
  have t3: "template [Auto, Lit ''.'', Auto, Lit ''.'', Auto] = ''{}.{}.{}''"
    and t2: "template [Auto, Lit ''.'', Auto] = ''{}.{}''" by (simp_all add: escape_def)
  have "format_write (CHR 0x00) ''{}.{}.{}''
      [(None, ArgString base), (None, ArgULongLong (word_of_nat i)), (None, ArgString ext)] []
      = Inr (base @ ''.'' @ nat_digits i @ ''.'' @ ext)"
    unfolding t3 [symmetric] by (subst format_write_pieces) (simp_all add: is_null_def autos_def arg_text_def u)
  moreover have "format_write (CHR 0x00) ''{}.{}'' [(None, ArgString base), (None, ArgString ext)] []
      = Inr (base @ ''.'' @ ext)"
    unfolding t2 [symmetric] by (subst format_write_pieces) (simp_all add: is_null_def autos_def arg_text_def)
  ultimately show ?thesis by (simp add: rot_filename_def)
qed

lemma nat_digits_inject: "nat_digits a = nat_digits b \<longleftrightarrow> a = b"
  by (metis nat_digits_dval)

lemma rot_filename_inject:
  assumes "i < 2 ^ 64" and "j < 2 ^ 64"
  shows "rot_filename base i ext = rot_filename base j ext \<longleftrightarrow> i = j"
proof -
  have ne: "length (nat_digits n) \<noteq> 0" for n using length_nat_digits_pos [of n] by linarith
  have "''.'' @ nat_digits n @ ''.'' @ ext \<noteq> ''.'' @ ext" for n
  proof
    assume "''.'' @ nat_digits n @ ''.'' @ ext = ''.'' @ ext"
    then have "length (''.'' @ nat_digits n @ ''.'' @ ext) = length (''.'' @ ext)" by simp
    then show False using ne [of n] by simp
  qed
  then show ?thesis
    unfolding rot_filename_eq [OF assms(1)] rot_filename_eq [OF assms(2)]
    by (auto simp: nat_digits_inject split: if_splits dest: sym)
qed

lemma rot_filename_not_Nil: "i < 2 ^ 64 \<Longrightarrow> rot_filename base i ext \<noteq> []"
  by (simp add: rot_filename_eq)

section \<open>Rotation\<close>

abbreviation rname :: "rotating_sink \<Rightarrow> nat \<Rightarrow> string" where
  "rname r i \<equiv> rot_filename (base_filename r) i (extension r)"

lemma rotate_step_eq:
  assumes "0 < i" and "i < 2 ^ 64" and "\<not> stuck fs (rname r i)" and "\<not> stuck fs (rname r (i - 1))"
  shows "rotate_step r i fs =
    (None, fs\<lparr>files := (files fs)(rname r (i - 1) := None, rname r i := files fs (rname r (i - 1)))\<rparr>)"
proof -
  have "rname r (i - 1) \<noteq> rname r i" using assms(1,2) by (subst rot_filename_inject) auto
  then show ?thesis
    using assms(3,4)
    by (cases "files fs (rname r i)"; cases "files fs (rname r (i - 1))")
      (auto simp: rotate_step_def remove_file_def rename_file_def file_exists_def Let_def fun_upd_def fun_eq_iff
        intro!: fsys.equality)
qed

definition same_rest :: "fsys \<Rightarrow> fsys \<Rightarrow> bool" where
  "same_rest fs fs' \<longleftrightarrow> denied fs' = denied fs \<and> stuck fs' = stuck fs \<and> full fs' = full fs"

text \<open>The loop moves every file to the next number; the last one is lost.\<close>

lemma rotate_loop_shift:
  assumes "n < 2 ^ 64" and "\<And>i. i \<le> n \<Longrightarrow> \<not> stuck fs (rname r i)"
  shows "\<exists>fs'. rotate_loop r n fs = (None, fs') \<and> same_rest fs fs'
    \<and> (\<forall>i. i < n \<longrightarrow> files fs' (rname r (Suc i)) = files fs (rname r i))
    \<and> (0 < n \<longrightarrow> files fs' (rname r 0) = None)
    \<and> (\<forall>f. (\<forall>i \<le> n. f \<noteq> rname r i) \<longrightarrow> files fs' f = files fs f)"
  using assms
proof (induction n arbitrary: fs)
  case 0
  then show ?case by (simp add: same_rest_def)
next
  case (Suc n)
  define fs1 where "fs1 = fs\<lparr>files := (files fs)(rname r n := None, rname r (Suc n) := files fs (rname r n))\<rparr>"
  have step: "rotate_step r (Suc n) fs = (None, fs1)"
    unfolding fs1_def using Suc.prems by (subst rotate_step_eq) simp_all
  have inj: "rname r a = rname r b \<longleftrightarrow> a = b" if "a \<le> Suc n" "b \<le> Suc n" for a b
    using that Suc.prems(1) by (intro rot_filename_inject) simp_all
  have f1: "files fs1 (rname r n) = None" "files fs1 (rname r (Suc n)) = files fs (rname r n)"
    "\<And>i. i < n \<Longrightarrow> files fs1 (rname r i) = files fs (rname r i)"
    "\<And>f. f \<noteq> rname r n \<Longrightarrow> f \<noteq> rname r (Suc n) \<Longrightarrow> files fs1 f = files fs f"
    using inj by (simp_all add: fs1_def)
  have "\<And>i. i \<le> n \<Longrightarrow> \<not> stuck fs1 (rname r i)" using Suc.prems(2) by (simp add: fs1_def)
  then obtain fs' where ih: "rotate_loop r n fs1 = (None, fs')" "same_rest fs1 fs'"
    "\<And>i. i < n \<Longrightarrow> files fs' (rname r (Suc i)) = files fs1 (rname r i)"
    "0 < n \<Longrightarrow> files fs' (rname r 0) = None"
    "\<And>f. (\<forall>i \<le> n. f \<noteq> rname r i) \<Longrightarrow> files fs' f = files fs1 f"
    using Suc.IH [of fs1] Suc.prems(1) by auto
  have "files fs' (rname r (Suc i)) = files fs (rname r i)" if "i < Suc n" for i
  proof (cases "i = n")
    case True
    have "files fs' (rname r (Suc n)) = files fs1 (rname r (Suc n))" using inj by (intro ih(5)) simp
    then show ?thesis using True f1(2) by simp
  next
    case False
    then show ?thesis using ih(3) [of i] f1(3) [of i] that by simp
  qed
  moreover have "files fs' (rname r 0) = None"
  proof (cases n)
    case 0
    then have e: "rotate_loop r n fs1 = (None, fs1)" by simp
    then show ?thesis using ih(1) f1(1) 0 by simp
  qed (use ih(4) in simp)
  moreover have "files fs' f = files fs f" if "\<forall>i \<le> Suc n. f \<noteq> rname r i" for f
    using that ih(5) [of f] f1(4) [of f] by simp
  moreover have "same_rest fs fs'" using ih(2) by (simp add: same_rest_def fs1_def)
  ultimately show ?case using step ih(1) by simp
qed

text \<open>A sink in order: its file is open under the name of number 0, and \<open>current_size\<close> is its size.\<close>

definition rot_ok :: "rotating_sink \<times> fsys \<Rightarrow> bool" where
  "rot_ok rf \<longleftrightarrow> (case rf of (r, fs) \<Rightarrow>
     fd (rot_helper r) = Some (rname r 0) \<and> fh_filename (rot_helper r) = rname r 0 \<and> max_files r < 2 ^ 64
     \<and> (\<exists>c. files fs (rname r 0) = Some c \<and> current_size r = length c))"

text \<open>Nothing fails: no file of the sink is stuck, the first can be opened within five attempts, and there is
  room.\<close>

definition no_failure :: "rotating_sink \<times> fsys \<Rightarrow> bool" where
  "no_failure rf \<longleftrightarrow> (case rf of (r, fs) \<Rightarrow>
     (\<forall>i \<le> max_files r. \<not> stuck fs (rname r i)) \<and> denied fs (rname r 0) < open_tries \<and> \<not> full fs)"

definition content :: "rotating_sink \<times> fsys \<Rightarrow> nat \<Rightarrow> string" where
  "content rf i = (case rf of (r, fs) \<Rightarrow> case files fs (rname r i) of None \<Rightarrow> [] | Some c \<Rightarrow> c)"

definition same_names :: "rotating_sink \<Rightarrow> rotating_sink \<Rightarrow> bool" where
  "same_names r r' \<longleftrightarrow> base_filename r' = base_filename r \<and> extension r' = extension r \<and> max_files r' = max_files r
     \<and> max_size r' = max_size r"

lemma rot_write_ok:
  assumes "fd (rot_helper r) = Some (rname r 0)" and "\<not> full fs"
  shows "rot_write msg (r, fs) = (None, r, fs\<lparr>files := (files fs)(rname r 0 \<mapsto> content (r, fs) 0 @ formatted msg)\<rparr>)"
  using assms by (simp add: rot_write_def fh_write_def fwrite_def content_def)

lemma rotate_ok:
  assumes ok: "fd (rot_helper r) = Some (rname r 0)" "fh_filename (rot_helper r) = rname r 0" "max_files r < 2 ^ 64"
    and nof: "no_failure (r, fs)"
  shows "\<exists>fs'. rotate (r, fs) = (None, r, fs') \<and> files fs' (rname r 0) = Some []
    \<and> (\<forall>i < max_files r. files fs' (rname r (Suc i)) = files fs (rname r i))
    \<and> (\<forall>f. (\<forall>i \<le> max_files r. f \<noteq> rname r i) \<longrightarrow> files fs' f = files fs f)
    \<and> stuck fs' = stuck fs \<and> full fs' = full fs \<and> denied fs' (rname r 0) = 0"
proof -
  have nf: "\<And>i. i \<le> max_files r \<Longrightarrow> \<not> stuck fs (rname r i)" "denied fs (rname r 0) < open_tries"
    using nof by (auto simp: no_failure_def)
  obtain fs1 where fs1: "rotate_loop r (max_files r) fs = (None, fs1)" "same_rest fs fs1"
    "\<And>i. i < max_files r \<Longrightarrow> files fs1 (rname r (Suc i)) = files fs (rname r i)"
    "\<And>f. (\<forall>i \<le> max_files r. f \<noteq> rname r i) \<Longrightarrow> files fs1 f = files fs f"
    using rotate_loop_shift [OF ok(3) nf(1)] by blast
  have ne: "rname r 0 \<noteq> []" by (rule rot_filename_not_Nil) simp
  have inj: "rname r (Suc i) \<noteq> rname r 0" if "i < max_files r" for i
    using that ok(3) by (subst rot_filename_inject) simp_all
  define fs2 where "fs2 = fs1\<lparr>denied := (denied fs1)(rname r 0 := 0), files := (files fs1)(rname r 0 \<mapsto> [])\<rparr>"
  have "denied fs1 (rname r 0) < open_tries" using fs1(2) nf(2) by (simp add: same_rest_def)
  then have "try_open open_tries (rname r 0) True fs1 = (True, fs2)"
    unfolding try_open_result fs2_def by simp
  moreover have "r\<lparr>rot_helper := (rot_helper r)\<lparr>fd := Some (rname r 0), fh_filename := rname r 0\<rparr>\<rparr> = r"
    using ok by simp
  ultimately have "rotate (r, fs) = (None, r, fs2)"
    using fs1(1) ok ne by (simp add: rotate_def fh_reopen_def fh_open_def fh_close_def Let_def)
  moreover have "files fs2 (rname r (Suc i)) = files fs (rname r i)" if "i < max_files r" for i
    using fs1(3) [OF that] inj [OF that] by (simp add: fs2_def)
  moreover have "files fs2 f = files fs f" if "\<forall>i \<le> max_files r. f \<noteq> rname r i" for f
    using fs1(4) [OF that] that by (simp add: fs2_def)
  ultimately show ?thesis using fs1(2) by (simp add: fs2_def same_rest_def)
qed

text \<open>One message: it goes to the end of the current file, or, when that would exceed the limit, every file
  moves on by one number and the message starts a new file.\<close>

lemma rotating_sink_it_step:
  fixes msg
  assumes "rot_ok (r, fs)" and "no_failure (r, fs)"
  defines "m \<equiv> formatted msg"
  shows "\<exists>r' fs'. rotating_sink_it msg (r, fs) = (None, r', fs') \<and> rot_ok (r', fs') \<and> no_failure (r', fs') \<and> same_names r r'
    \<and> (if length (content (r, fs) 0) + length m \<le> max_size r
       then content (r', fs') 0 = content (r, fs) 0 @ m
         \<and> (\<forall>i < max_files r. content (r', fs') (Suc i) = content (r, fs) (Suc i))
       else content (r', fs') 0 = m \<and> (\<forall>i < max_files r. content (r', fs') (Suc i) = content (r, fs) i))"
proof -
  let ?n = "length (content (r, fs) 0) + length m"
  let ?r1 = "r\<lparr>current_size := ?n\<rparr>"
  have ok: "fd (rot_helper r) = Some (rname r 0)" "fh_filename (rot_helper r) = rname r 0" "max_files r < 2 ^ 64"
    and c: "current_size r = length (content (r, fs) 0)"
    using assms(1) by (auto simp: rot_ok_def content_def)
  have inj: "rname r (Suc i) \<noteq> rname r 0" if "i < max_files r" for i
    using that ok(3) by (subst rot_filename_inject) simp_all
  show ?thesis
  proof (cases "?n \<le> max_size r")
    case True
    let ?fs' = "fs\<lparr>files := (files fs)(rname r 0 \<mapsto> content (r, fs) 0 @ m)\<rparr>"
    have "\<not> full fs" using assms(2) by (simp add: no_failure_def)
    then have "rotating_sink_it msg (r, fs) = (None, ?r1, ?fs')"
      using True rot_write_ok [of ?r1 fs msg] ok(1) c
      by (simp add: rotating_sink_it_def Let_def m_def content_def)
    moreover have "rot_ok (?r1, ?fs')" "no_failure (?r1, ?fs')" "same_names r ?r1"
      using ok assms(2) by (simp_all add: rot_ok_def no_failure_def same_names_def)
    moreover have "content (?r1, ?fs') 0 = content (r, fs) 0 @ m" by (simp add: content_def)
    moreover have "\<forall>i < max_files r. content (?r1, ?fs') (Suc i) = content (r, fs) (Suc i)"
      using inj by (simp add: content_def)
    ultimately show ?thesis using True by auto
  next
    case False
    let ?r2 = "r\<lparr>current_size := length m\<rparr>"
    obtain fs1 where fs1: "rotate (?r1, fs) = (None, ?r1, fs1)" "files fs1 (rname r 0) = Some []"
      "\<And>i. i < max_files r \<Longrightarrow> files fs1 (rname r (Suc i)) = files fs (rname r i)"
      "stuck fs1 = stuck fs" "full fs1 = full fs" "denied fs1 (rname r 0) = 0"
      using rotate_ok [of ?r1 fs] ok assms(2) by (auto simp: no_failure_def)
    let ?fs' = "fs1\<lparr>files := (files fs1)(rname r 0 \<mapsto> m)\<rparr>"
    have "\<not> full fs1" using assms(2) fs1(5) by (simp add: no_failure_def)
    then have "rot_write msg (?r2, fs1) = (None, ?r2, ?fs')"
      using rot_write_ok [of ?r2 fs1 msg] ok(1) fs1(2) by (simp add: content_def m_def)
    then have "rotating_sink_it msg (r, fs) = (None, ?r2, ?fs')"
      using False fs1(1) c by (simp add: rotating_sink_it_def Let_def m_def)
    moreover have "rot_ok (?r2, ?fs')" "no_failure (?r2, ?fs')" "same_names r ?r2"
      using ok assms(2) fs1(4-6) by (simp_all add: rot_ok_def no_failure_def same_names_def open_tries_def)
    moreover have "content (?r2, ?fs') 0 = m" by (simp add: content_def)
    moreover have "\<forall>i < max_files r. content (?r2, ?fs') (Suc i) = content (r, fs) i"
      using inj fs1(3) by (simp add: content_def)
    ultimately show ?thesis using False by auto
  qed
qed

text \<open>A run of the sink, and what its files hold, from the oldest to the newest.\<close>

fun rotating_run :: "log_msg list \<Rightarrow> rotating_sink \<times> fsys \<Rightarrow> spd_error option \<times> rotating_sink \<times> fsys" where
  "rotating_run [] rf = (None, rf)"
| "rotating_run (m # ms) rf =
     (case rotating_sink_it m rf of
        (Some e, rf') \<Rightarrow> (Some e, rf')
      | (None, rf') \<Rightarrow> rotating_run ms rf')"

definition kept :: "rotating_sink \<times> fsys \<Rightarrow> string" where
  "kept rf = concat (map (content rf) (rev [0..<Suc (max_files (fst rf))]))"

lemma kept_first: "kept rf = concat (map (\<lambda>i. content rf (Suc i)) (rev [0..<max_files (fst rf)])) @ content rf 0"
proof -
  have "[0..<Suc (max_files (fst rf))] = 0 # map Suc [0..<max_files (fst rf)]"
    by (simp add: upt_conv_Cons map_Suc_upt del: upt_Suc)
  then show ?thesis unfolding kept_def by (simp add: rev_map comp_def del: upt_Suc)
qed

lemma kept_last: "kept rf = content rf (max_files (fst rf)) @ concat (map (content rf) (rev [0..<max_files (fst rf)]))"
  by (simp add: kept_def)

lemma rotating_step_kept:
  assumes "rot_ok rf" and "no_failure rf"
  shows "\<exists>rf' k. rotating_sink_it msg rf = (None, rf') \<and> rot_ok rf' \<and> no_failure rf' \<and> same_names (fst rf) (fst rf')
    \<and> k \<le> length (kept rf) \<and> kept rf' = drop k (kept rf) @ formatted msg
    \<and> (length (content rf' 0) \<le> max_size (fst rf) \<or> content rf' 0 = formatted msg)"
proof -
  obtain r fs where rf: "rf = (r, fs)" by fastforce
  obtain r' fs' where s: "rotating_sink_it msg rf = (None, r', fs')" "rot_ok (r', fs')" "no_failure (r', fs')"
    "same_names r r'"
    "if length (content rf 0) + length (formatted msg) \<le> max_size r
       then content (r', fs') 0 = content rf 0 @ formatted msg
         \<and> (\<forall>i < max_files r. content (r', fs') (Suc i) = content rf (Suc i))
       else content (r', fs') 0 = formatted msg \<and> (\<forall>i < max_files r. content (r', fs') (Suc i) = content rf i)"
    using rotating_sink_it_step [of r fs msg] assms rf by blast
  have mf: "max_files r' = max_files r" using s(4) by (simp add: same_names_def)
  show ?thesis
  proof (cases "length (content rf 0) + length (formatted msg) \<le> max_size r")
    case True
    then have e: "content (r', fs') 0 = content rf 0 @ formatted msg"
      "\<And>i. i < max_files r \<Longrightarrow> content (r', fs') (Suc i) = content rf (Suc i)" using s(5) by simp_all
    have "map (\<lambda>i. content (r', fs') (Suc i)) (rev [0..<max_files r]) = map (\<lambda>i. content rf (Suc i)) (rev [0..<max_files r])"
      using e(2) by (intro map_cong) simp_all
    then have "kept (r', fs') = kept rf @ formatted msg"
      unfolding kept_first fst_conv mf e(1) by (simp only: rf fst_conv append_assoc)
    then have "kept (r', fs') = drop 0 (kept rf) @ formatted msg" by simp
    then show ?thesis using s(1-4) rf True e(1)
      by (intro exI [of _ "(r', fs')"] exI [of _ 0]) simp
  next
    case False
    then have e: "content (r', fs') 0 = formatted msg"
      "\<And>i. i < max_files r \<Longrightarrow> content (r', fs') (Suc i) = content rf i" using s(5) by simp_all
    have "map (\<lambda>i. content (r', fs') (Suc i)) (rev [0..<max_files r]) = map (content rf) (rev [0..<max_files r])"
      using e(2) by (intro map_cong) simp_all
    then have "kept (r', fs') = concat (map (content rf) (rev [0..<max_files r])) @ formatted msg"
      unfolding kept_first [of "(r', fs')"] fst_conv mf e(1) by (simp only:)
    moreover have "drop (length (content rf (max_files r))) (kept rf) = concat (map (content rf) (rev [0..<max_files r]))"
      unfolding kept_last using rf by simp
    ultimately have "kept (r', fs') = drop (length (content rf (max_files r))) (kept rf) @ formatted msg" by simp
    then show ?thesis using s(1-4) rf e(1)
      by (intro exI [of _ "(r', fs')"] exI [of _ "length (content rf (max_files r))"]) (simp add: kept_last)
  qed
qed

lemma rotating_run_kept:
  assumes "rot_ok rf" and "no_failure rf" and "length (content rf 0) \<le> max_size (fst rf)"
  shows "\<exists>rf' k. rotating_run msgs rf = (None, rf') \<and> rot_ok rf' \<and> k \<le> length (kept rf @ concat (map formatted msgs))
    \<and> kept rf' = drop k (kept rf @ concat (map formatted msgs))
    \<and> (length (content rf' 0) \<le> max_size (fst rf) \<or> content rf' 0 \<in> formatted ` set msgs)"
proof -
  have "\<exists>rf' k. rotating_run msgs rf = (None, rf') \<and> rot_ok rf' \<and> k \<le> length (x @ kept rf @ concat (map formatted msgs))
    \<and> kept rf' = drop k (x @ kept rf @ concat (map formatted msgs))
    \<and> (length (content rf' 0) \<le> max_size (fst rf) \<or> content rf' 0 \<in> formatted ` (set msgs \<union> M))"
    if "rot_ok rf" "no_failure rf" "length (content rf 0) \<le> max_size (fst rf) \<or> content rf 0 \<in> formatted ` M" for x M
    using that
  proof (induction msgs arbitrary: rf x M)
    case Nil
    then show ?case by (intro exI [of _ rf] exI [of _ "length x"]) auto
  next
    case (Cons m ms)
    obtain rf1 k where s: "rotating_sink_it m rf = (None, rf1)" "rot_ok rf1" "no_failure rf1"
      "same_names (fst rf) (fst rf1)" "k \<le> length (kept rf)" "kept rf1 = drop k (kept rf) @ formatted m"
      "length (content rf1 0) \<le> max_size (fst rf) \<or> content rf1 0 = formatted m"
      using rotating_step_kept [OF Cons.prems(1,2), of m] by blast
    have ms: "max_size (fst rf1) = max_size (fst rf)" using s(4) by (simp add: same_names_def)
    let ?x = "x @ take k (kept rf)"
    have "length (content rf1 0) \<le> max_size (fst rf1) \<or> content rf1 0 \<in> formatted ` (insert m M)"
      using s(7) ms by auto
    moreover have eq: "?x @ kept rf1 @ concat (map formatted ms) = x @ kept rf @ concat (map formatted (m # ms))"
      unfolding s(6) by (simp flip: append_assoc [of "take k (kept rf)"])
    ultimately obtain rf' k' where
      "rotating_run ms rf1 = (None, rf')" "rot_ok rf'" "k' \<le> length (x @ kept rf @ concat (map formatted (m # ms)))"
      "kept rf' = drop k' (x @ kept rf @ concat (map formatted (m # ms)))"
      "length (content rf' 0) \<le> max_size (fst rf1) \<or> content rf' 0 \<in> formatted ` (set ms \<union> insert m M)"
      using Cons.IH [OF s(2,3), where x = ?x and M = "insert m M", unfolded eq] by blast
    then show ?case using s(1) ms by (intro exI [of _ rf'] exI [of _ k']) auto
  qed
  from this [of "{}" "[]"] assms show ?thesis by simp
qed

lemma rotating_file_sink_ok:
  assumes "rotating_file_sink base ext msize mfiles flush fs = Inr rf" and "mfiles < 2 ^ 64"
  shows "rot_ok rf" and "max_size (fst rf) = msize" and "max_files (fst rf) = mfiles"
  using assms
  by (auto simp: rotating_file_sink_def fh_open_def file_helper_new_def fh_close_def fh_size_def rot_ok_def try_open_result
      Let_def sbind_Inr_iff split: prod.splits option.splits bool.splits if_splits)

text \<open>The newest \<open>j + 1\<close> files hold at least the newest \<open>j + 1\<close> messages, for a message moves on by at most one
  file with each later message.\<close>

definition newest :: "rotating_sink \<times> fsys \<Rightarrow> nat \<Rightarrow> string" where
  "newest rf j = concat (map (content rf) (rev [0..<Suc j]))"

definition last_texts :: "nat \<Rightarrow> log_msg list \<Rightarrow> string" where
  "last_texts n ms = concat (map formatted (drop (length ms - n) ms))"

definition keeps_recent :: "log_msg list \<Rightarrow> rotating_sink \<times> fsys \<Rightarrow> bool" where
  "keeps_recent ms rf \<longleftrightarrow> (\<forall>j \<le> max_files (fst rf). \<exists>old. newest rf j = old @ last_texts (Suc j) ms)"

lemma last_texts_snoc: "last_texts (Suc n) (ms @ [m]) = last_texts n ms @ formatted m"
  by (simp add: last_texts_def)

lemma newest_first: "newest rf j = concat (map (\<lambda>i. content rf (Suc i)) (rev [0..<j])) @ content rf 0"
proof -
  have "[0..<Suc j] = 0 # map Suc [0..<j]" by (simp add: upt_conv_Cons map_Suc_upt del: upt_Suc)
  then show ?thesis unfolding newest_def by (simp add: rev_map comp_def del: upt_Suc)
qed

lemma newest_shift:
  assumes "\<And>i. i < j \<Longrightarrow> content rf' (Suc i) = content rf (Suc i)" and "content rf' 0 = content rf 0 @ t"
  shows "newest rf' j = newest rf j @ t"
proof -
  have "map (\<lambda>i. content rf' (Suc i)) (rev [0..<j]) = map (\<lambda>i. content rf (Suc i)) (rev [0..<j])"
    using assms(1) by (intro map_cong) simp_all
  then show ?thesis by (simp only: newest_first assms(2) append_assoc)
qed

lemma newest_rotate:
  assumes "\<And>i. i < j \<Longrightarrow> content rf' (Suc i) = content rf i" and "content rf' 0 = t"
  shows "newest rf' j = concat (map (content rf) (rev [0..<j])) @ t"
proof -
  have "map (\<lambda>i. content rf' (Suc i)) (rev [0..<j]) = map (content rf) (rev [0..<j])"
    using assms(1) by (intro map_cong) simp_all
  then show ?thesis by (simp only: newest_first assms(2))
qed

lemma keeps_recent_below:
  assumes "keeps_recent ms rf" and "j \<le> max_files (fst rf)"
  shows "\<exists>old. concat (map (content rf) (rev [0..<j])) = old @ last_texts j ms"
proof (cases j)
  case 0
  then show ?thesis by (simp add: last_texts_def)
next
  case (Suc i)
  then have "\<exists>old. newest rf i = old @ last_texts (Suc i) ms" using assms by (simp add: keeps_recent_def)
  then show ?thesis using Suc by (simp add: newest_def)
qed

lemma keeps_recent_step:
  assumes "rot_ok rf" and "no_failure rf" and "keeps_recent ms rf" and "rotating_sink_it m rf = (None, rf')"
  shows "keeps_recent (ms @ [m]) rf'"
proof -
  obtain r fs where rf: "rf = (r, fs)" by fastforce
  have s: "same_names r (fst rf')"
    "if length (content rf 0) + length (formatted m) \<le> max_size r
       then content rf' 0 = content rf 0 @ formatted m \<and> (\<forall>i < max_files r. content rf' (Suc i) = content rf (Suc i))
       else content rf' 0 = formatted m \<and> (\<forall>i < max_files r. content rf' (Suc i) = content rf i)"
    using rotating_sink_it_step [of r fs m] assms(1,2,4) rf by auto
  have "\<exists>old. newest rf' j = old @ last_texts j ms @ formatted m" if j: "j \<le> max_files r" for j
  proof -
    obtain old where old: "concat (map (content rf) (rev [0..<j])) = old @ last_texts j ms"
      using keeps_recent_below [OF assms(3)] j rf by auto
    show ?thesis
    proof (cases "length (content rf 0) + length (formatted m) \<le> max_size r")
      case True
      have "newest rf' j = newest rf j @ formatted m" using True s(2) j by (intro newest_shift) simp_all
      moreover have "newest rf j = content rf j @ old @ last_texts j ms" using old by (simp add: newest_def)
      ultimately show ?thesis by simp
    next
      case False
      have "newest rf' j = concat (map (content rf) (rev [0..<j])) @ formatted m"
        using False s(2) j by (intro newest_rotate) simp_all
      then show ?thesis using old by simp
    qed
  qed
  then show ?thesis using s(1) by (simp add: keeps_recent_def last_texts_snoc same_names_def)
qed

lemma keeps_recent_run:
  assumes "rot_ok rf" and "no_failure rf" and "keeps_recent ms0 rf" and "rotating_run ms rf = (None, rf')"
  shows "keeps_recent (ms0 @ ms) rf'"
  using assms
proof (induction ms arbitrary: rf ms0)
  case (Cons m ms)
  obtain rf1 where s: "rotating_sink_it m rf = (None, rf1)" "rot_ok rf1" "no_failure rf1"
    using rotating_step_kept [OF Cons.prems(1,2), of m] by blast
  show ?case
    using Cons.IH [OF s(2,3) keeps_recent_step [OF Cons.prems(1-3) s(1)]] Cons.prems(4) s(1) by simp
qed simp

lemma same_limits:
  assumes "rot_ok rf" and "no_failure rf" and "rotating_run ms rf = (None, rf')"
  shows "max_files (fst rf') = max_files (fst rf)"
  using assms
proof (induction ms arbitrary: rf)
  case (Cons m ms)
  obtain rf1 where s: "rotating_sink_it m rf = (None, rf1)" "rot_ok rf1" "no_failure rf1" "same_names (fst rf) (fst rf1)"
    using rotating_step_kept [OF Cons.prems(1,2), of m] by blast
  then show ?case using Cons.IH [OF s(2,3)] Cons.prems(3) by (simp add: same_names_def)
qed simp

text \<open>C7: As long as no operation on its files fails, a rotating file sink loses only old text: after any
  messages, its files read from the highest number down to the current one hold a suffix of what they
  held at first followed by all messages in order - nothing in the middle is lost, repeated or
  reordered. The last \<open>max_files + 1\<close> messages are always there in full, and the current file is within the size
  limit unless it holds a single message.\<close>

theorem rotating_sink_keeps_latest:
  assumes "rotating_file_sink base ext msize mfiles flush fs = Inr rf" and "mfiles < 2 ^ 64" and "no_failure rf"
    and "length (content rf 0) \<le> msize"
  shows "\<exists>rf' k old. rotating_run msgs rf = (None, rf')
    \<and> kept rf' = drop k (kept rf @ concat (map formatted msgs))
    \<and> kept rf' = old @ concat (map formatted (drop (length msgs - Suc mfiles) msgs))
    \<and> (length (content rf' 0) \<le> msize \<or> content rf' 0 \<in> formatted ` set msgs)"
proof -
  note ok = rotating_file_sink_ok [OF assms(1,2)]
  obtain rf' k where rf': "rotating_run msgs rf = (None, rf')" "kept rf' = drop k (kept rf @ concat (map formatted msgs))"
    "length (content rf' 0) \<le> msize \<or> content rf' 0 \<in> formatted ` set msgs"
    using rotating_run_kept [OF ok(1) assms(3), of msgs] assms(4) ok(2) by auto
  have "keeps_recent [] rf" by (simp add: keeps_recent_def last_texts_def)
  then have "keeps_recent msgs rf'" using keeps_recent_run [OF ok(1) assms(3) _ rf'(1)] by fastforce
  then obtain old where "kept rf' = old @ last_texts (Suc mfiles) msgs"
    using same_limits [OF ok(1) assms(3) rf'(1)] ok(3) by (auto simp: keeps_recent_def newest_def kept_def)
  then show ?thesis using rf' unfolding last_texts_def by (intro exI conjI)
qed

definition empty_fs :: fsys where
  "empty_fs = \<lparr>files = (\<lambda>_. None), denied = (\<lambda>_. 0), stuck = (\<lambda>_. False), full = False\<rparr>"

definition first_sink :: "rotating_sink \<times> fsys" where
  "first_sink = projr (rotating_file_sink ''log'' ''txt'' 10 2 False empty_fs)"

definition line :: "string \<Rightarrow> log_msg" where
  "line s = \<lparr>logger_name = [], msg_level = L_info, time = 0, thread_id = 0, raw = [], formatted = s\<rparr>"

lemma first_sink_ok:
  "rotating_file_sink ''log'' ''txt'' 10 2 False empty_fs = Inr first_sink" "no_failure first_sink"
  "content first_sink 0 = []"
  by (simp_all add: first_sink_def rotating_file_sink_def fh_open_def file_helper_new_def fh_close_def fh_size_def
      try_open_result empty_fs_def open_tries_def no_failure_def content_def Let_def)

theorem rotating_sink_keeps_latest_witness:
  "\<exists>rf' old. rotating_run [line ''first 1'', line ''second 2'', line ''third 3''] first_sink = (None, rf')
    \<and> kept rf' = old @ ''first 1second 2third 3''"
  using rotating_sink_keeps_latest [OF first_sink_ok(1) _ first_sink_ok(2), of "[line ''first 1'', line ''second 2'', line ''third 3'']"]
    first_sink_ok(3) by (auto simp: line_def)

section \<open>Opening with retries\<close>

text \<open>Opening a file is retried: it succeeds exactly when fewer than five attempts fail, then the helper writes to
  that file, whose contents are kept or cut off as asked; otherwise \<open>spdlog_ex\<close> is thrown, no file is changed and
  the helper is left closed.\<close>

theorem fh_open_retries:
  "fh_open fname trunc (h, fs) =
     (if denied fs fname < 5
      then (None, h\<lparr>fd := Some fname, fh_filename := fname\<rparr>,
            fs\<lparr>denied := (denied fs)(fname := 0),
               files := (files fs)(fname \<mapsto> (if trunc then [] else case files fs fname of None \<Rightarrow> [] | Some c \<Rightarrow> c))\<rparr>)
      else (Some (SpdlogEx (''Failed opening file '' @ fname @ '' for writing'')), h\<lparr>fd := None, fh_filename := fname\<rparr>,
            fs\<lparr>denied := (denied fs)(fname := denied fs fname - 5)\<rparr>))"
  by (simp add: fh_open_def fh_close_def try_open_result open_tries_def Let_def)

section \<open>The daily rotation\<close>

lemma to_time_t_bounds:
  assumes "0 \<le> now"
  shows "to_time_t now * 1000000000 \<le> now" and "now < to_time_t now * 1000000000 + 1000000000"
proof -
  have "now div 1000000000 * 1000000000 + now mod 1000000000 = now" by (rule div_mult_mod_eq)
  moreover have "0 \<le> now mod 1000000000" "now mod 1000000000 < 1000000000" by simp_all
  ultimately show "to_time_t now * 1000000000 \<le> now" "now < to_time_t now * 1000000000 + 1000000000"
    using assms by (simp_all add: to_time_t_def c_div_nonneg)
qed

lemma hms_unique:
  fixes H M S h m :: int
  assumes "H * 3600 + M * 60 + S = h * 3600 + m * 60" and "0 \<le> M" "M < 60" "0 \<le> S" "S < 60" "0 \<le> m" "m < 60"
  shows "H = h \<and> M = m \<and> S = 0"
proof -
  have "(H * 60 + M) * 60 + S = (h * 60 + m) * 60 + 0" using assms(1) by simp
  then have "((H * 60 + M) * 60 + S) div 60 = (h * 60 + m) * 60 div 60" by simp
  moreover have "((H * 60 + M) * 60 + S) div 60 = H * 60 + M" using assms(4,5) by simp
  ultimately have e: "H * 60 + M = h * 60 + m" by simp
  then have "(H * 60 + M) div 60 = (h * 60 + m) div 60" by simp
  then have "H = h" using assms by simp
  then show ?thesis using e assms(1) by simp
qed

text \<open>The next rotation of a daily file is the first moment after the current one at which the local clock shows
  the rotation time: it lies in the future by at most one day, and is a whole minute of that hour and
  minute in local time.\<close>

theorem next_rotation_in_a_day:
  fixes now h m off :: int
  assumes "0 \<le> now" and "0 \<le> h" and "h < 24" and "0 \<le> m" and "m < 60"
  defines "tp \<equiv> next_rotation_tp off h m now"
  shows "now < tp \<and> tp \<le> now + 24 * 3600 * 1000000000
    \<and> (\<exists>s. tp = s * 1000000000 \<and> tm_hour (localtime_r off s) = h \<and> tm_min (localtime_r off s) = m
        \<and> tm_sec (localtime_r off s) = 0)"
proof -
  define t where "t = localtime_r off (to_time_t now)"
  define d where "d = t\<lparr>tm_hour := h, tm_min := m, tm_sec := 0\<rparr>"
  define s where "s = tm_stamp off d"
  have t: "tm_ok t" "tm_stamp off t = to_time_t now" unfolding t_def using stamp_of_localtime by blast+
  have day: "tm_day d = tm_day t" by (simp add: d_def tm_day_def)
  have d: "tm_ok d" using t(1) assms(2-5) day unfolding tm_ok_def by (simp add: d_def)
  have sd: "s = to_time_t now - (tm_hour t * 3600 + tm_min t * 60 + tm_sec t) + h * 3600 + m * 60"
    using t(2) day by (simp add: s_def tm_stamp_def d_def)
  note r = tm_ranges [OF t(1)]
  have b: "to_time_t now - 86400 < s" "s < to_time_t now + 86400" using sd r assms(2-5) by linarith+
  have tp: "tp = (if s * 1000000000 > now then s * 1000000000 else (s + 86400) * 1000000000)"
    unfolding tp_def next_rotation_tp_def Let_def mktime_def t_def [symmetric] d_def [symmetric] s_def [symmetric]
    by (simp add: s_def [symmetric])
  note nw = to_time_t_bounds [OF assms(1)]
  have l1: "localtime_r off s = d" unfolding s_def by (rule localtime_of_stamp [OF d])
  let ?u = "localtime_r off (s + 86400)"
  have u: "tm_ok ?u" "tm_stamp off ?u = s + 86400" using stamp_of_localtime by blast+
  define D where "D = tm_day t + 1 - tm_day ?u"
  have e: "tm_hour ?u * 3600 + tm_min ?u * 60 + tm_sec ?u = h * 3600 + m * 60 + 86400 * D"
    using u(2) day by (simp add: s_def tm_stamp_def d_def D_def)
  note ru = tm_ranges [OF u(1)]
  have "86400 * D < 86400 * 1" "86400 * (- 1) < 86400 * D" using e ru assms(2-5) by linarith+
  then have "D < 1" "- 1 < D" by simp_all
  then have "D = 0" by simp
  then have eq: "tm_hour ?u * 3600 + tm_min ?u * 60 + tm_sec ?u = h * 3600 + m * 60" using e by simp
  then have h2: "tm_hour ?u = h" and m2: "tm_min ?u = m" and s2: "tm_sec ?u = 0"
    using hms_unique [OF eq] ru assms(4,5) by simp_all
  show ?thesis
  proof (cases "s * 1000000000 > now")
    case True
    then show ?thesis using tp b nw l1 by (auto simp: d_def)
  next
    case False
    then have e: "tp = (s + 86400) * 1000000000" using tp by simp
    have "now < tp \<and> tp \<le> now + 24 * 3600 * 1000000000" using e False b nw by simp
    then show ?thesis using e h2 m2 s2 by blast
  qed
qed

theorem next_rotation_in_a_day_witness:
  "1447416000123456789 < next_rotation_tp 3600 2 30 1447416000123456789
   \<and> next_rotation_tp 3600 2 30 1447416000123456789 \<le> 1447416000123456789 + 24 * 3600 * 1000000000"
  using next_rotation_in_a_day [of 1447416000123456789 2 30 3600] by simp

end
