(* ===== verification/SpdLogger.thy ===== *)
theory SpdLogger
  imports SpdFile
begin

text \<open>
  The logger of spdlog: \<open>details/logger_impl.h\<close>, \<open>details/line_logger.h\<close> and the interface of sinks,
  \<open>sinks/sink.h\<close>, \<open>base_sink.h\<close>, \<open>null_sink.h\<close>, \<open>ostream_sink.h\<close>.

  A sink is a pair of virtual functions on the state \<open>'w\<close> of everything outside the logger; the locks are
  not modelled, a call is atomic. A log call is one C++ statement such as \<open>logger.info(fmt, args)\<close>: it
  creates a \<open>line_logger\<close>, writes to it and destroys it, and the destructor logs the line. A destructor
  is \<open>noexcept\<close> in C++11, so an exception that leaves it ends the program (\<open>Terminates\<close>). The clock and the
  thread id, the time zone and the contents of fresh memory are the environment \<open>env\<close> of a call.
\<close>

record 'w sink =
  sk_log :: "log_msg \<Rightarrow> 'w \<Rightarrow> spd_error option \<times> 'w"
  sk_flush :: "'w \<Rightarrow> 'w"

record 'w logger =
  lg_name :: string
  lg_sinks :: "'w sink list"
  lg_formatter :: "flag_formatter list"
  lg_level :: level_enum

record env =
  env_junk :: char
  env_off :: int
  env_now :: int
  env_tid :: u64
  env_time0 :: int
  env_tid0 :: u64

datatype outcome = Done | Throws spd_error | Terminates

section \<open>The logger\<close>

definition logger_new :: "string \<Rightarrow> 'w sink list \<Rightarrow> 'w logger" where
  "logger_new name sinks =
     \<lparr>lg_name = name, lg_sinks = sinks, lg_formatter = pattern_formatter ''%+'', lg_level = L_info\<rparr>"

definition set_formatter :: "flag_formatter list \<Rightarrow> 'w logger \<Rightarrow> 'w logger" where
  "set_formatter f lg = lg\<lparr>lg_formatter := f\<rparr>"

definition set_pattern :: "string \<Rightarrow> 'w logger \<Rightarrow> 'w logger" where
  "set_pattern p lg = lg\<lparr>lg_formatter := pattern_formatter p\<rparr>"

definition set_level :: "level_enum \<Rightarrow> 'w logger \<Rightarrow> 'w logger" where
  "set_level l lg = lg\<lparr>lg_level := l\<rparr>"

definition should_log :: "level_enum \<Rightarrow> 'w logger \<Rightarrow> bool" where
  "should_log l lg \<longleftrightarrow> l \<ge> lg_level lg"

fun sinks_log :: "'w sink list \<Rightarrow> log_msg \<Rightarrow> 'w \<Rightarrow> spd_error option \<times> 'w" where
  "sinks_log [] m w = (None, w)"
| "sinks_log (s # ss) m w =
     (case sk_log s m w of (Some e, w') \<Rightarrow> (Some e, w') | (None, w') \<Rightarrow> sinks_log ss m w')"

definition logger_log_msg :: "env \<Rightarrow> 'w logger \<Rightarrow> log_msg \<Rightarrow> 'w \<Rightarrow> spd_error option \<times> 'w" where
  "logger_log_msg en lg msg w =
     (case pattern_format (env_junk en) (env_off en) (lg_formatter lg) msg of
        Inl e \<Rightarrow> (Some e, w)
      | Inr m \<Rightarrow> sinks_log (lg_sinks lg) m w)"

definition logger_flush :: "'w logger \<Rightarrow> 'w \<Rightarrow> 'w" where
  "logger_flush lg w = fold (\<lambda>s. sk_flush s) (lg_sinks lg) w"

section \<open>The line logger\<close>

record line_logger =
  ll_msg :: log_msg
  ll_enabled :: bool

definition line_logger_new :: "env \<Rightarrow> level_enum \<Rightarrow> bool \<Rightarrow> line_logger" where
  "line_logger_new en l enabled =
     \<lparr>ll_msg = log_msg_of_level (env_time0 en) (env_tid0 en) l, ll_enabled = enabled\<rparr>"

definition ll_disable :: "line_logger \<Rightarrow> line_logger" where
  "ll_disable l = l\<lparr>ll_enabled := False\<rparr>"

text \<open>The move constructor: the new line logger and the old one.\<close>

definition line_logger_move :: "string \<Rightarrow> line_logger \<Rightarrow> line_logger \<times> line_logger" where
  "line_logger_move left_name other =
     (let (m, old) = log_msg_move left_name (ll_msg other)
      in (\<lparr>ll_msg = m, ll_enabled = ll_enabled other\<rparr>, ll_disable (other\<lparr>ll_msg := old\<rparr>)))"

definition ll_write_str :: "string \<Rightarrow> line_logger \<Rightarrow> line_logger" where
  "ll_write_str what l = (if ll_enabled l then l\<lparr>ll_msg := (ll_msg l)\<lparr>raw := raw (ll_msg l) @ what\<rparr>\<rparr> else l)"

definition ll_write :: "env \<Rightarrow> string \<Rightarrow> arg_list \<Rightarrow> line_logger \<Rightarrow> spd_error option \<times> line_logger" where
  "ll_write en fmt args l =
     (if \<not> ll_enabled l then (None, l)
      else case format_write (env_junk en) fmt args (raw (ll_msg l)) of
             Inr w \<Rightarrow> (None, l\<lparr>ll_msg := (ll_msg l)\<lparr>raw := w\<rparr>\<rparr>)
           | Inl (FormatError e, w) \<Rightarrow>
               (Some (SpdlogEx (''formatting error while processing format string '' @ [CHR 0x27] @ fmt @ [CHR 0x27] @ '': '' @ e)),
                l\<lparr>ll_msg := (ll_msg l)\<lparr>raw := w\<rparr>\<rparr>)
           | Inl (Overrun, w) \<Rightarrow> (Some Undefined, l\<lparr>ll_msg := (ll_msg l)\<lparr>raw := w\<rparr>\<rparr>))"

text \<open>\<open>operator<<\<close>: integers and characters through the writer, and other types through the format string \<open>{}\<close>.\<close>

definition ll_put :: "writer_op \<Rightarrow> line_logger \<Rightarrow> spd_error option \<times> line_logger" where
  "ll_put f l =
     (if \<not> ll_enabled l then (None, l)
      else case f (raw (ll_msg l)) of
             Inr w \<Rightarrow> (None, l\<lparr>ll_msg := (ll_msg l)\<lparr>raw := w\<rparr>\<rparr>)
           | Inl (FormatError e) \<Rightarrow> (Some (SpdlogEx e), l)
           | Inl Overrun \<Rightarrow> (Some Undefined, l))"

text \<open>The destructor.\<close>

definition line_logger_delete :: "env \<Rightarrow> 'w logger \<Rightarrow> line_logger \<Rightarrow> 'w \<Rightarrow> spd_error option \<times> 'w" where
  "line_logger_delete en lg l w =
     (if ll_enabled l
      then logger_log_msg en lg
             ((ll_msg l)\<lparr>logger_name := lg_name lg, time := env_now en, thread_id := env_tid en\<rparr>) w
      else (None, w))"

section \<open>Log calls\<close>

text \<open>The end of a statement: the line logger is destroyed, also when the writing has thrown.\<close>

definition finish_call :: "env \<Rightarrow> 'w logger \<Rightarrow> spd_error option \<times> line_logger \<Rightarrow> 'w \<Rightarrow> outcome \<times> 'w" where
  "finish_call en lg r w =
     (case line_logger_delete en lg (snd r) w of
        (Some _, w') \<Rightarrow> (Terminates, w')
      | (None, w') \<Rightarrow> (case fst r of None \<Rightarrow> Done | Some e \<Rightarrow> Throws e, w'))"

definition log_if_enabled ::
  "env \<Rightarrow> level_enum \<Rightarrow> string \<Rightarrow> arg_list \<Rightarrow> 'w logger \<Rightarrow> 'w \<Rightarrow> outcome \<times> 'w" where
  "log_if_enabled en l fmt args lg w =
     finish_call en lg (ll_write en fmt args (line_logger_new en l (should_log l lg))) w"

definition log_if_enabled_msg :: "env \<Rightarrow> level_enum \<Rightarrow> writer_op \<Rightarrow> 'w logger \<Rightarrow> 'w \<Rightarrow> outcome \<times> 'w" where
  "log_if_enabled_msg en l msg lg w =
     finish_call en lg (ll_put msg (line_logger_new en l (should_log l lg))) w"

text \<open>\<open>logger.info() << a << b\<close>: the line logger with what is streamed to it.\<close>

fun ll_put_all :: "writer_op list \<Rightarrow> line_logger \<Rightarrow> spd_error option \<times> line_logger" where
  "ll_put_all [] l = (None, l)"
| "ll_put_all (f # fs) l = (case ll_put f l of (Some e, l') \<Rightarrow> (Some e, l') | (None, l') \<Rightarrow> ll_put_all fs l')"

definition log_if_enabled_stream :: "env \<Rightarrow> level_enum \<Rightarrow> writer_op list \<Rightarrow> 'w logger \<Rightarrow> 'w \<Rightarrow> outcome \<times> 'w" where
  "log_if_enabled_stream en l fs lg w =
     finish_call en lg (ll_put_all fs (line_logger_new en l (should_log l lg))) w"

definition force_log :: "env \<Rightarrow> level_enum \<Rightarrow> string \<Rightarrow> arg_list \<Rightarrow> 'w logger \<Rightarrow> 'w \<Rightarrow> outcome \<times> 'w" where
  "force_log en l fmt args lg w =
     finish_call en lg (ll_write en fmt args (line_logger_new en l True)) w"

text \<open>The methods of the levels: with a format string, with one value, and with a stream.\<close>

definition logger_trace :: "env \<Rightarrow> string \<Rightarrow> arg_list \<Rightarrow> 'w logger \<Rightarrow> 'w \<Rightarrow> outcome \<times> 'w" where
  "logger_trace en fmt args lg w = log_if_enabled en L_trace fmt args lg w"

definition logger_debug :: "env \<Rightarrow> string \<Rightarrow> arg_list \<Rightarrow> 'w logger \<Rightarrow> 'w \<Rightarrow> outcome \<times> 'w" where
  "logger_debug en fmt args lg w = log_if_enabled en L_debug fmt args lg w"

definition logger_info :: "env \<Rightarrow> string \<Rightarrow> arg_list \<Rightarrow> 'w logger \<Rightarrow> 'w \<Rightarrow> outcome \<times> 'w" where
  "logger_info en fmt args lg w = log_if_enabled en L_info fmt args lg w"

definition logger_notice :: "env \<Rightarrow> string \<Rightarrow> arg_list \<Rightarrow> 'w logger \<Rightarrow> 'w \<Rightarrow> outcome \<times> 'w" where
  "logger_notice en fmt args lg w = log_if_enabled en L_notice fmt args lg w"

definition logger_warn :: "env \<Rightarrow> string \<Rightarrow> arg_list \<Rightarrow> 'w logger \<Rightarrow> 'w \<Rightarrow> outcome \<times> 'w" where
  "logger_warn en fmt args lg w = log_if_enabled en L_warn fmt args lg w"

definition logger_error :: "env \<Rightarrow> string \<Rightarrow> arg_list \<Rightarrow> 'w logger \<Rightarrow> 'w \<Rightarrow> outcome \<times> 'w" where
  "logger_error en fmt args lg w = log_if_enabled en L_err fmt args lg w"

definition logger_critical :: "env \<Rightarrow> string \<Rightarrow> arg_list \<Rightarrow> 'w logger \<Rightarrow> 'w \<Rightarrow> outcome \<times> 'w" where
  "logger_critical en fmt args lg w = log_if_enabled en L_critical fmt args lg w"

definition logger_alert :: "env \<Rightarrow> string \<Rightarrow> arg_list \<Rightarrow> 'w logger \<Rightarrow> 'w \<Rightarrow> outcome \<times> 'w" where
  "logger_alert en fmt args lg w = log_if_enabled en L_alert fmt args lg w"

definition logger_emerg :: "env \<Rightarrow> string \<Rightarrow> arg_list \<Rightarrow> 'w logger \<Rightarrow> 'w \<Rightarrow> outcome \<times> 'w" where
  "logger_emerg en fmt args lg w = log_if_enabled en L_emerg fmt args lg w"

definition logger_trace_msg :: "env \<Rightarrow> writer_op \<Rightarrow> 'w logger \<Rightarrow> 'w \<Rightarrow> outcome \<times> 'w" where
  "logger_trace_msg en msg lg w = log_if_enabled_msg en L_trace msg lg w"

definition logger_debug_msg :: "env \<Rightarrow> writer_op \<Rightarrow> 'w logger \<Rightarrow> 'w \<Rightarrow> outcome \<times> 'w" where
  "logger_debug_msg en msg lg w = log_if_enabled_msg en L_debug msg lg w"

definition logger_info_msg :: "env \<Rightarrow> writer_op \<Rightarrow> 'w logger \<Rightarrow> 'w \<Rightarrow> outcome \<times> 'w" where
  "logger_info_msg en msg lg w = log_if_enabled_msg en L_info msg lg w"

definition logger_notice_msg :: "env \<Rightarrow> writer_op \<Rightarrow> 'w logger \<Rightarrow> 'w \<Rightarrow> outcome \<times> 'w" where
  "logger_notice_msg en msg lg w = log_if_enabled_msg en L_notice msg lg w"

definition logger_warn_msg :: "env \<Rightarrow> writer_op \<Rightarrow> 'w logger \<Rightarrow> 'w \<Rightarrow> outcome \<times> 'w" where
  "logger_warn_msg en msg lg w = log_if_enabled_msg en L_warn msg lg w"

definition logger_error_msg :: "env \<Rightarrow> writer_op \<Rightarrow> 'w logger \<Rightarrow> 'w \<Rightarrow> outcome \<times> 'w" where
  "logger_error_msg en msg lg w = log_if_enabled_msg en L_err msg lg w"

definition logger_critical_msg :: "env \<Rightarrow> writer_op \<Rightarrow> 'w logger \<Rightarrow> 'w \<Rightarrow> outcome \<times> 'w" where
  "logger_critical_msg en msg lg w = log_if_enabled_msg en L_critical msg lg w"

definition logger_alert_msg :: "env \<Rightarrow> writer_op \<Rightarrow> 'w logger \<Rightarrow> 'w \<Rightarrow> outcome \<times> 'w" where
  "logger_alert_msg en msg lg w = log_if_enabled_msg en L_alert msg lg w"

definition logger_emerg_msg :: "env \<Rightarrow> writer_op \<Rightarrow> 'w logger \<Rightarrow> 'w \<Rightarrow> outcome \<times> 'w" where
  "logger_emerg_msg en msg lg w = log_if_enabled_msg en L_emerg msg lg w"

definition logger_trace_stream :: "env \<Rightarrow> writer_op list \<Rightarrow> 'w logger \<Rightarrow> 'w \<Rightarrow> outcome \<times> 'w" where
  "logger_trace_stream en fs lg w = log_if_enabled_stream en L_trace fs lg w"

definition logger_debug_stream :: "env \<Rightarrow> writer_op list \<Rightarrow> 'w logger \<Rightarrow> 'w \<Rightarrow> outcome \<times> 'w" where
  "logger_debug_stream en fs lg w = log_if_enabled_stream en L_debug fs lg w"

definition logger_info_stream :: "env \<Rightarrow> writer_op list \<Rightarrow> 'w logger \<Rightarrow> 'w \<Rightarrow> outcome \<times> 'w" where
  "logger_info_stream en fs lg w = log_if_enabled_stream en L_info fs lg w"

definition logger_notice_stream :: "env \<Rightarrow> writer_op list \<Rightarrow> 'w logger \<Rightarrow> 'w \<Rightarrow> outcome \<times> 'w" where
  "logger_notice_stream en fs lg w = log_if_enabled_stream en L_notice fs lg w"

definition logger_warn_stream :: "env \<Rightarrow> writer_op list \<Rightarrow> 'w logger \<Rightarrow> 'w \<Rightarrow> outcome \<times> 'w" where
  "logger_warn_stream en fs lg w = log_if_enabled_stream en L_warn fs lg w"

definition logger_error_stream :: "env \<Rightarrow> writer_op list \<Rightarrow> 'w logger \<Rightarrow> 'w \<Rightarrow> outcome \<times> 'w" where
  "logger_error_stream en fs lg w = log_if_enabled_stream en L_err fs lg w"

definition logger_critical_stream :: "env \<Rightarrow> writer_op list \<Rightarrow> 'w logger \<Rightarrow> 'w \<Rightarrow> outcome \<times> 'w" where
  "logger_critical_stream en fs lg w = log_if_enabled_stream en L_critical fs lg w"

definition logger_alert_stream :: "env \<Rightarrow> writer_op list \<Rightarrow> 'w logger \<Rightarrow> 'w \<Rightarrow> outcome \<times> 'w" where
  "logger_alert_stream en fs lg w = log_if_enabled_stream en L_alert fs lg w"

definition logger_emerg_stream :: "env \<Rightarrow> writer_op list \<Rightarrow> 'w logger \<Rightarrow> 'w \<Rightarrow> outcome \<times> 'w" where
  "logger_emerg_stream en fs lg w = log_if_enabled_stream en L_emerg fs lg w"

lemmas level_methods =
  logger_trace_def logger_debug_def logger_info_def logger_notice_def logger_warn_def logger_error_def
  logger_critical_def logger_alert_def logger_emerg_def

lemmas level_methods_msg =
  logger_trace_msg_def logger_debug_msg_def logger_info_msg_def logger_notice_msg_def logger_warn_msg_def logger_error_msg_def
  logger_critical_msg_def logger_alert_msg_def logger_emerg_msg_def

lemmas level_methods_stream =
  logger_trace_stream_def logger_debug_stream_def logger_info_stream_def logger_notice_stream_def logger_warn_stream_def logger_error_stream_def
  logger_critical_stream_def logger_alert_stream_def logger_emerg_stream_def

section \<open>Sinks\<close>

definition null_sink :: "'w sink" where
  "null_sink = \<lparr>sk_log = (\<lambda>msg w. (None, w)), sk_flush = (\<lambda>w. w)\<rparr>"

text \<open>A stream: what was written to it, and how much of that has been flushed.\<close>

record ostream =
  os_text :: string
  os_flushed :: nat

definition os_flush :: "ostream \<Rightarrow> ostream" where
  "os_flush st = st\<lparr>os_flushed := length (os_text st)\<rparr>"

definition ostream_sink :: "bool \<Rightarrow> ostream sink" where
  "ostream_sink force =
     \<lparr>sk_log = (\<lambda>msg st. let st1 = st\<lparr>os_text := os_text st @ formatted msg\<rparr> in (None, if force then os_flush st1 else st1)),
      sk_flush = os_flush\<rparr>"

definition file_sink :: "(file_helper \<times> fsys) sink" where
  "file_sink = \<lparr>sk_log = simple_sink_it, sk_flush = (\<lambda>w. w)\<rparr>"

definition rotating_sink_obj :: "(rotating_sink \<times> fsys) sink" where
  "rotating_sink_obj = \<lparr>sk_log = rotating_sink_it, sk_flush = (\<lambda>w. w)\<rparr>"

section \<open>Calls below the level\<close>

lemma ll_put_all_disabled: "\<not> ll_enabled l \<Longrightarrow> ll_put_all fs l = (None, l)"
  by (induction fs) (simp_all add: ll_put_def)

lemma below_level_silent:
  assumes "\<not> should_log l lg"
  shows "log_if_enabled en l fmt args lg w = (Done, w)" and "log_if_enabled_msg en l msg lg w = (Done, w)"
    and "log_if_enabled_stream en l fs lg w = (Done, w)"
  using assms
  by (simp_all add: log_if_enabled_def log_if_enabled_msg_def log_if_enabled_stream_def finish_call_def ll_write_def ll_put_def
      ll_put_all_disabled line_logger_new_def line_logger_delete_def)

text \<open>A logger whose level is \<open>off\<close> ignores the call of every level; only \<open>force_log\<close> writes.\<close>

lemma off_is_silent:
  assumes "lg_level lg = L_off"
  shows "logger_emerg en fmt args lg w = (Done, w)" and "logger_emerg_msg en msg lg w = (Done, w)"
    and "logger_emerg_stream en fs lg w = (Done, w)" and "logger_trace en fmt args lg w = (Done, w)"
    and "logger_error en fmt args lg w = (Done, w)" and "logger_critical_stream en fs lg w = (Done, w)"
  unfolding level_methods level_methods_msg level_methods_stream
  by (rule below_level_silent, simp add: should_log_def assms less_eq_level_enum_def)+

section \<open>The contract of a sink\<close>

text \<open>What a logger relies on: a sink in order takes every message, appends its text and stays in order.\<close>

locale text_sink =
  fixes sink :: "'w sink" and ok :: "'w \<Rightarrow> bool" and written :: "'w \<Rightarrow> string"
  assumes log_appends: "ok w \<Longrightarrow> \<exists>w'. sk_log sink msg w = (None, w') \<and> ok w' \<and> written w' = written w @ formatted msg"
begin

lemma log_msg_appends:
  assumes "ok w"
  shows "\<exists>w'. logger_log_msg en (lg\<lparr>lg_sinks := [sink]\<rparr>) msg w = (None, w') \<and> ok w'
    \<and> written w' = written w @ formatted msg @ concat (map (flag_text (env_off en) msg) (lg_formatter lg)) @ eol"
proof -
  let ?m = "msg\<lparr>formatted := formatted msg @ concat (map (flag_text (env_off en) msg) (lg_formatter lg)) @ eol\<rparr>"
  obtain w' where "sk_log sink ?m w = (None, w')" "ok w'" "written w' = written w @ formatted ?m"
    using log_appends [OF assms] by blast
  then show ?thesis by (simp add: logger_log_msg_def pattern_format_text)
qed

end

text \<open>The message a call logs when its text is \<open>t\<close>, and the line of it.\<close>

definition call_msg :: "env \<Rightarrow> 'w logger \<Rightarrow> level_enum \<Rightarrow> string \<Rightarrow> log_msg" where
  "call_msg en lg l t =
     \<lparr>logger_name = lg_name lg, msg_level = l, time = env_now en, thread_id = env_tid en, raw = t, formatted = []\<rparr>"

definition call_line :: "env \<Rightarrow> 'w logger \<Rightarrow> level_enum \<Rightarrow> string \<Rightarrow> string" where
  "call_line en lg l t = concat (map (flag_text (env_off en) (call_msg en lg l t)) (lg_formatter lg)) @ eol"

lemma finish_enabled:
  assumes "ll_enabled l" and "ll_msg l = (log_msg_of_level t0 i0 lv)\<lparr>raw := t\<rparr>"
  shows "line_logger_delete en lg l w = logger_log_msg en lg (call_msg en lg lv t) w"
  using assms by (simp add: line_logger_delete_def call_msg_def log_msg_of_level_def)

context text_sink
begin

text \<open>A call of an enabled level appends one line, whether or not its format string is in order.\<close>

lemma enabled_call:
  assumes "ok w" and "should_log l lg" and "lg_sinks lg = [sink]"
  shows "case format_write (env_junk en) fmt args [] of
      Inr t \<Rightarrow> \<exists>w'. log_if_enabled en l fmt args lg w = (Done, w') \<and> ok w' \<and> written w' = written w @ call_line en lg l t
    | Inl (FormatError e, t) \<Rightarrow>
        \<exists>w'. log_if_enabled en l fmt args lg w
          = (Throws (SpdlogEx (''formatting error while processing format string '' @ [CHR 0x27] @ fmt @ [CHR 0x27] @ '': '' @ e)), w')
          \<and> ok w' \<and> written w' = written w @ call_line en lg l t
    | Inl (Overrun, t) \<Rightarrow> True"
proof -
  have lg: "lg\<lparr>lg_sinks := [sink]\<rparr> = lg" using assms(3) by simp
  have logs: "\<exists>w'. logger_log_msg en lg (call_msg en lg l t) w = (None, w') \<and> ok w' \<and> written w' = written w @ call_line en lg l t" for t
    using log_msg_appends [OF assms(1), of en lg "call_msg en lg l t"] unfolding lg call_line_def
    by (simp add: call_msg_def)
  let ?l = "\<lambda>t. \<lparr>ll_msg = (log_msg_of_level (env_time0 en) (env_tid0 en) l)\<lparr>raw := t\<rparr>, ll_enabled = True\<rparr>"
  have new: "line_logger_new en l (should_log l lg) = ?l []"
    using assms(2) by (simp add: line_logger_new_def log_msg_of_level_def)
  have del: "line_logger_delete en lg (?l t) w = logger_log_msg en lg (call_msg en lg l t) w" for t
    by (rule finish_enabled) simp_all
  show ?thesis
  proof (cases "format_write (env_junk en) fmt args []")
    case (Inl p)
    obtain e t where p: "p = (e, t)" by fastforce
    obtain w' where "logger_log_msg en lg (call_msg en lg l t) w = (None, w')" "ok w'" "written w' = written w @ call_line en lg l t"
      using logs by blast
    then show ?thesis using Inl p del [of t]
      by (cases e) (simp_all add: log_if_enabled_def new finish_call_def ll_write_def log_msg_of_level_def)
  next
    case (Inr t)
    obtain w' where "logger_log_msg en lg (call_msg en lg l t) w = (None, w')" "ok w'" "written w' = written w @ call_line en lg l t"
      using logs by blast
    then show ?thesis using Inr del [of t]
      by (simp add: log_if_enabled_def new finish_call_def ll_write_def log_msg_of_level_def)
  qed
qed

end

text \<open>What a call writes into the message: all of its text, or what was written before the error.\<close>

definition call_text :: "env \<Rightarrow> string \<Rightarrow> arg_list \<Rightarrow> string" where
  "call_text en fmt args = (case format_write (env_junk en) fmt args [] of Inr t \<Rightarrow> t | Inl (e, t) \<Rightarrow> t)"

type_synonym log_call = "env \<times> level_enum \<times> string \<times> arg_list"

text \<open>A program that logs: an exception of a call is caught, and the next call follows.\<close>

fun run_calls :: "log_call list \<Rightarrow> 'w logger \<Rightarrow> 'w \<Rightarrow> outcome list \<times> 'w" where
  "run_calls [] lg w = ([], w)"
| "run_calls ((en, l, fmt, args) # cs) lg w =
     (let (r, w1) = log_if_enabled en l fmt args lg w; (rs, w2) = run_calls cs lg w1 in (r # rs, w2))"

definition lines_of :: "'w logger \<Rightarrow> log_call list \<Rightarrow> string" where
  "lines_of lg cs =
     concat (map (\<lambda>(en, l, fmt, args). call_line en lg l (call_text en fmt args))
       (filter (\<lambda>(en, l, fmt, args). should_log l lg) cs))"

definition call_outcome :: "'w logger \<Rightarrow> log_call \<Rightarrow> outcome" where
  "call_outcome lg c =
     (case c of (en, l, fmt, args) \<Rightarrow>
        if \<not> should_log l lg then Done
        else case format_write (env_junk en) fmt args [] of
               Inr _ \<Rightarrow> Done
             | Inl (FormatError e, _) \<Rightarrow>
                 Throws (SpdlogEx (''formatting error while processing format string '' @ [CHR 0x27] @ fmt @ [CHR 0x27] @ '': '' @ e))
             | Inl (Overrun, _) \<Rightarrow> Terminates)"

context text_sink
begin

lemma one_call:
  assumes "ok w" and "lg_sinks lg = [sink]"
  shows "\<exists>w'. log_if_enabled en l fmt args lg w = (call_outcome lg (en, l, fmt, args), w') \<and> ok w'
    \<and> written w' = written w @ lines_of lg [(en, l, fmt, args)]"
proof (cases "should_log l lg")
  case True
  note c = enabled_call [OF assms(1) True assms(2), of en fmt args]
  show ?thesis
  proof (cases "format_write (env_junk en) fmt args []")
    case (Inl p)
    obtain e t where p: "p = (e, t)" by fastforce
    have "e \<noteq> Overrun" using format_loop_in_buffer [of "env_junk en" args 0 "[]" "[]" fmt t] Inl p by (auto simp: format_write_def)
    then obtain x where "e = FormatError x" by (cases e) auto
    then show ?thesis using c Inl p True by (simp add: call_outcome_def lines_of_def call_text_def)
  next
    case (Inr t)
    then show ?thesis using c True by (simp add: call_outcome_def lines_of_def call_text_def)
  qed
next
  case False
  then show ?thesis using assms(1) by (simp add: below_level_silent call_outcome_def lines_of_def)
qed

lemma all_calls:
  assumes "ok w" and "lg_sinks lg = [sink]"
  shows "\<exists>w'. run_calls cs lg w = (map (call_outcome lg) cs, w') \<and> ok w' \<and> written w' = written w @ lines_of lg cs"
  using assms(1)
proof (induction cs arbitrary: w)
  case Nil
  then show ?case by (simp add: lines_of_def)
next
  case (Cons c cs)
  obtain en l fmt args where c: "c = (en, l, fmt, args)" by (cases c) auto
  obtain w1 where w1: "log_if_enabled en l fmt args lg w = (call_outcome lg c, w1)" "ok w1"
    "written w1 = written w @ lines_of lg [c]" using one_call [OF Cons.prems assms(2)] c by blast
  obtain w2 where "run_calls cs lg w1 = (map (call_outcome lg) cs, w2)" "ok w2" "written w2 = written w1 @ lines_of lg cs"
    using Cons.IH [OF w1(2)] by blast
  moreover have "lines_of lg (c # cs) = lines_of lg [c] @ lines_of lg cs" by (simp add: lines_of_def)
  ultimately show ?case using w1 c by simp
qed

end

text \<open>The sinks that honour the contract: a stream, and a file that is open and has room.\<close>

interpretation stream_text: text_sink "ostream_sink force" "\<lambda>_. True" os_text for force
  by unfold_locales (simp add: ostream_sink_def os_flush_def Let_def)

definition file_ok :: "string \<Rightarrow> file_helper \<times> fsys \<Rightarrow> bool" where
  "file_ok f w \<longleftrightarrow> fd (fst w) = Some f \<and> \<not> full (snd w)"

definition file_text :: "string \<Rightarrow> file_helper \<times> fsys \<Rightarrow> string" where
  "file_text f w = (case files (snd w) f of None \<Rightarrow> [] | Some c \<Rightarrow> c)"

interpretation file_text: text_sink file_sink "file_ok f" "file_text f" for f
  by unfold_locales
    (auto simp: file_sink_def simple_sink_it_def fh_write_def fwrite_def file_ok_def file_text_def split: prod.splits)


definition sample_env :: env where
  "sample_env = \<lparr>env_junk = CHR ''?'', env_off = 0, env_now = 0, env_tid = 1, env_time0 = 5, env_tid0 = 6\<rparr>"

definition sample_logger :: "(file_helper \<times> fsys) logger" where
  "sample_logger = set_pattern ''%v'' (logger_new ''main'' [file_sink])"

lemma format_literal: "c \<noteq> CHR ''{'' \<Longrightarrow> c \<noteq> CHR ''}'' \<Longrightarrow> format_write junk [c] args [] = Inr [c]"
  by (simp add: format_write_def format_loop_char)


text \<open>C29: When the file cannot be written - the disk is full - the \<open>spdlog_ex\<close> that the file helper throws leaves the
  destructor of the line logger, so every enabled log call ends the program instead of reporting the
  error.\<close>

theorem sink_error_terminates:
  assumes "should_log l lg" and "lg_sinks lg = [file_sink]" and "fd (fst w) = Some f" and "full (snd w)"
  shows "fst (log_if_enabled en l fmt args lg w) = Terminates"
proof -
  obtain h fs where w: "w = (h, fs)" by fastforce
  have ne: "t @ eol \<noteq> []" for t by (simp add: eol_def)
  have "\<exists>e. logger_log_msg en lg m w = (Some e, w)" for m
    using assms w ne
    by (auto simp: logger_log_msg_def pattern_format_text file_sink_def simple_sink_it_def fh_write_def fwrite_def)
  moreover have "ll_enabled (snd (ll_write en fmt args (line_logger_new en l (should_log l lg))))"
    using assms(1) by (simp add: ll_write_def line_logger_new_def split: sum.split prod.split fmt_error.split)
  ultimately have "\<exists>e. line_logger_delete en lg (snd (ll_write en fmt args (line_logger_new en l (should_log l lg)))) w = (Some e, w)"
    by (simp add: line_logger_delete_def)
  then show ?thesis by (auto simp: log_if_enabled_def finish_call_def)
qed

theorem sink_error_terminates_witness:
  "fst (log_if_enabled sample_env L_err ''disk full'' [] sample_logger
     (\<lparr>fd = Some ''a'', fh_filename = ''a'', force_flush = False\<rparr>, empty_fs\<lparr>full := True\<rparr>)) = Terminates"
  by (rule sink_error_terminates [where f = "''a''"])
    (simp_all add: should_log_def sample_logger_def set_pattern_def logger_new_def less_eq_level_enum_def)

end
