(* ===== verification/SpdAsync.thy ===== *)
theory SpdAsync
  imports SpdLogger MpmcQueue
begin

text \<open>
  The asynchronous logger of spdlog (\<open>details/async_log_helper.h\<close>, \<open>details/async_logger_impl.h\<close>): any number of
  threads put messages into the bounded queue of \<open>MpmcQueue\<close>, and one worker thread takes them out, formats
  them and hands them to the sinks.

  A step is one operation on the queue by a caller or one round of the worker. That the queue behaves
  as a bounded list also under interleaved memory accesses is the subject of \<open>MpmcQueue\<close>. The pauses between
  two attempts (\<open>sleep_or_yield\<close>) have no effect on the state. The callback that warms up the worker, and changing
  the formatter while messages are queued, are not part of the runs.
\<close>

section \<open>Messages in the queue\<close>

datatype async_msg_type = AM_log | AM_flush | AM_terminate

record async_msg =
  am_name :: string
  am_level :: level_enum
  am_time :: int
  am_tid :: u64
  am_txt :: string
  am_type :: async_msg_type

definition async_of_log_msg :: "log_msg \<Rightarrow> async_msg" where
  "async_of_log_msg m =
     \<lparr>am_name = logger_name m, am_level = msg_level m, am_time = time m, am_tid = thread_id m, am_txt = raw m,
      am_type = AM_log\<rparr>"

text \<open>A message of another type; the fields that its constructor leaves open are those of \<open>junk\<close>.\<close>

definition async_of_type :: "async_msg \<Rightarrow> async_msg_type \<Rightarrow> async_msg" where
  "async_of_type junk ty = junk\<lparr>am_name := [], am_txt := [], am_type := ty\<rparr>"

text \<open>The move constructor, which does not copy the thread; the move assignment, which the queue uses, does.\<close>

definition async_msg_move :: "u64 \<Rightarrow> async_msg \<Rightarrow> async_msg" where
  "async_msg_move junk_id other = other\<lparr>am_tid := junk_id\<rparr>"

definition fill_log_msg :: "async_msg \<Rightarrow> log_msg \<Rightarrow> log_msg" where
  "fill_log_msg am msg =
     (log_msg_clear msg)\<lparr>logger_name := am_name am, msg_level := am_level am, time := am_time am, thread_id := am_tid am,
        raw := am_txt am\<rparr>"

section \<open>The helper\<close>

datatype overflow_policy = block_retry | discard_log_msg

record 'w async =
  aq :: "async_msg mpmc"
  flush_requested :: bool
  terminate_requested :: bool
  worker_ex :: "string option"
  worker_on :: bool
  a_formatter :: "flag_formatter list"
  a_sinks :: "'w sink list"
  policy :: overflow_policy
  flush_interval :: int
  last_pop :: int
  last_flush :: int
  world :: 'w

definition async_log_helper ::
  "flag_formatter list \<Rightarrow> 'w sink list \<Rightarrow> async_msg mpmc \<Rightarrow> overflow_policy \<Rightarrow> int \<Rightarrow> int \<Rightarrow> 'w \<Rightarrow> 'w async" where
  "async_log_helper f sinks q pol interval now w =
     \<lparr>aq = q, flush_requested = False, terminate_requested = False, worker_ex = None, worker_on = True,
      a_formatter = f, a_sinks = sinks, policy = pol, flush_interval = interval, last_pop = now, last_flush = now, world = w\<rparr>"

definition async_set_formatter :: "flag_formatter list \<Rightarrow> 'w async \<Rightarrow> 'w async" where
  "async_set_formatter f h = h\<lparr>a_formatter := f\<rparr>"

text \<open>\<open>throw_if_bad_worker\<close> moves the exception out, so that it is thrown once.\<close>

definition throw_if_bad_worker :: "'w async \<Rightarrow> string option \<times> 'w async" where
  "throw_if_bad_worker h = (worker_ex h, h\<lparr>worker_ex := None\<rparr>)"

text \<open>One attempt to put a message into the queue.\<close>

definition try_push :: "async_msg \<Rightarrow> 'w async \<Rightarrow> (bool \<times> 'w async) option" where
  "try_push m h = map_option (\<lambda>(b, q). (b, h\<lparr>aq := q\<rparr>)) (mpmc_enqueue (aq h) m)"

text \<open>\<open>push_msg\<close> up to its first attempt: \<open>Blocked\<close> is the entry of the loop that tries again.\<close>

datatype push_result = Threw string | Pushed | Discarded | Blocked

definition push_msg :: "async_msg \<Rightarrow> 'w async \<Rightarrow> (push_result \<times> 'w async) option" where
  "push_msg m h =
     (case throw_if_bad_worker h of
        (Some e, h1) \<Rightarrow> Some (Threw e, h1)
      | (None, h1) \<Rightarrow>
          map_option (\<lambda>(b, h2). (if b then Pushed else if policy h2 = discard_log_msg then Discarded else Blocked, h2))
            (try_push m h1))"

definition helper_log :: "log_msg \<Rightarrow> 'w async \<Rightarrow> (push_result \<times> 'w async) option" where
  "helper_log msg h = push_msg (async_of_log_msg msg) h"

definition helper_flush :: "async_msg \<Rightarrow> 'w async \<Rightarrow> (push_result \<times> 'w async) option" where
  "helper_flush junk h = push_msg (async_of_type junk AM_flush) h"

text \<open>The destructor: after the terminate message is pushed, or given up, it joins the worker thread. When
  \<open>push_msg\<close> throws, the handler skips the join, and the destructor of the still joinable
  \<open>std::thread\<close> ends the program.\<close>

datatype destroy_result = Joins | Retries | Std_terminate

definition helper_destroy :: "async_msg \<Rightarrow> 'w async \<Rightarrow> (destroy_result \<times> 'w async) option" where
  "helper_destroy junk h =
     map_option (\<lambda>(r, h'). (case r of Threw _ \<Rightarrow> Std_terminate | Blocked \<Rightarrow> Retries | _ \<Rightarrow> Joins, h'))
       (push_msg (async_of_type junk AM_terminate) h)"

text \<open>How long a thread pauses between two attempts, in nanoseconds.\<close>

datatype pause = No_pause | Yield_cpu | Sleep int

definition sleep_or_yield :: "int \<Rightarrow> int \<Rightarrow> pause" where
  "sleep_or_yield now last_op_time =
     (let time_since_op = now - last_op_time
      in if time_since_op \<le> 1000000 then No_pause
         else if time_since_op \<le> 10000000 then Yield_cpu
         else if time_since_op \<le> 100000000 then Sleep (time_since_op div 2)
         else Sleep 100000000)"

definition handle_flush_interval :: "int \<Rightarrow> 'w async \<Rightarrow> 'w async" where
  "handle_flush_interval now h =
     (if flush_requested h \<or> (flush_interval h \<noteq> 0 \<and> now - last_flush h \<ge> flush_interval h)
      then h\<lparr>world := fold (\<lambda>s. sk_flush s) (a_sinks h) (world h), last_flush := now, flush_requested := False\<rparr>
      else h)"

text \<open>The result of a round: whether the worker goes on, or the exception.\<close>

datatype round = Goes_on bool | Raises spd_error

definition process_next_msg :: "char \<Rightarrow> int \<Rightarrow> log_msg \<Rightarrow> int \<Rightarrow> 'w async \<Rightarrow> (round \<times> 'w async) option" where
  "process_next_msg junk off fresh now h =
     map_option (\<lambda>(r, q).
       let h1 = h\<lparr>aq := q\<rparr>
       in case r of
            None \<Rightarrow> (let h2 = handle_flush_interval now h1 in (Goes_on (\<not> terminate_requested h2), h2))
          | Some m \<Rightarrow>
              let h2 = h1\<lparr>last_pop := now\<rparr>
              in (case am_type m of
                    AM_flush \<Rightarrow> (Goes_on True, h2\<lparr>flush_requested := True\<rparr>)
                  | AM_terminate \<Rightarrow> (Goes_on True, h2\<lparr>flush_requested := True, terminate_requested := True\<rparr>)
                  | AM_log \<Rightarrow>
                      (case pattern_format junk off (a_formatter h2) (fill_log_msg m fresh) of
                         Inl e \<Rightarrow> (Raises e, h2)
                       | Inr lm \<Rightarrow>
                           (case sinks_log (a_sinks h2) lm (world h2) of
                              (Some e, w) \<Rightarrow> (Raises e, h2\<lparr>world := w\<rparr>)
                            | (None, w) \<Rightarrow> (Goes_on True, h2\<lparr>world := w\<rparr>)))))
       (mpmc_dequeue (aq h))"

definition what :: "spd_error \<Rightarrow> string" where
  "what e = (case e of SpdlogEx s \<Rightarrow> s | Undefined \<Rightarrow> [])"

text \<open>One round of \<open>worker_loop\<close>, with what it does when the loop ends or an exception leaves it.\<close>

definition worker_round :: "char \<Rightarrow> int \<Rightarrow> log_msg \<Rightarrow> int \<Rightarrow> 'w async \<Rightarrow> 'w async option" where
  "worker_round junk off fresh now h =
     map_option (\<lambda>(r, h').
       case r of
         Goes_on True \<Rightarrow> h'
       | Goes_on False \<Rightarrow> h'\<lparr>worker_on := False\<rparr>
       | Raises e \<Rightarrow>
           h'\<lparr>worker_on := False, worker_ex := Some (''async_logger worker thread exception: '' @ what e)\<rparr>)
       (process_next_msg junk off fresh now h)"

section \<open>The asynchronous logger\<close>

text \<open>The fields of \<open>async_logger\<close> beside those of the plain logger are the helper's; its formatter is set in both.\<close>

record 'w async_logger =
  al_logger :: "'w logger"
  al_helper :: "'w async"

definition async_logger_new ::
  "string \<Rightarrow> 'w sink list \<Rightarrow> async_msg mpmc \<Rightarrow> overflow_policy \<Rightarrow> int \<Rightarrow> int \<Rightarrow> 'w \<Rightarrow> 'w async_logger" where
  "async_logger_new name sinks q pol interval now w =
     (let lg = logger_new name sinks
      in \<lparr>al_logger = lg, al_helper = async_log_helper (lg_formatter lg) (lg_sinks lg) q pol interval now w\<rparr>)"

definition async_logger_flush :: "async_msg \<Rightarrow> 'w async_logger \<Rightarrow> (push_result \<times> 'w async_logger) option" where
  "async_logger_flush junk al = map_option (\<lambda>(r, h). (r, al\<lparr>al_helper := h\<rparr>)) (helper_flush junk (al_helper al))"

definition async_logger_set_formatter :: "flag_formatter list \<Rightarrow> 'w async_logger \<Rightarrow> 'w async_logger" where
  "async_logger_set_formatter f al =
     al\<lparr>al_logger := (al_logger al)\<lparr>lg_formatter := f\<rparr>, al_helper := async_set_formatter f (al_helper al)\<rparr>"

definition async_logger_set_pattern :: "string \<Rightarrow> 'w async_logger \<Rightarrow> 'w async_logger" where
  "async_logger_set_pattern p al = async_logger_set_formatter (pattern_formatter p) al"

definition async_logger_log_msg :: "log_msg \<Rightarrow> 'w async_logger \<Rightarrow> (push_result \<times> 'w async_logger) option" where
  "async_logger_log_msg msg al = map_option (\<lambda>(r, h). (r, al\<lparr>al_helper := h\<rparr>)) (helper_log msg (al_helper al))"

section \<open>Callers and worker\<close>

text \<open>\<open>waiting t\<close> is the message that thread \<open>t\<close> tries to push again and again; \<open>accepted\<close> records the messages in
  the order in which they entered the queue.\<close>

record 'w asys =
  helper :: "'w async"
  waiting :: "nat \<Rightarrow> async_msg option"
  accepted :: "async_msg list"

inductive async_step :: "char \<Rightarrow> int \<Rightarrow> 'w asys \<Rightarrow> 'w asys \<Rightarrow> bool" for junk off where
  bad_worker: "waiting s t = None \<Longrightarrow> throw_if_bad_worker (helper s) = (Some e, h) \<Longrightarrow>
    async_step junk off s (s\<lparr>helper := h\<rparr>)"
| push: "waiting s t = None \<Longrightarrow> throw_if_bad_worker (helper s) = (None, h) \<Longrightarrow> try_push m h = Some (True, h') \<Longrightarrow>
    async_step junk off s (s\<lparr>helper := h', accepted := accepted s @ [m]\<rparr>)"
| discard: "waiting s t = None \<Longrightarrow> throw_if_bad_worker (helper s) = (None, h) \<Longrightarrow> try_push m h = Some (False, h') \<Longrightarrow>
    policy h = discard_log_msg \<Longrightarrow> async_step junk off s (s\<lparr>helper := h'\<rparr>)"
| block: "waiting s t = None \<Longrightarrow> throw_if_bad_worker (helper s) = (None, h) \<Longrightarrow> try_push m h = Some (False, h') \<Longrightarrow>
    policy h = block_retry \<Longrightarrow>
    async_step junk off s (s\<lparr>helper := h', waiting := (waiting s)(t \<mapsto> m)\<rparr>)"
| retry_push: "waiting s t = Some m \<Longrightarrow> try_push m (helper s) = Some (True, h') \<Longrightarrow>
    async_step junk off s (s\<lparr>helper := h', waiting := (waiting s)(t := None), accepted := accepted s @ [m]\<rparr>)"
| retry_full: "waiting s t = Some m \<Longrightarrow> try_push m (helper s) = Some (False, h') \<Longrightarrow>
    async_step junk off s (s\<lparr>helper := h'\<rparr>)"
| work: "worker_on (helper s) \<Longrightarrow> worker_round junk off fresh now (helper s) = Some h' \<Longrightarrow>
    async_step junk off s (s\<lparr>helper := h'\<rparr>)"

definition async_start ::
  "flag_formatter list \<Rightarrow> 'w sink list \<Rightarrow> async_msg mpmc \<Rightarrow> overflow_policy \<Rightarrow> int \<Rightarrow> int \<Rightarrow> 'w \<Rightarrow> 'w asys" where
  "async_start f sinks q pol interval now w =
     \<lparr>helper = async_log_helper f sinks q pol interval now w, waiting = (\<lambda>_. None), accepted = []\<rparr>"

inductive async_reachable :: "char \<Rightarrow> int \<Rightarrow> 'w asys \<Rightarrow> 'w asys \<Rightarrow> bool" for junk off s0 where
  start: "async_reachable junk off s0 s0"
| step: "async_reachable junk off s0 s \<Longrightarrow> async_step junk off s s' \<Longrightarrow> async_reachable junk off s0 s'"

section \<open>The worker\<close>

text \<open>The message that the worker hands to the formatter, and the lines of the messages in a list.\<close>

definition log_of :: "async_msg \<Rightarrow> log_msg" where
  "log_of m = \<lparr>logger_name = am_name m, msg_level = am_level m, time = am_time m, thread_id = am_tid m, raw = am_txt m,
     formatted = []\<rparr>"

definition async_lines :: "int \<Rightarrow> flag_formatter list \<Rightarrow> async_msg list \<Rightarrow> string" where
  "async_lines off f ms =
     concat (map (\<lambda>m. concat (map (flag_text off (log_of m)) f) @ eol) (filter (\<lambda>m. am_type m = AM_log) ms))"

lemma async_lines_append: "async_lines off f (xs @ ys) = async_lines off f xs @ async_lines off f ys"
  by (simp add: async_lines_def)

lemma fill_fresh: "fill_log_msg m fresh = log_of m"
  by (simp add: fill_log_msg_def log_msg_clear_def log_of_def)

text \<open>A sink that may also be flushed.\<close>

locale flush_sink = text_sink +
  assumes flush_keeps: "ok w \<Longrightarrow> ok (sk_flush sink w) \<and> written (sk_flush sink w) = written w"
begin

lemma worker_round_ok:
  assumes "mpmc_ok (aq h)" and "ok (world h)" and "a_sinks h = [sink]"
  shows "\<exists>h'. worker_round junk off fresh now h = Some h' \<and> mpmc_ok (aq h') \<and> mpmc_size (aq h') = mpmc_size (aq h)
    \<and> mpmc_items (aq h') = tl (mpmc_items (aq h)) \<and> ok (world h')
    \<and> written (world h') = written (world h) @ async_lines off (a_formatter h) (take 1 (mpmc_items (aq h)))
    \<and> a_formatter h' = a_formatter h \<and> a_sinks h' = [sink] \<and> policy h' = policy h \<and> worker_ex h' = worker_ex h
    \<and> (worker_on h' \<longleftrightarrow> worker_on h \<and> (mpmc_items (aq h) \<noteq> [] \<or> \<not> terminate_requested h))
    \<and> (terminate_requested h' \<longleftrightarrow> terminate_requested h
        \<or> mpmc_items (aq h) \<noteq> [] \<and> am_type (hd (mpmc_items (aq h))) = AM_terminate)"
proof -
  obtain q where q: "mpmc_dequeue (aq h) = Some (if mpmc_items (aq h) = [] then None else Some (hd (mpmc_items (aq h))), q)"
    "mpmc_ok q" "mpmc_size q = mpmc_size (aq h)" "mpmc_items q = tl (mpmc_items (aq h))"
    using mpmc_dequeue_list [OF assms(1)] by blast
  show ?thesis
  proof (cases "mpmc_items (aq h)")
    case Nil
    show ?thesis
      using q Nil assms flush_keeps [OF assms(2)]
      by (cases "terminate_requested h")
        (auto simp: worker_round_def process_next_msg_def handle_flush_interval_def Let_def async_lines_def)
  next
    case (Cons m ms)
    show ?thesis
    proof (cases "am_type m")
      case AM_log
      let ?lm = "(log_of m)\<lparr>formatted := formatted (log_of m) @ concat (map (flag_text off (log_of m)) (a_formatter h)) @ eol\<rparr>"
      obtain w where w: "sk_log sink ?lm (world h) = (None, w)" "ok w" "written w = written (world h) @ formatted ?lm"
        using log_appends [OF assms(2)] by blast
      then show ?thesis
        using q Cons assms(3) AM_log
        by (simp add: worker_round_def process_next_msg_def Let_def fill_fresh pattern_format_text async_lines_def)
          (simp add: log_of_def)
    qed (use q Cons assms in \<open>simp_all add: worker_round_def process_next_msg_def Let_def async_lines_def\<close>)
  qed
qed

end

section \<open>Runs\<close>

lemma throw_if_good_worker: "worker_ex h = None \<Longrightarrow> throw_if_bad_worker h = (None, h)"
  by (simp add: throw_if_bad_worker_def)

lemma try_push_list:
  assumes "mpmc_ok (aq h)"
  shows "\<exists>q. try_push m h = Some (length (mpmc_items (aq h)) < mpmc_size (aq h), h\<lparr>aq := q\<rparr>) \<and> mpmc_ok q
    \<and> mpmc_size q = mpmc_size (aq h)
    \<and> mpmc_items q = (if length (mpmc_items (aq h)) < mpmc_size (aq h) then mpmc_items (aq h) @ [m] else mpmc_items (aq h))"
  using mpmc_enqueue_list [OF assms, of m] by (auto simp: try_push_def)

text \<open>The rounds of the worker when no caller interferes.\<close>

fun worker_alone :: "char \<Rightarrow> int \<Rightarrow> log_msg \<Rightarrow> int list \<Rightarrow> 'w asys \<Rightarrow> 'w asys" where
  "worker_alone junk off fresh [] s = s"
| "worker_alone junk off fresh (now # nows) s =
     (if worker_on (helper s)
      then worker_alone junk off fresh nows (s\<lparr>helper := the (worker_round junk off fresh now (helper s))\<rparr>) else s)"

context flush_sink
begin

text \<open>Everything that entered the queue has been written, in order, or is still in the queue.\<close>

definition async_inv :: "int \<Rightarrow> flag_formatter list \<Rightarrow> string \<Rightarrow> 'a asys \<Rightarrow> bool" where
  "async_inv off f before s \<longleftrightarrow>
     mpmc_ok (aq (helper s)) \<and> ok (world (helper s)) \<and> a_sinks (helper s) = [sink] \<and> a_formatter (helper s) = f
     \<and> worker_ex (helper s) = None
     \<and> (\<exists>done. accepted s = done @ mpmc_items (aq (helper s))
          \<and> written (world (helper s)) = before @ async_lines off f done)"

lemma async_inv_push:
  assumes "async_inv off f before s" and "try_push m (helper s) = Some (b, h')"
  shows "async_inv off f before (s\<lparr>helper := h', accepted := accepted s @ (if b then [m] else [])\<rparr>)"
proof -
  obtain q where "try_push m (helper s) = Some (length (mpmc_items (aq (helper s))) < mpmc_size (aq (helper s)), (helper s)\<lparr>aq := q\<rparr>)"
    "mpmc_ok q" "mpmc_items q = (if length (mpmc_items (aq (helper s))) < mpmc_size (aq (helper s))
       then mpmc_items (aq (helper s)) @ [m] else mpmc_items (aq (helper s)))"
    using try_push_list [of "helper s" m] assms(1) by (auto simp: async_inv_def)
  moreover from this have "h' = (helper s)\<lparr>aq := q\<rparr>" "b \<longleftrightarrow> length (mpmc_items (aq (helper s))) < mpmc_size (aq (helper s))"
    using assms(2) by simp_all
  ultimately show ?thesis using assms(1) by (auto simp: async_inv_def)
qed

lemma async_inv_work:
  assumes "async_inv off f before s" and "worker_round junk off fresh now (helper s) = Some h'"
  shows "async_inv off f before (s\<lparr>helper := h'\<rparr>)"
proof -
  obtain d where d: "accepted s = d @ mpmc_items (aq (helper s))"
    "written (world (helper s)) = before @ async_lines off f d"
    and i: "mpmc_ok (aq (helper s))" "ok (world (helper s))" "a_sinks (helper s) = [sink]" "a_formatter (helper s) = f"
      "worker_ex (helper s) = None"
    using assms(1) by (auto simp: async_inv_def)
  have r: "mpmc_ok (aq h')" "mpmc_items (aq h') = tl (mpmc_items (aq (helper s)))" "ok (world h')"
    "written (world h') = written (world (helper s)) @ async_lines off f (take 1 (mpmc_items (aq (helper s))))"
    "a_formatter h' = f" "a_sinks h' = [sink]" "worker_ex h' = None"
    using worker_round_ok [OF i(1-3), of junk off fresh now] assms(2) i(4,5) by auto
  have "accepted s = (d @ take 1 (mpmc_items (aq (helper s)))) @ mpmc_items (aq h')"
    using d(1) r(2) by (cases "mpmc_items (aq (helper s))") simp_all
  moreover have "written (world h') = before @ async_lines off f (d @ take 1 (mpmc_items (aq (helper s))))"
    using d(2) r(4) by (simp add: async_lines_append)
  ultimately show ?thesis using r by (auto simp: async_inv_def)
qed

lemma async_inv_step:
  assumes "async_step junk off s s'" and "async_inv off f before s"
  shows "async_inv off f before s'"
proof -
  have h: "throw_if_bad_worker (helper s) = (None, helper s)" using assms(2) by (simp add: throw_if_good_worker async_inv_def)
  have w: "async_inv off f before (x\<lparr>waiting := wt\<rparr>) \<longleftrightarrow> async_inv off f before x" for x wt by (simp add: async_inv_def)
  from assms(1) show ?thesis
  proof cases
    case (work fresh now h')
    then show ?thesis using async_inv_work [OF assms(2)] by simp
  next
    case (push t h m h')
    then show ?thesis using async_inv_push [OF assms(2), of m True h'] h by simp
  next
    case (discard t h m h')
    then show ?thesis using async_inv_push [OF assms(2), of m False h'] h by simp
  next
    case (block t h m h')
    then show ?thesis using async_inv_push [OF assms(2), of m False h'] h w [where x = "s\<lparr>helper := h'\<rparr>"] by simp
  next
    case (retry_push t m h')
    then show ?thesis using async_inv_push [OF assms(2), of m True h'] by (simp add: async_inv_def)
  next
    case (retry_full t m h')
    then show ?thesis using async_inv_push [OF assms(2), of m False h'] by simp
  qed (use h in simp)
qed

lemma async_inv_reachable:
  assumes "async_reachable junk off s0 s" and "async_inv off f before s0"
  shows "async_inv off f before s"
  using assms by (induction rule: async_reachable.induct) (auto intro: async_inv_step)

lemma worker_drains:
  assumes "async_inv off f before s" and "worker_on (helper s)"
    and "terminate_requested (helper s) \<or> (\<exists>m \<in> set (mpmc_items (aq (helper s))). am_type m = AM_terminate)"
    and "length nows = length (mpmc_items (aq (helper s))) + 1"
  shows "let s' = worker_alone junk off fresh nows s
    in \<not> worker_on (helper s') \<and> mpmc_items (aq (helper s')) = [] \<and> accepted s' = accepted s
       \<and> written (world (helper s')) = before @ async_lines off f (accepted s)"
  using assms
proof (induction nows arbitrary: s)
  case (Cons now nows)
  have i: "mpmc_ok (aq (helper s))" "ok (world (helper s))" "a_sinks (helper s) = [sink]"
    using Cons.prems(1) by (simp_all add: async_inv_def)
  obtain h' where h': "worker_round junk off fresh now (helper s) = Some h'"
    "mpmc_items (aq h') = tl (mpmc_items (aq (helper s)))"
    "worker_on h' \<longleftrightarrow> worker_on (helper s) \<and> (mpmc_items (aq (helper s)) \<noteq> [] \<or> \<not> terminate_requested (helper s))"
    "terminate_requested h' \<longleftrightarrow> terminate_requested (helper s)
       \<or> mpmc_items (aq (helper s)) \<noteq> [] \<and> am_type (hd (mpmc_items (aq (helper s)))) = AM_terminate"
    using worker_round_ok [OF i, of junk off fresh now] by blast
  let ?s1 = "s\<lparr>helper := h'\<rparr>"
  have inv: "async_inv off f before ?s1" by (rule async_inv_work [OF Cons.prems(1) h'(1)])
  have alone: "worker_alone junk off fresh (now # nows) s = worker_alone junk off fresh nows ?s1"
    using Cons.prems(2) h'(1) by simp
  show ?case
  proof (cases "mpmc_items (aq (helper s))")
    case Nil
    then have n: "nows = []" "\<not> worker_on h'" "mpmc_items (aq h') = []" using Cons.prems h' by auto
    then show ?thesis using inv unfolding alone by (auto simp: async_inv_def)
  next
    case (Cons m ms)
    then have "worker_on (helper ?s1)" "length nows = length (mpmc_items (aq (helper ?s1))) + 1"
      "terminate_requested (helper ?s1) \<or> (\<exists>m \<in> set (mpmc_items (aq (helper ?s1))). am_type m = AM_terminate)"
      using Cons.prems(2-4) h'(2-4) by auto
    then show ?thesis using Cons.IH [OF inv] unfolding alone by simp
  qed
qed simp

end

interpretation async_stream: flush_sink "ostream_sink force" "\<lambda>_. True" os_text for force
  by unfold_locales (simp add: ostream_sink_def os_flush_def)

interpretation async_file: flush_sink file_sink "file_ok f" "file_text f" for f
  by unfold_locales (simp add: file_sink_def)

lemma async_file_start:
  assumes "mpmc_bounded_queue d n = Some q" and "file_ok f w"
  shows "async_file.async_inv f off fmt (file_text f w) (async_start fmt [file_sink] q pol interval now w)"
  using new_ok [OF assms(1)] assms(2)
  by (simp add: async_file.async_inv_def async_start_def async_log_helper_def async_lines_def)

text \<open>C3: However the calls of any number of threads and the rounds of the worker interleave, and whichever overflow policy
  is chosen, the log file of an asynchronous logger holds at every moment exactly the lines of the messages that
  left the queue, in the order in which they entered it: no accepted message is lost, written twice
  or overtaken by another.\<close>

theorem async_delivers_in_order:
  assumes "mpmc_bounded_queue d n = Some q" and "file_ok f w"
    and "async_reachable junk off (async_start fmt [file_sink] q pol interval now w) s"
  shows "\<exists>done. accepted s = done @ mpmc_items (aq (helper s))
    \<and> file_text f (world (helper s)) = file_text f w @ async_lines off fmt done"
  using async_file.async_inv_reachable [OF assms(3) async_file_start [OF assms(1,2)]]
  by (auto simp: async_file.async_inv_def)

text \<open>C4: Shutting down loses nothing: when the destructor has queued its terminate message, the worker on its own ends
  after one round per queued message and one more, and by then every accepted message is in the file.\<close>

theorem async_shutdown_drains:
  assumes "mpmc_bounded_queue d n = Some q" and "file_ok f w"
    and "async_reachable junk off (async_start fmt [file_sink] q pol interval now w) s"
    and "worker_on (helper s)" and "\<exists>m \<in> set (mpmc_items (aq (helper s))). am_type m = AM_terminate"
    and "length nows = length (mpmc_items (aq (helper s))) + 1"
  shows "let s' = worker_alone junk off fresh nows s
    in \<not> worker_on (helper s') \<and> mpmc_items (aq (helper s')) = [] \<and> accepted s' = accepted s
       \<and> file_text f (world (helper s')) = file_text f w @ async_lines off fmt (accepted s)"
  using async_file.worker_drains [OF async_file.async_inv_reachable [OF assms(3) async_file_start [OF assms(1,2)]] assms(4)]
    assms(5,6) by blast

section \<open>A worker that has failed\<close>

lemma no_worker_step:
  assumes "async_step junk off s s'" and "mpmc_ok (aq (helper s))" and "\<not> worker_on (helper s)"
    and "length (mpmc_items (aq (helper s))) = mpmc_size (aq (helper s))"
  shows "mpmc_ok (aq (helper s')) \<and> \<not> worker_on (helper s')
    \<and> length (mpmc_items (aq (helper s'))) = mpmc_size (aq (helper s')) \<and> accepted s' = accepted s
    \<and> (\<forall>t m. waiting s t = Some m \<longrightarrow> waiting s' t = Some m)"
proof -
  have full: "\<not> b \<and> mpmc_ok (aq h') \<and> \<not> worker_on h' \<and> length (mpmc_items (aq h')) = mpmc_size (aq h')"
    if "try_push m h = Some (b, h')" "aq h = aq (helper s)" "\<not> worker_on h" for m b h h'
    using try_push_list [of h m] that assms(2,4) by auto
  from assms(1) show ?thesis
  proof cases
    case (push t h m h')
    then show ?thesis using full [of m h True h'] assms(3) by (auto simp: throw_if_bad_worker_def)
  next
    case (discard t h m h')
    then show ?thesis using full [of m h False h'] assms(3) by (auto simp: throw_if_bad_worker_def)
  next
    case (block t h m h')
    then show ?thesis using full [of m h False h'] assms(3) by (auto simp: throw_if_bad_worker_def)
  next
    case (retry_push t m h')
    then show ?thesis using full [of m "helper s" True h'] assms(3) by auto
  next
    case (retry_full t m h')
    then show ?thesis using full [of m "helper s" False h'] assms(3) by auto
  qed (use assms(2-4) in \<open>auto simp: throw_if_bad_worker_def\<close>)
qed

text \<open>C30: Once the worker thread has ended with an exception, that exception is reported to one caller only. After that
  the callers fill a queue that nobody empties, and with the blocking policy a call on the full queue
  never returns: whatever else happens, its thread is still waiting.\<close>

theorem async_hangs_without_worker:
  assumes "mpmc_ok (aq (helper s))" and "\<not> worker_on (helper s)"
    and "length (mpmc_items (aq (helper s))) = mpmc_size (aq (helper s))" and "waiting s t = Some m"
    and "async_reachable junk off s s'"
  shows "waiting s' t = Some m \<and> accepted s' = accepted s"
proof -
  have "mpmc_ok (aq (helper s')) \<and> \<not> worker_on (helper s')
    \<and> length (mpmc_items (aq (helper s'))) = mpmc_size (aq (helper s')) \<and> waiting s' t = Some m \<and> accepted s' = accepted s"
    using assms(5)
  proof (induction rule: async_reachable.induct)
    case start
    then show ?case using assms(1-4) by simp
  next
    case (step s1 s2)
    then show ?case using no_worker_step [OF step(2)] by metis
  qed
  then show ?thesis by simp
qed


section \<open>Concrete runs\<close>

definition note_msg :: "string \<Rightarrow> async_msg" where
  "note_msg s = \<lparr>am_name = ''a'', am_level = L_info, am_time = 0, am_tid = 1, am_txt = s, am_type = AM_log\<rparr>"

definition stop_msg :: async_msg where
  "stop_msg = async_of_type (note_msg []) AM_terminate"

definition open_file :: "bool \<Rightarrow> file_helper \<times> fsys" where
  "open_file fl = (\<lparr>fd = Some ''a'', fh_filename = ''a'', force_flush = False\<rparr>, empty_fs\<lparr>full := fl\<rparr>)"

lemma small_queue: "\<exists>q. mpmc_bounded_queue d 2 = Some q"
  by (simp add: mpmc_bounded_queue_def)

lemma push_reachable:
  assumes "async_reachable junk off s0 s" and "mpmc_ok (aq (helper s))" and "worker_ex (helper s) = None"
    and "waiting s t = None" and "length (mpmc_items (aq (helper s))) < mpmc_size (aq (helper s))"
  shows "\<exists>q. async_reachable junk off s0 (s\<lparr>helper := (helper s)\<lparr>aq := q\<rparr>, accepted := accepted s @ [m]\<rparr>) \<and> mpmc_ok q
    \<and> mpmc_items q = mpmc_items (aq (helper s)) @ [m] \<and> mpmc_size q = mpmc_size (aq (helper s))"
proof -
  have h: "throw_if_bad_worker (helper s) = (None, helper s)" by (rule throw_if_good_worker [OF assms(3)])
  obtain q where q: "try_push m (helper s) = Some (True, (helper s)\<lparr>aq := q\<rparr>)" "mpmc_ok q"
    "mpmc_items q = mpmc_items (aq (helper s)) @ [m]" "mpmc_size q = mpmc_size (aq (helper s))"
    using try_push_list [OF assms(2), of m] assms(5) by auto
  then show ?thesis using async_reachable.step [OF assms(1) push [OF assms(4) h q(1)]] by blast
qed

text \<open>A message and the terminate message are queued; the worker writes the first and ends.\<close>

lemma queued_state:
  assumes "mpmc_bounded_queue d 2 = Some q"
  shows "\<exists>s. async_reachable (CHR ''?'') 0 (async_start [v_formatter] [file_sink] q pol 0 0 (open_file fl)) s
    \<and> mpmc_ok (aq (helper s)) \<and> mpmc_size (aq (helper s)) = 2 \<and> mpmc_items (aq (helper s)) = [note_msg ''x'', stop_msg]
    \<and> accepted s = [note_msg ''x'', stop_msg] \<and> worker_on (helper s) \<and> worker_ex (helper s) = None
    \<and> waiting s = (\<lambda>_. None) \<and> a_sinks (helper s) = [file_sink] \<and> world (helper s) = open_file fl \<and> policy (helper s) = pol
    \<and> a_formatter (helper s) = [v_formatter]"
proof -
  let ?s0 = "async_start [v_formatter] [file_sink] q pol 0 0 (open_file fl)"
  note q = new_ok [OF assms]
  obtain q1 where q1: "async_reachable (CHR ''?'') 0 ?s0 (?s0\<lparr>helper := (helper ?s0)\<lparr>aq := q1\<rparr>, accepted := [note_msg ''x'']\<rparr>)"
    "mpmc_ok q1" "mpmc_items q1 = [note_msg ''x'']" "mpmc_size q1 = 2"
    using push_reachable [OF async_reachable.start, where s = ?s0 and t = 0 and m = "note_msg ''x''"] q
    by (auto simp: async_start_def async_log_helper_def)
  obtain q2 where "async_reachable (CHR ''?'') 0 ?s0 (?s0\<lparr>helper := (helper ?s0)\<lparr>aq := q2\<rparr>, accepted := [note_msg ''x'', stop_msg]\<rparr>)"
    "mpmc_ok q2" "mpmc_items q2 = [note_msg ''x'', stop_msg]" "mpmc_size q2 = 2"
    using push_reachable [OF q1(1), where t = 0 and m = stop_msg] q1(2-4)
    by (auto simp: async_start_def async_log_helper_def)
  then show ?thesis
    by (intro exI [of _ "?s0\<lparr>helper := (helper ?s0)\<lparr>aq := q2\<rparr>, accepted := [note_msg ''x'', stop_msg]\<rparr>"])
      (simp add: async_start_def async_log_helper_def)
qed

lemma open_file_ok: "file_ok ''a'' (open_file False)" "file_text ''a'' (open_file fl) = []"
  by (simp_all add: file_ok_def file_text_def open_file_def empty_fs_def)

lemma note_lines: "async_lines 0 [v_formatter] [note_msg ''x'', stop_msg] = ''x'' @ eol"
  by (simp add: async_lines_def note_msg_def stop_msg_def async_of_type_def log_of_def)

theorem async_delivers_in_order_witness:
  "\<exists>q s done. async_reachable (CHR ''?'') 0 (async_start [v_formatter] [file_sink] q block_retry 0 0 (open_file False)) s
     \<and> [note_msg ''x'', stop_msg] = done @ mpmc_items (aq (helper s))
     \<and> file_text ''a'' (world (helper s)) = async_lines 0 [v_formatter] done"
proof -
  obtain q where q: "mpmc_bounded_queue (note_msg []) 2 = Some q" using small_queue [of "note_msg []"] by (elim exE)
  obtain s where s: "async_reachable (CHR ''?'') 0 (async_start [v_formatter] [file_sink] q block_retry 0 0 (open_file False)) s"
    "accepted s = [note_msg ''x'', stop_msg]"
    using queued_state [OF q, of block_retry False] by (elim exE conjE)
  obtain dn where dn: "accepted s = dn @ mpmc_items (aq (helper s))"
    "file_text ''a'' (world (helper s)) = file_text ''a'' (open_file False) @ async_lines 0 [v_formatter] dn"
    using async_delivers_in_order [OF q open_file_ok(1) s(1)] by (elim exE conjE)
  show ?thesis
    using s(1) dn [unfolded s(2) open_file_ok(2) append_Nil] by (intro exI conjI)
qed

theorem async_shutdown_drains_witness:
  "\<exists>q s. async_reachable (CHR ''?'') 0 (async_start [v_formatter] [file_sink] q block_retry 0 0 (open_file False)) s
     \<and> file_text ''a'' (world (helper (worker_alone (CHR ''?'') 0 (log_of stop_msg) [1, 2, 3] s))) = ''x'' @ eol"
proof -
  obtain q where q: "mpmc_bounded_queue (note_msg []) 2 = Some q" using small_queue [of "note_msg []"] by (elim exE)
  obtain s where s: "async_reachable (CHR ''?'') 0 (async_start [v_formatter] [file_sink] q block_retry 0 0 (open_file False)) s"
    "accepted s = [note_msg ''x'', stop_msg]" "mpmc_items (aq (helper s)) = [note_msg ''x'', stop_msg]" "worker_on (helper s)"
    using queued_state [OF q, of block_retry False] by (elim exE conjE)
  have st: "\<exists>m \<in> set (mpmc_items (aq (helper s))). am_type m = AM_terminate" "length [1, 2, 3 :: int] = length (mpmc_items (aq (helper s))) + 1"
    using s(3) by (simp_all add: stop_msg_def async_of_type_def)
  have "file_text ''a'' (world (helper (worker_alone (CHR ''?'') 0 (log_of stop_msg) [1, 2, 3] s))) = ''x'' @ eol"
    using async_shutdown_drains [OF q open_file_ok(1) s(1,4) st, of "log_of stop_msg"]
    unfolding Let_def s(2) open_file_ok(2) note_lines append_Nil by (elim conjE)
  with s(1) show ?thesis by (intro exI conjI)
qed

section \<open>A worker that fails\<close>

text \<open>On a full disk the round that takes a message ends the worker and leaves the exception.\<close>

lemma full_disk_round:
  assumes "mpmc_ok (aq h)" and "mpmc_items (aq h) = m # ms" and "am_type m = AM_log" and "a_sinks h = [file_sink]"
    and "fd (fst (world h)) = Some f" and "full (snd (world h))"
  shows "\<exists>q e. worker_round junk off fresh now h
      = Some (h\<lparr>aq := q, last_pop := now, worker_on := False, worker_ex := Some e\<rparr>)
    \<and> mpmc_ok q \<and> mpmc_size q = mpmc_size (aq h) \<and> mpmc_items q = ms"
proof -
  obtain q where q: "mpmc_dequeue (aq h) = Some (Some m, q)" "mpmc_ok q" "mpmc_size q = mpmc_size (aq h)" "mpmc_items q = ms"
    using mpmc_dequeue_list [OF assms(1)] assms(2) by auto
  let ?lm = "(log_of m)\<lparr>formatted := formatted (log_of m) @ concat (map (flag_text off (log_of m)) (a_formatter h)) @ eol\<rparr>"
  obtain e where e: "sk_log file_sink ?lm (world h) = (Some e, world h)"
    using assms(5,6) by (cases "world h") (simp add: file_sink_def simple_sink_it_def fh_write_def fwrite_def log_of_def eol_def)
  show ?thesis
    using q e assms(3,4)
    by (intro exI [of _ q] exI [of _ "''async_logger worker thread exception: '' @ what e"])
      (simp add: worker_round_def process_next_msg_def Let_def fill_fresh pattern_format_text)
qed

text \<open>The run: the worker fails at the first message and one caller is told. Another message fills the queue and
  the next call blocks.\<close>

lemma orphan_reachable:
  "\<exists>q s. async_reachable (CHR ''?'') 0 (async_start [v_formatter] [file_sink] q block_retry 0 0 (open_file True)) s
    \<and> mpmc_ok (aq (helper s)) \<and> \<not> worker_on (helper s)
    \<and> length (mpmc_items (aq (helper s))) = mpmc_size (aq (helper s)) \<and> waiting s 7 = Some (note_msg ''z'')"
proof -
  obtain q where q0: "mpmc_bounded_queue (note_msg []) 2 = Some q" using small_queue [of "note_msg []"] by (elim exE)
  let ?s0 = "async_start [v_formatter] [file_sink] q block_retry 0 0 (open_file True)"
  let ?R = "async_reachable (CHR ''?'') 0 ?s0"
  obtain s2 where s2: "?R s2" "mpmc_ok (aq (helper s2))" "mpmc_size (aq (helper s2)) = 2"
    "mpmc_items (aq (helper s2)) = [note_msg ''x'', stop_msg]" "worker_on (helper s2)" "waiting s2 = (\<lambda>_. None)"
    "a_sinks (helper s2) = [file_sink]" "world (helper s2) = open_file True" "policy (helper s2) = block_retry"
    using queued_state [OF q0, of block_retry True] by (elim exE conjE)
  obtain q3 e where q3: "worker_round (CHR ''?'') 0 (log_of stop_msg) 1 (helper s2)
      = Some ((helper s2)\<lparr>aq := q3, last_pop := 1, worker_on := False, worker_ex := Some e\<rparr>)"
    "mpmc_ok q3" "mpmc_size q3 = mpmc_size (aq (helper s2))" "mpmc_items q3 = [stop_msg]"
    using full_disk_round [OF s2(2,4) _ s2(7), of "''a''" "CHR ''?''" 0 "log_of stop_msg" 1] s2(8)
    by (auto simp: open_file_def note_msg_def)
  note R3 = async_reachable.step [OF s2(1) work [OF s2(5) q3(1)]]
  define s3 where "s3 = s2\<lparr>helper := (helper s2)\<lparr>aq := q3, last_pop := 1, worker_on := False, worker_ex := Some e\<rparr>\<rparr>"
  define s4 where "s4 = s3\<lparr>helper := (helper s3)\<lparr>worker_ex := None\<rparr>\<rparr>"
  have "async_step (CHR ''?'') 0 s3 s4"
    unfolding s4_def by (rule bad_worker [of s3 7 e]) (simp_all add: s3_def s2(6) throw_if_bad_worker_def)
  then have R4: "?R s4" using R3 unfolding s3_def [symmetric] by (rule async_reachable.step [rotated])
  have s4: "aq (helper s4) = q3" "worker_ex (helper s4) = None" "waiting s4 = (\<lambda>_. None)" "\<not> worker_on (helper s4)"
    "policy (helper s4) = block_retry"
    by (simp_all add: s4_def s3_def s2(6,9))
  obtain q5 where q5: "?R (s4\<lparr>helper := (helper s4)\<lparr>aq := q5\<rparr>, accepted := accepted s4 @ [note_msg ''y'']\<rparr>)"
    "mpmc_ok q5" "mpmc_items q5 = [stop_msg, note_msg ''y'']" "mpmc_size q5 = 2"
    using push_reachable [OF R4, of 7 "note_msg ''y''"] s4(1-3) q3(2-4) s2(3) by auto
  define s5 where "s5 = s4\<lparr>helper := (helper s4)\<lparr>aq := q5\<rparr>, accepted := accepted s4 @ [note_msg ''y'']\<rparr>"
  obtain q6 where q6: "try_push (note_msg ''z'') (helper s5) = Some (False, (helper s5)\<lparr>aq := q6\<rparr>)"
    "mpmc_ok q6" "mpmc_items q6 = [stop_msg, note_msg ''y'']" "mpmc_size q6 = 2"
    using try_push_list [of "helper s5" "note_msg ''z''"] q5(2-4) by (auto simp: s5_def)
  have "async_step (CHR ''?'') 0 s5 (s5\<lparr>helper := (helper s5)\<lparr>aq := q6\<rparr>, waiting := (waiting s5)(7 \<mapsto> note_msg ''z'')\<rparr>)"
    by (rule block [OF _ _ q6(1)]) (simp_all add: s5_def s4 throw_if_bad_worker_def)
  from async_reachable.step [OF q5(1) [folded s5_def] this] show ?thesis
    using q6(2-4) s4(4) by (intro exI conjI) (assumption | simp add: s5_def)+
qed

theorem async_hangs_without_worker_witness:
  "\<exists>q s. async_reachable (CHR ''?'') 0 (async_start [v_formatter] [file_sink] q block_retry 0 0 (open_file True)) s
     \<and> (\<forall>s'. async_reachable (CHR ''?'') 0 s s' \<longrightarrow> waiting s' 7 = Some (note_msg ''z'') \<and> accepted s' = accepted s)"
proof -
  obtain q s where s: "async_reachable (CHR ''?'') 0 (async_start [v_formatter] [file_sink] q block_retry 0 0 (open_file True)) s"
    "mpmc_ok (aq (helper s))" "\<not> worker_on (helper s)"
    "length (mpmc_items (aq (helper s))) = mpmc_size (aq (helper s))" "waiting s 7 = Some (note_msg ''z'')"
    using orphan_reachable by (elim exE conjE)
  have "\<forall>s'. async_reachable (CHR ''?'') 0 s s' \<longrightarrow> waiting s' 7 = Some (note_msg ''z'') \<and> accepted s' = accepted s"
    by (intro allI impI) (rule async_hangs_without_worker [OF s(2-5)])
  with s(1) show ?thesis by (intro exI conjI)
qed

section \<open>The destructor\<close>

text \<open>A call of \<open>push_msg\<close> is a step of the run, whatever its result.\<close>

definition pushed :: "nat \<Rightarrow> async_msg \<Rightarrow> push_result \<Rightarrow> 'w async \<Rightarrow> 'w asys \<Rightarrow> 'w asys" where
  "pushed t m r h s =
     (case r of
        Threw _ \<Rightarrow> s\<lparr>helper := h\<rparr>
      | Pushed \<Rightarrow> s\<lparr>helper := h, accepted := accepted s @ [m]\<rparr>
      | Discarded \<Rightarrow> s\<lparr>helper := h\<rparr>
      | Blocked \<Rightarrow> s\<lparr>helper := h, waiting := (waiting s)(t \<mapsto> m)\<rparr>)"

lemma push_msg_step:
  assumes "waiting s t = None" and "push_msg m (helper s) = Some (r, h)"
  shows "async_step junk off s (pushed t m r h s)"
proof (cases "worker_ex (helper s)")
  case (Some e)
  then show ?thesis
    using assms bad_worker [OF assms(1), of e "(helper s)\<lparr>worker_ex := None\<rparr>"]
    by (auto simp: push_msg_def throw_if_bad_worker_def pushed_def)
next
  case None
  then have th: "throw_if_bad_worker (helper s) = (None, helper s)" by (rule throw_if_good_worker)
  then obtain b where b: "try_push m (helper s) = Some (b, h)"
    "r = (if b then Pushed else if policy h = discard_log_msg then Discarded else Blocked)"
    using assms(2) by (auto simp: push_msg_def)
  moreover have "policy h = policy (helper s)" using b(1) by (auto simp: try_push_def)
  moreover have "policy h = block_retry" if "policy h \<noteq> discard_log_msg" using that by (cases "policy h") simp_all
  ultimately show ?thesis
    using push [OF assms(1) th, of m h] discard [OF assms(1) th, of m h] block [OF assms(1) th, of m h]
    by (cases b) (auto simp: pushed_def)
qed

text \<open>The destructor of a helper whose worker has failed, when nobody was told of it.\<close>

lemma destroy_after_failure: "worker_ex h = Some e \<Longrightarrow> \<exists>h'. helper_destroy junk h = Some (Std_terminate, h')"
  by (simp add: helper_destroy_def push_msg_def throw_if_bad_worker_def)

lemma sleep_or_yield_bounded: "sleep_or_yield now t = Sleep d \<Longrightarrow> 5000000 \<le> d \<and> d \<le> 100000000"
  by (auto simp: sleep_or_yield_def Let_def split: if_splits)

context flush_sink
begin

lemma worker_never_ends:
  assumes "async_inv off f before s" and "worker_on (helper s)" and "\<not> terminate_requested (helper s)"
    and "\<forall>m \<in> set (mpmc_items (aq (helper s))). am_type m \<noteq> AM_terminate"
  shows "worker_on (helper (worker_alone junk off fresh nows s))"
  using assms
proof (induction nows arbitrary: s)
  case (Cons now nows)
  have i: "mpmc_ok (aq (helper s))" "ok (world (helper s))" "a_sinks (helper s) = [sink]"
    using Cons.prems(1) by (simp_all add: async_inv_def)
  obtain h' where h': "worker_round junk off fresh now (helper s) = Some h'"
    "mpmc_items (aq h') = tl (mpmc_items (aq (helper s)))" "worker_on h'" "\<not> terminate_requested h'"
    using worker_round_ok [OF i, of junk off fresh now] Cons.prems(2-4) by (metis hd_in_set)
  have "\<forall>m \<in> set (mpmc_items (aq h')). am_type m \<noteq> AM_terminate"
    using Cons.prems(4) h'(2) list.set_sel(2) by (metis tl_Nil)
  then show ?case
    using Cons.IH [OF async_inv_work [OF Cons.prems(1) h'(1)]] h' Cons.prems(2) by simp
qed simp

end

text \<open>With the policy that discards messages the destructor may wait forever: when the queue is full, its terminate
  message is discarded like any other, the destructor goes on to join the worker, and the worker writes the
  queued messages but never ends.\<close>

theorem async_destructor_hangs:
  assumes "mpmc_bounded_queue d n = Some q" and "file_ok f w"
    and "async_reachable junk off (async_start fmt [file_sink] q pol interval now w) s"
    and "policy (helper s) = discard_log_msg" and "worker_on (helper s)" and "\<not> terminate_requested (helper s)"
    and "\<forall>m \<in> set (mpmc_items (aq (helper s))). am_type m \<noteq> AM_terminate"
    and "length (mpmc_items (aq (helper s))) = mpmc_size (aq (helper s))"
  shows "\<exists>h. helper_destroy dflt (helper s) = Some (Joins, h)
    \<and> (\<forall>nows. worker_on (helper (worker_alone junk off fresh nows (s\<lparr>helper := h\<rparr>))))"
proof -
  note i = async_file.async_inv_reachable [OF assms(3) async_file_start [OF assms(1,2)]]
  let ?m = "async_of_type dflt AM_terminate"
  have ok: "mpmc_ok (aq (helper s))" "worker_ex (helper s) = None" using i by (simp_all add: async_file.async_inv_def)
  obtain q' where q': "try_push ?m (helper s) = Some (False, (helper s)\<lparr>aq := q'\<rparr>)" "mpmc_items q' = mpmc_items (aq (helper s))"
    using try_push_list [OF ok(1), of ?m] assms(8) by auto
  let ?s = "s\<lparr>helper := (helper s)\<lparr>aq := q'\<rparr>\<rparr>"
  have "async_file.async_inv f off fmt (file_text f w) ?s"
    using async_file.async_inv_push [OF i q'(1)] by simp
  then have "worker_on (helper (worker_alone junk off fresh nows ?s))" for nows
    by (rule async_file.worker_never_ends) (use assms(5-7) q'(2) in simp_all)
  then show ?thesis
    using q'(1) assms(4) throw_if_good_worker [OF ok(2)]
    by (intro exI [of _ "(helper s)\<lparr>aq := q'\<rparr>"]) (simp add: helper_destroy_def push_msg_def)
qed

theorem async_destructor_hangs_witness:
  "\<exists>q s h. async_reachable (CHR ''?'') 0 (async_start [v_formatter] [file_sink] q discard_log_msg 0 0 (open_file False)) s
     \<and> helper_destroy stop_msg (helper s) = Some (Joins, h)
     \<and> (\<forall>nows. worker_on (helper (worker_alone (CHR ''?'') 0 (log_of stop_msg) nows (s\<lparr>helper := h\<rparr>))))"
proof -
  obtain q where q0: "mpmc_bounded_queue (note_msg []) 2 = Some q" using small_queue [of "note_msg []"] by (elim exE)
  let ?s0 = "async_start [v_formatter] [file_sink] q discard_log_msg 0 0 (open_file False)"
  obtain q1 where q1: "async_reachable (CHR ''?'') 0 ?s0 (?s0\<lparr>helper := (helper ?s0)\<lparr>aq := q1\<rparr>, accepted := [note_msg ''x'']\<rparr>)"
    "mpmc_ok q1" "mpmc_items q1 = [note_msg ''x'']" "mpmc_size q1 = 2"
    using push_reachable [OF async_reachable.start, where s = ?s0 and t = 0 and m = "note_msg ''x''"] new_ok [OF q0]
    by (auto simp: async_start_def async_log_helper_def)
  obtain q2 where q2: "async_reachable (CHR ''?'') 0 ?s0
      (?s0\<lparr>helper := (helper ?s0)\<lparr>aq := q2\<rparr>, accepted := [note_msg ''x'', note_msg ''y'']\<rparr>)" (is "async_reachable _ _ _ ?s2")
    "mpmc_ok q2" "mpmc_items q2 = [note_msg ''x'', note_msg ''y'']" "mpmc_size q2 = 2"
    using push_reachable [OF q1(1), where t = 0 and m = "note_msg ''y''"] q1(2-4)
    by (auto simp: async_start_def async_log_helper_def)
  have s: "policy (helper ?s2) = discard_log_msg" "worker_on (helper ?s2)" "\<not> terminate_requested (helper ?s2)"
    "\<forall>m \<in> set (mpmc_items (aq (helper ?s2))). am_type m \<noteq> AM_terminate"
    "length (mpmc_items (aq (helper ?s2))) = mpmc_size (aq (helper ?s2))"
    using q2(3,4) by (simp_all add: async_start_def async_log_helper_def note_msg_def)
  obtain h where "helper_destroy stop_msg (helper ?s2) = Some (Joins, h)"
    "\<forall>nows. worker_on (helper (worker_alone (CHR ''?'') 0 (log_of stop_msg) nows (?s2\<lparr>helper := h\<rparr>)))"
    using async_destructor_hangs [OF q0 open_file_ok(1) q2(1) s, of stop_msg "log_of stop_msg"] by (elim exE conjE)
  with q2(1) show ?thesis by (intro exI conjI)
qed

end
