(* ===== verification/SpdRegistry.thy ===== *)
theory SpdRegistry
  imports SpdAsync "HOL-Library.AList"
begin

text \<open>
  The registry of loggers (\<open>details/registry.h\<close>, \<open>details/spdlog_impl.h\<close>) and the sinks it is used with
  (\<open>sinks/dist_sink.h\<close>, \<open>sinks/stdout_sinks.h\<close>, \<open>sinks/syslog_sink.h\<close>).

  Loggers are shared objects: the registry keeps them in a list and refers to them by index. Of an asynchronous
  logger it holds what its helper is created with; the running helper is the subject of \<open>SpdAsync\<close>, and
  its formatter is always that of the logger. The lock of the registry makes each operation atomic.
\<close>

section \<open>Sinks\<close>

text \<open>What the sinks act on: the file objects by address, the file system, the standard streams, the system log
  and the clock.\<close>

record sink_world =
  sw_files :: fsys
  sw_rot :: "rotating_sink list"
  sw_daily :: "daily_sink list"
  sw_out :: ostream
  sw_err :: ostream
  sw_syslog :: "(nat \<times> string) list"
  sw_now :: int
  sw_off :: int

text \<open>A sink that acts on a part of the world.\<close>

definition part_sink :: "('w \<Rightarrow> 'p) \<Rightarrow> ('p \<Rightarrow> 'w \<Rightarrow> 'w) \<Rightarrow> 'p sink \<Rightarrow> 'w sink" where
  "part_sink get put s =
     \<lparr>sk_log = (\<lambda>msg w. let (e, p) = sk_log s msg (get w) in (e, put p w)), sk_flush = (\<lambda>w. put (sk_flush s (get w)) w)\<rparr>"

definition rot_at :: "nat \<Rightarrow> sink_world sink" where
  "rot_at i = part_sink (\<lambda>w. (sw_rot w ! i, sw_files w)) (\<lambda>(r, fs) w. w\<lparr>sw_rot := (sw_rot w)[i := r], sw_files := fs\<rparr>) rotating_sink_obj"

definition daily_at :: "nat \<Rightarrow> sink_world sink" where
  "daily_at i =
     \<lparr>sk_log = (\<lambda>msg w. let (e, d, fs) = daily_sink_it (sw_off w) (sw_now w) msg (sw_daily w ! i, sw_files w)
                         in (e, w\<lparr>sw_daily := (sw_daily w)[i := d], sw_files := fs\<rparr>)),
      sk_flush = (\<lambda>w. w)\<rparr>"

definition stdout_sink :: "sink_world sink" where
  "stdout_sink = part_sink sw_out (\<lambda>st w. w\<lparr>sw_out := st\<rparr>) (ostream_sink True)"

definition stderr_sink :: "sink_world sink" where
  "stderr_sink = part_sink sw_err (\<lambda>st w. w\<lparr>sw_err := st\<rparr>) (ostream_sink True)"

text \<open>The priorities of \<open>syslog.h\<close>: emergency 0, alert 1, critical 2, error 3, warning 4, notice 5, info 6, debug 7.\<close>

definition priorities :: "nat list" where
  "priorities = [7, 7, 6, 5, 4, 3, 2, 1, 0, 6]"

definition syslog_prio_from_level :: "log_msg \<Rightarrow> nat" where
  "syslog_prio_from_level msg = priorities ! level_value (msg_level msg)"

definition syslog_sink :: "sink_world sink" where
  "syslog_sink =
     \<lparr>sk_log = (\<lambda>msg w. (None, w\<lparr>sw_syslog := sw_syslog w @ [(syslog_prio_from_level msg, takeWhile (\<lambda>c. c \<noteq> CHR 0x00) (raw msg))]\<rparr>)),
      sk_flush = (\<lambda>w. w)\<rparr>"

text \<open>\<open>dist_sink\<close> holds pointers to other sinks: addresses into the table \<open>tb\<close>; \<open>None\<close> is the null pointer.\<close>

type_synonym dist_sink = "nat list"

definition dist_sink_it :: "(nat \<Rightarrow> 'w sink) \<Rightarrow> dist_sink \<Rightarrow> log_msg \<Rightarrow> 'w \<Rightarrow> spd_error option \<times> 'w" where
  "dist_sink_it tb d msg w = sinks_log (map tb d) msg w"

definition dist_flush :: "(nat \<Rightarrow> 'w sink) \<Rightarrow> dist_sink \<Rightarrow> 'w \<Rightarrow> 'w" where
  "dist_flush tb d w = fold (\<lambda>a. sk_flush (tb a)) d w"

definition add_sink :: "nat option \<Rightarrow> dist_sink \<Rightarrow> dist_sink" where
  "add_sink p d = (case p of None \<Rightarrow> d | Some a \<Rightarrow> if a \<in> set d then d else d @ [a])"

definition remove_sink :: "nat option \<Rightarrow> dist_sink \<Rightarrow> dist_sink" where
  "remove_sink p d = (case p of None \<Rightarrow> d | Some a \<Rightarrow> remove1 a d)"

section \<open>The registry\<close>

record 'w reg_logger =
  rl_logger :: "'w logger"
  rl_async :: "(nat \<times> overflow_policy \<times> int) option"

record 'w registry =
  objs :: "'w reg_logger list"
  loggers :: "(string \<times> nat) list"
  reg_formatter :: "flag_formatter list option"
  reg_level :: level_enum
  async_mode :: bool
  async_q_size :: nat
  reg_policy :: overflow_policy
  reg_interval :: int

text \<open>The single instance at the start; \<open>interval\<close> is the member that has no initialiser.\<close>

definition registry_new :: "int \<Rightarrow> 'w registry" where
  "registry_new interval =
     \<lparr>objs = [], loggers = [], reg_formatter = None, reg_level = L_info, async_mode = False, async_q_size = 0,
      reg_policy = block_retry, reg_interval = interval\<rparr>"

definition rl_set_formatter :: "flag_formatter list \<Rightarrow> 'w reg_logger \<Rightarrow> 'w reg_logger" where
  "rl_set_formatter f l = l\<lparr>rl_logger := set_formatter f (rl_logger l)\<rparr>"

definition rl_set_level :: "level_enum \<Rightarrow> 'w reg_logger \<Rightarrow> 'w reg_logger" where
  "rl_set_level lv l = l\<lparr>rl_logger := set_level lv (rl_logger l)\<rparr>"

definition logger_at :: "'w registry \<Rightarrow> nat \<Rightarrow> 'w logger" where
  "logger_at r a = rl_logger (objs r ! a)"

definition register_logger_impl :: "nat \<Rightarrow> 'w registry \<Rightarrow> spd_error option \<times> 'w registry" where
  "register_logger_impl a r =
     (let name = lg_name (logger_at r a)
      in if map_of (loggers r) name \<noteq> None then (Some (SpdlogEx (''logger with name '' @ name @ '' already exists'')), r)
         else (None, r\<lparr>loggers := AList.update name a (loggers r)\<rparr>))"

definition register_logger :: "nat \<Rightarrow> 'w registry \<Rightarrow> spd_error option \<times> 'w registry" where
  "register_logger a r = register_logger_impl a r"

definition reg_get :: "string \<Rightarrow> 'w registry \<Rightarrow> nat option" where
  "reg_get name r = map_of (loggers r) name"

text \<open>A new object; the queue of an asynchronous one throws when its size is not a power of two.\<close>

definition new_object :: "string \<Rightarrow> 'w sink list \<Rightarrow> 'w registry \<Rightarrow> spd_error + 'w reg_logger" where
  "new_object name sinks r =
     (if async_mode r
      then (if mpmc_bounded_queue () (async_q_size r) = None
            then Inl (SpdlogEx ''async logger queue size must be power of two'')
            else Inr \<lparr>rl_logger = logger_new name sinks, rl_async = Some (async_q_size r, reg_policy r, reg_interval r)\<rparr>)
      else Inr \<lparr>rl_logger = logger_new name sinks, rl_async = None\<rparr>)"

definition reg_create :: "string \<Rightarrow> 'w sink list \<Rightarrow> 'w registry \<Rightarrow> (spd_error + nat) \<times> 'w registry" where
  "reg_create name sinks r =
     (case new_object name sinks r of
        Inl e \<Rightarrow> (Inl e, r)
      | Inr l0 \<Rightarrow>
          let l1 = (case reg_formatter r of None \<Rightarrow> l0 | Some f \<Rightarrow> rl_set_formatter f l0);
              l2 = rl_set_level (reg_level r) l1;
              a = length (objs r)
          in case register_logger_impl a (r\<lparr>objs := objs r @ [l2]\<rparr>) of
               (Some e, r') \<Rightarrow> (Inl e, r')
             | (None, r') \<Rightarrow> (Inr a, r'))"

definition reg_drop :: "string \<Rightarrow> 'w registry \<Rightarrow> 'w registry" where
  "reg_drop name r = r\<lparr>loggers := AList.delete name (loggers r)\<rparr>"

definition reg_drop_all :: "'w registry \<Rightarrow> 'w registry" where
  "reg_drop_all r = r\<lparr>loggers := []\<rparr>"

text \<open>The loop over the registered loggers.\<close>

definition each_logger :: "('w reg_logger \<Rightarrow> 'w reg_logger) \<Rightarrow> 'w registry \<Rightarrow> 'w registry" where
  "each_logger f r =
     r\<lparr>objs := map (\<lambda>i. if i \<in> snd ` set (loggers r) then f (objs r ! i) else objs r ! i) [0..<length (objs r)]\<rparr>"

definition reg_set_formatter :: "flag_formatter list \<Rightarrow> 'w registry \<Rightarrow> 'w registry" where
  "reg_set_formatter f r = each_logger (rl_set_formatter f) (r\<lparr>reg_formatter := Some f\<rparr>)"

definition reg_set_pattern :: "string \<Rightarrow> 'w registry \<Rightarrow> 'w registry" where
  "reg_set_pattern p r =
     (let f = pattern_formatter p in each_logger (rl_set_formatter f) (r\<lparr>reg_formatter := Some f\<rparr>))"

definition reg_set_level :: "level_enum \<Rightarrow> 'w registry \<Rightarrow> 'w registry" where
  "reg_set_level lv r = (each_logger (rl_set_level lv) r)\<lparr>reg_level := lv\<rparr>"

definition set_async_mode :: "nat \<Rightarrow> overflow_policy \<Rightarrow> int \<Rightarrow> 'w registry \<Rightarrow> 'w registry" where
  "set_async_mode n pol interval r =
     r\<lparr>async_mode := True, async_q_size := n, reg_policy := pol, reg_interval := interval\<rparr>"

definition set_sync_mode :: "'w registry \<Rightarrow> 'w registry" where
  "set_sync_mode r = r\<lparr>async_mode := False\<rparr>"

text \<open>A logger that the program creates without the registry.\<close>

definition make_logger :: "string \<Rightarrow> 'w sink list \<Rightarrow> 'w registry \<Rightarrow> nat \<times> 'w registry" where
  "make_logger name sinks r =
     (length (objs r), r\<lparr>objs := objs r @ [\<lparr>rl_logger = logger_new name sinks, rl_async = None\<rparr>]\<rparr>)"

section \<open>Factory functions\<close>

text \<open>The sink is constructed first; when it throws, the world is as before the call, but for the attempts.\<close>

definition rotating_logger ::
  "string \<Rightarrow> string \<Rightarrow> nat \<Rightarrow> nat \<Rightarrow> bool \<Rightarrow> string \<Rightarrow> sink_world registry \<times> sink_world
    \<Rightarrow> (spd_error + nat) \<times> sink_world registry \<times> sink_world" where
  "rotating_logger name filename max_file_size mfiles flush suffix rw =
     (let (r, w) = rw
      in case rotating_file_sink filename suffix max_file_size mfiles flush (sw_files w) of
           Inl e \<Rightarrow> (Inl e, r, w)
         | Inr (s, fs) \<Rightarrow>
             let (res, r') = reg_create name [rot_at (length (sw_rot w))] r
             in (res, r', w\<lparr>sw_files := fs, sw_rot := sw_rot w @ [s]\<rparr>))"

definition daily_logger ::
  "string \<Rightarrow> string \<Rightarrow> int \<Rightarrow> int \<Rightarrow> bool \<Rightarrow> sink_world registry \<times> sink_world
    \<Rightarrow> (spd_error + nat) \<times> sink_world registry \<times> sink_world" where
  "daily_logger name filename h m flush rw =
     (let (r, w) = rw
      in case daily_file_sink (sw_off w) (sw_now w) filename ''txt'' h m flush (sw_files w) of
           Inl e \<Rightarrow> (Inl e, r, w)
         | Inr (s, fs) \<Rightarrow>
             let (res, r') = reg_create name [daily_at (length (sw_daily w))] r
             in (res, r', w\<lparr>sw_files := fs, sw_daily := sw_daily w @ [s]\<rparr>))"

definition stdout_logger :: "string \<Rightarrow> sink_world registry \<Rightarrow> (spd_error + nat) \<times> sink_world registry" where
  "stdout_logger name r = reg_create name [stdout_sink] r"

definition stderr_logger :: "string \<Rightarrow> sink_world registry \<Rightarrow> (spd_error + nat) \<times> sink_world registry" where
  "stderr_logger name r = reg_create name [stderr_sink] r"

definition syslog_logger :: "string \<Rightarrow> sink_world registry \<Rightarrow> (spd_error + nat) \<times> sink_world registry" where
  "syslog_logger name r = reg_create name [syslog_sink] r"

section \<open>The state of the registry\<close>

text \<open>Every name of the table belongs to one object, which bears that name.\<close>

definition reg_ok :: "'w registry \<Rightarrow> bool" where
  "reg_ok r \<longleftrightarrow> distinct (map fst (loggers r))
     \<and> (\<forall>(n, a) \<in> set (loggers r). a < length (objs r) \<and> lg_name (logger_at r a) = n)"

text \<open>The settings of the registry are those of each of its loggers.\<close>

definition settings :: "'w registry \<Rightarrow> level_enum \<times> flag_formatter list" where
  "settings r = (reg_level r, case reg_formatter r of None \<Rightarrow> pattern_formatter ''%+'' | Some f \<Rightarrow> f)"

definition uniform :: "'w registry \<Rightarrow> bool" where
  "uniform r \<longleftrightarrow> (\<forall>(n, a) \<in> set (loggers r). (lg_level (logger_at r a), lg_formatter (logger_at r a)) = settings r)"

lemma logger_at_append:
  "a < length (objs r) \<Longrightarrow> logger_at (r\<lparr>objs := objs r @ xs\<rparr>) a = logger_at r a"
  by (simp add: logger_at_def nth_append)

lemma each_logger_simps [simp]:
  "length (objs (each_logger f r)) = length (objs r)" "loggers (each_logger f r) = loggers r"
  "reg_level (each_logger f r) = reg_level r" "reg_formatter (each_logger f r) = reg_formatter r"
  by (simp_all add: each_logger_def)

lemma logger_at_each:
  "a < length (objs r) \<Longrightarrow> (n, a) \<in> set (loggers r) \<Longrightarrow> logger_at (each_logger f r) a = rl_logger (f (objs r ! a))"
  by (force simp: logger_at_def each_logger_def)

lemma reg_ok_bound: "reg_ok r \<Longrightarrow> (n, a) \<in> set (loggers r) \<Longrightarrow> a < length (objs r) \<and> lg_name (logger_at r a) = n"
  by (auto simp: reg_ok_def)

lemma reg_ok_each:
  assumes "reg_ok r" and "\<And>l. lg_name (rl_logger (f l)) = lg_name (rl_logger l)"
  shows "reg_ok (each_logger f r)"
proof -
  have "lg_name (logger_at (each_logger f r) a) = n" if "(n, a) \<in> set (loggers r)" for n a
    using reg_ok_bound [OF assms(1) that] logger_at_each [OF _ that] by (simp add: assms(2) logger_at_def)
  then show ?thesis using reg_ok_bound [OF assms(1)] assms(1) by (auto simp: reg_ok_def)
qed

lemma reg_ok_cong: "objs r' = objs r \<Longrightarrow> loggers r' = loggers r \<Longrightarrow> reg_ok r' = reg_ok r"
  by (simp add: reg_ok_def logger_at_def)

lemma update_fresh: "map_of xs k = None \<Longrightarrow> AList.update k v xs = xs @ [(k, v)]"
  by (induction xs) (auto split: if_splits)

lemma map_of_None_iff: "map_of xs k = None \<longleftrightarrow> k \<notin> fst ` set xs"
  by (simp add: map_of_eq_None_iff)

lemma register_logger_impl_eq:
  "register_logger_impl a r =
     (if lg_name (logger_at r a) \<in> fst ` set (loggers r)
      then (Some (SpdlogEx (''logger with name '' @ lg_name (logger_at r a) @ '' already exists'')), r)
      else (None, r\<lparr>loggers := loggers r @ [(lg_name (logger_at r a), a)]\<rparr>))"
  using map_of_None_iff [of "loggers r" "lg_name (logger_at r a)"]
  by (simp add: register_logger_impl_def Let_def update_fresh del: not_None_eq)

lemma reg_ok_register:
  assumes "reg_ok r" and "a < length (objs r)"
  shows "reg_ok (snd (register_logger_impl a r))"
  using assms by (auto simp: reg_ok_def register_logger_impl_eq logger_at_def)

lemma reg_ok_append: "reg_ok r \<Longrightarrow> reg_ok (r\<lparr>objs := objs r @ xs\<rparr>)"
  by (force simp: reg_ok_def logger_at_append)

text \<open>What \<open>create\<close> does: it fails for a name in use and for a queue size that is no power of two, and otherwise
  the new logger has the settings of the registry and is found under its name.\<close>

definition created :: "string \<Rightarrow> 'w sink list \<Rightarrow> 'w registry \<Rightarrow> 'w reg_logger" where
  "created name sinks r =
     \<lparr>rl_logger = \<lparr>lg_name = name, lg_sinks = sinks, lg_formatter = snd (settings r), lg_level = fst (settings r)\<rparr>,
      rl_async = (if async_mode r then Some (async_q_size r, reg_policy r, reg_interval r) else None)\<rparr>"

definition bad_queue :: "'w registry \<Rightarrow> bool" where
  "bad_queue r \<longleftrightarrow> async_mode r \<and> mpmc_bounded_queue () (async_q_size r) = None"

lemma reg_create_eq:
  "reg_create name sinks r =
     (if bad_queue r then (Inl (SpdlogEx ''async logger queue size must be power of two''), r)
      else
        let r1 = r\<lparr>objs := objs r @ [created name sinks r]\<rparr>
        in if name \<in> fst ` set (loggers r)
           then (Inl (SpdlogEx (''logger with name '' @ name @ '' already exists'')), r1)
           else (Inr (length (objs r)), r1\<lparr>loggers := loggers r @ [(name, length (objs r))]\<rparr>))"
proof (cases "bad_queue r")
  case False
  have n: "lg_name (logger_at (r\<lparr>objs := objs r @ [created name sinks r]\<rparr>) (length (objs r))) = name"
    by (simp add: logger_at_def created_def)
  obtain l0 where l0: "new_object name sinks r = Inr l0"
    using False by (cases "async_mode r") (simp_all add: new_object_def bad_queue_def)
  then have c: "rl_set_level (reg_level r) (case reg_formatter r of None \<Rightarrow> l0 | Some f \<Rightarrow> rl_set_formatter f l0)
    = created name sinks r"
    by (auto simp: new_object_def rl_set_level_def rl_set_formatter_def set_level_def set_formatter_def created_def
        settings_def logger_new_def split: option.split if_splits)
  show ?thesis
    using False n l0 c by (simp add: reg_create_def register_logger_impl_eq Let_def)
qed (simp add: reg_create_def new_object_def bad_queue_def)

section \<open>Programs over the registry\<close>

text \<open>The operations, with those a program applies to a logger object itself.\<close>

datatype 'w reg_op =
    Op_create string "'w sink list" | Op_drop string | Op_drop_all
  | Op_set_formatter "flag_formatter list" | Op_set_pattern string | Op_set_level level_enum
  | Op_async nat overflow_policy int | Op_sync
  | Op_make string "'w sink list" | Op_register nat | Op_logger_level nat level_enum | Op_logger_pattern nat string

fun reg_step :: "'w reg_op \<Rightarrow> 'w registry \<Rightarrow> 'w registry" where
  "reg_step (Op_create name sinks) r = snd (reg_create name sinks r)"
| "reg_step (Op_drop name) r = reg_drop name r"
| "reg_step Op_drop_all r = reg_drop_all r"
| "reg_step (Op_set_formatter f) r = reg_set_formatter f r"
| "reg_step (Op_set_pattern p) r = reg_set_pattern p r"
| "reg_step (Op_set_level l) r = reg_set_level l r"
| "reg_step (Op_async n pol i) r = set_async_mode n pol i r"
| "reg_step Op_sync r = set_sync_mode r"
| "reg_step (Op_make name sinks) r = snd (make_logger name sinks r)"
| "reg_step (Op_register a) r = (if a < length (objs r) then snd (register_logger a r) else r)"
| "reg_step (Op_logger_level a l) r = (if a < length (objs r) then r\<lparr>objs := (objs r)[a := rl_set_level l (objs r ! a)]\<rparr> else r)"
| "reg_step (Op_logger_pattern a p) r =
     (if a < length (objs r) then r\<lparr>objs := (objs r)[a := rl_set_formatter (pattern_formatter p) (objs r ! a)]\<rparr> else r)"

text \<open>The operations that go through the registry only.\<close>

fun by_registry :: "'w reg_op \<Rightarrow> bool" where
  "by_registry (Op_register a) = False"
| "by_registry (Op_logger_level a l) = False"
| "by_registry (Op_logger_pattern a p) = False"
| "by_registry op = True"

lemma rl_set_simps [simp]:
  "lg_name (rl_logger (rl_set_level l x)) = lg_name (rl_logger x)" "lg_level (rl_logger (rl_set_level l x)) = l"
  "lg_formatter (rl_logger (rl_set_level l x)) = lg_formatter (rl_logger x)"
  "lg_name (rl_logger (rl_set_formatter f x)) = lg_name (rl_logger x)" "lg_formatter (rl_logger (rl_set_formatter f x)) = f"
  "lg_level (rl_logger (rl_set_formatter f x)) = lg_level (rl_logger x)"
  by (simp_all add: rl_set_level_def rl_set_formatter_def set_level_def set_formatter_def)

lemma set_delete_subset: "set (AList.delete k xs) \<subseteq> set xs"
  by (simp add: AList.delete_eq)

lemma reg_ok_subset:
  "reg_ok r \<Longrightarrow> set ls \<subseteq> set (loggers r) \<Longrightarrow> distinct (map fst ls) \<Longrightarrow> reg_ok (r\<lparr>loggers := ls\<rparr>)"
  by (auto simp: reg_ok_def logger_at_def)

lemma reg_ok_update:
  assumes "reg_ok r" and "a < length (objs r)" and "lg_name (rl_logger x) = lg_name (rl_logger (objs r ! a))"
  shows "reg_ok (r\<lparr>objs := (objs r)[a := x]\<rparr>)"
  using assms by (auto simp: reg_ok_def logger_at_def nth_list_update)

lemma reg_ok_create: "reg_ok r \<Longrightarrow> reg_ok (snd (reg_create name sinks r))"
  using reg_ok_register [OF reg_ok_append [of r "[created name sinks r]"], of "length (objs r)"]
    reg_ok_append [of r "[created name sinks r]"]
  by (simp add: reg_create_eq Let_def register_logger_impl_eq logger_at_def created_def split: if_splits)

lemma reg_ok_step: "reg_ok r \<Longrightarrow> reg_ok (reg_step op r)"
proof (induction op)
  case (Op_drop name)
  then show ?case
    by (simp add: reg_drop_def reg_ok_subset set_delete_subset AList.distinct_delete reg_ok_def [of r])
next
  case (Op_set_formatter f)
  then show ?case
    using reg_ok_each [of "r\<lparr>reg_formatter := Some f\<rparr>" "rl_set_formatter f"] reg_ok_cong [of "r\<lparr>reg_formatter := Some f\<rparr>" r]
    by (simp add: reg_set_formatter_def)
next
  case (Op_set_pattern p)
  then show ?case
    using reg_ok_each [of "r\<lparr>reg_formatter := Some (pattern_formatter p)\<rparr>" "rl_set_formatter (pattern_formatter p)"]
      reg_ok_cong [of "r\<lparr>reg_formatter := Some (pattern_formatter p)\<rparr>" r]
    by (simp add: reg_set_pattern_def Let_def)
next
  case (Op_set_level l)
  then show ?case
    using reg_ok_each [of r "rl_set_level l"] reg_ok_cong [of "(each_logger (rl_set_level l) r)\<lparr>reg_level := l\<rparr>"]
    by (simp add: reg_set_level_def)
next
  case (Op_async n pol i)
  then show ?case using reg_ok_cong [of "set_async_mode n pol i r" r] by (simp add: set_async_mode_def)
next
  case Op_sync
  then show ?case using reg_ok_cong [of "set_sync_mode r" r] by (simp add: set_sync_mode_def)
qed (simp_all add: reg_ok_create reg_drop_all_def reg_ok_subset make_logger_def reg_ok_append register_logger_def reg_ok_register
    reg_ok_update)

lemma uniform_each:
  assumes "reg_ok r" and "\<And>n a. (n, a) \<in> set (loggers r) \<Longrightarrow>
      (lg_level (rl_logger (f (objs r ! a))), lg_formatter (rl_logger (f (objs r ! a)))) = settings r'"
    and "objs r' = objs (each_logger f r)" and "loggers r' = loggers r"
  shows "uniform r'"
proof -
  have "logger_at r' a = rl_logger (f (objs r ! a))" if "(n, a) \<in> set (loggers r)" for n a
    using logger_at_each [OF _ that] reg_ok_bound [OF assms(1) that] assms(3) by (simp add: logger_at_def)
  then show ?thesis using assms(2,4) by (auto simp: uniform_def)
qed

lemma uniformD:
  "uniform r \<Longrightarrow> (n, a) \<in> set (loggers r) \<Longrightarrow>
   lg_level (rl_logger (objs r ! a)) = reg_level r \<and> lg_formatter (rl_logger (objs r ! a)) = snd (settings r)"
  by (auto simp: uniform_def settings_def logger_at_def)

lemma uniform_cong:
  "objs r' = objs r \<Longrightarrow> set (loggers r') \<subseteq> set (loggers r) \<Longrightarrow> settings r' = settings r \<Longrightarrow> uniform r \<Longrightarrow> uniform r'"
  by (auto simp: uniform_def logger_at_def)

lemma settings_objs [simp]: "settings (r\<lparr>objs := x\<rparr>) = settings r" "settings (r\<lparr>loggers := ls\<rparr>) = settings r"
  by (simp_all add: settings_def)

lemma uniform_append: "reg_ok r \<Longrightarrow> uniform r \<Longrightarrow> uniform (r\<lparr>objs := objs r @ xs\<rparr>)"
  using logger_at_append [of _ r xs] reg_ok_bound [of r] by (fastforce simp: uniform_def)

lemma uniform_create:
  assumes "reg_ok r" and "uniform r"
  shows "uniform (snd (reg_create name sinks r))"
proof -
  let ?r = "r\<lparr>objs := objs r @ [created name sinks r]\<rparr>"
  have "uniform ?r" by (rule uniform_append [OF assms])
  moreover have "logger_at ?r (length (objs r)) = rl_logger (created name sinks r)" by (simp add: logger_at_def)
  ultimately have "uniform (?r\<lparr>loggers := loggers r @ [(name, length (objs r))]\<rparr>)"
    by (simp add: uniform_def created_def logger_at_def)
  with \<open>uniform ?r\<close> show ?thesis using assms(2) by (simp add: reg_create_eq Let_def)
qed

lemma uniform_step:
  assumes "reg_ok r" and "uniform r" and "by_registry op"
  shows "uniform (reg_step op r)"
proof (cases op)
  case (Op_set_formatter f)
  then show ?thesis
    using assms(1) reg_ok_cong [of "r\<lparr>reg_formatter := Some f\<rparr>" r] uniformD [OF assms(2)]
    by (intro uniform_each [of "r\<lparr>reg_formatter := Some f\<rparr>" "rl_set_formatter f"])
      (auto simp: reg_set_formatter_def settings_def)
next
  case (Op_set_pattern p)
  then show ?thesis
    using assms(1) reg_ok_cong [of "r\<lparr>reg_formatter := Some (pattern_formatter p)\<rparr>" r] uniformD [OF assms(2)]
    by (intro uniform_each [of "r\<lparr>reg_formatter := Some (pattern_formatter p)\<rparr>" "rl_set_formatter (pattern_formatter p)"])
      (auto simp: reg_set_pattern_def settings_def Let_def)
next
  case (Op_set_level l)
  then show ?thesis
    using assms(1) uniformD [OF assms(2)]
    by (intro uniform_each [of r "rl_set_level l"]) (auto simp: reg_set_level_def settings_def)
next
  case (Op_drop name)
  then show ?thesis
    using uniform_cong [of "reg_drop name r" r] assms(2) by (simp add: reg_drop_def set_delete_subset)
next
  case (Op_async n pol i)
  then show ?thesis
    using uniform_cong [of "set_async_mode n pol i r" r] assms(2) by (simp add: set_async_mode_def settings_def)
next
  case Op_sync
  then show ?thesis using uniform_cong [of "set_sync_mode r" r] assms(2) by (simp add: set_sync_mode_def settings_def)
qed (use assms in \<open>simp_all add: uniform_create reg_drop_all_def uniform_def [of "_\<lparr>loggers := []\<rparr>"] make_logger_def uniform_append\<close>)

lemma registry_new_ok: "reg_ok (registry_new i)" "uniform (registry_new i)"
  by (simp_all add: reg_ok_def uniform_def registry_new_def)

lemma reg_ok_run: "reg_ok r \<Longrightarrow> reg_ok (fold reg_step ops r)"
  by (induction ops arbitrary: r) (simp_all add: reg_ok_step)

lemma uniform_run: "reg_ok r \<Longrightarrow> uniform r \<Longrightarrow> list_all by_registry ops \<Longrightarrow> uniform (fold reg_step ops r)"
  by (induction ops arbitrary: r) (simp_all add: reg_ok_step uniform_step)

lemma reg_get_ok: "reg_ok r \<Longrightarrow> reg_get n r = Some a \<longleftrightarrow> (n, a) \<in> set (loggers r)"
  by (simp add: reg_get_def reg_ok_def)


definition sample_ops :: "unit reg_op list" where
  "sample_ops = [Op_create ''a'' [null_sink], Op_set_level L_warn, Op_set_pattern ''%v'', Op_create ''b'' [null_sink]]"

lemma sample_ops_get:
  "reg_get ''b'' (fold reg_step sample_ops (registry_new 0)) = Some 1" "list_all by_registry sample_ops"
  by (simp_all add: sample_ops_def registry_new_def reg_create_eq bad_queue_def reg_set_level_def reg_set_pattern_def
      each_logger_def reg_get_def Let_def)


section \<open>The other sinks\<close>

lemma dist_sink_ops:
  assumes "distinct d"
  shows "distinct (add_sink p d)" and "distinct (remove_sink p d)"
    and "a \<notin> set d \<Longrightarrow> remove_sink (Some a) (add_sink (Some a) d) = d"
    and "set (add_sink (Some a) d) = insert a (set d)" and "set (remove_sink (Some a) d) = set d - {a}"
  using assms by (auto simp: add_sink_def remove_sink_def remove1_append split: option.split)

lemma syslog_severity:
  assumes "msg_level m \<le> msg_level m'" and "msg_level m' \<noteq> L_off"
  shows "syslog_prio_from_level m' \<le> syslog_prio_from_level m"
  using assms
  by (cases "msg_level m"; cases "msg_level m'") (simp_all add: syslog_prio_from_level_def priorities_def less_eq_level_enum_def)

text \<open>The standard streams keep the contract of a sink.\<close>

interpretation stdout_text: text_sink stdout_sink "\<lambda>_. True" "\<lambda>w. os_text (sw_out w)"
  by unfold_locales (simp add: stdout_sink_def part_sink_def ostream_sink_def os_flush_def Let_def)

interpretation stderr_text: text_sink stderr_sink "\<lambda>_. True" "\<lambda>w. os_text (sw_err w)"
  by unfold_locales (simp add: stderr_sink_def part_sink_def ostream_sink_def os_flush_def Let_def)

text \<open>A failed \<open>create\<close> of a rotating logger with a name in use has opened its file all the same.\<close>

lemma name_clash_opens_file:
  assumes "name \<in> fst ` set (loggers r)" and "\<not> bad_queue r"
    and "rotating_file_sink filename suffix msize mfiles flush (sw_files w) = Inr (s, fs)"
  shows "\<exists>r'. rotating_logger name filename msize mfiles flush suffix (r, w)
    = (Inl (SpdlogEx (''logger with name '' @ name @ '' already exists'')), r', w\<lparr>sw_files := fs, sw_rot := sw_rot w @ [s]\<rparr>)"
  using assms by (simp add: rotating_logger_def reg_create_eq Let_def)

end
