(* ===== verification/SpdMessageLog.thy ===== *)
theory SpdMessageLog
  imports SpdRegistry
begin

text \<open>
  \<open>MessageLog\<close> of \<open>src/common/spdlog/src\<close>: one object that routes messages by level to a rotating message file and
  a rotating error file, created through the registry.

  The object is a singleton; its state is threaded together with the registry and the world of the sinks. A
  logger pointer that is null is \<open>None\<close>, and using it is the result \<open>None\<close> of an operation.
\<close>

section \<open>State and operations\<close>

datatype log_level = ML_trace | ML_debug | ML_info | ML_notice | ML_warn | ML_error | ML_fatal

text \<open>The cast to the levels of spdlog, which keeps the number.\<close>

fun spd_level :: "log_level \<Rightarrow> level_enum" where
  "spd_level ML_trace = L_trace"
| "spd_level ML_debug = L_debug"
| "spd_level ML_info = L_info"
| "spd_level ML_notice = L_notice"
| "spd_level ML_warn = L_warn"
| "spd_level ML_error = L_err"
| "spd_level ML_fatal = L_critical"

record log_attribute =
  at_force_flush :: bool
  at_max_files :: u64
  at_max_file_size :: u64
  at_file_name :: string

definition MessageLogAttribute :: log_attribute where
  "MessageLogAttribute =
     \<lparr>at_force_flush = False, at_max_files = 7, at_max_file_size = 1048576 * 100, at_file_name = ''./message''\<rparr>"

text \<open>\<open>update\<close>: its parameters shadow the members of the same names, so that only the file name is stored.\<close>

definition attribute_update :: "string \<Rightarrow> u64 \<Rightarrow> u64 \<Rightarrow> bool \<Rightarrow> log_attribute \<Rightarrow> log_attribute" where
  "attribute_update fileName msize mfiles flush a = a\<lparr>at_file_name := fileName\<rparr>"

record message_log =
  singleMsgFile :: bool
  msgLogger :: "nat option"
  errLogger :: "nat option"
  cerrLogger :: "nat option"
  attributes :: "(string \<times> log_attribute) list"

definition MSG_LOGGER :: string where "MSG_LOGGER = ''MessageLog.msg''"
definition ERR_LOGGER :: string where "ERR_LOGGER = ''MessageLog.err''"

definition join_msg :: "string \<Rightarrow> string" where "join_msg f = f @ ''.msg''"
definition join_err :: "string \<Rightarrow> string" where "join_err f = f @ ''.err''"

definition mb_to_bytes :: "u64 \<Rightarrow> u64" where
  "mb_to_bytes mb = 1048576 * mb"

type_synonym log_state = "message_log \<times> sink_world registry \<times> sink_world"

definition MessageLog :: "sink_world registry \<Rightarrow> sink_world \<Rightarrow> log_state" where
  "MessageLog r w =
     (\<lparr>singleMsgFile = True, msgLogger = None, errLogger = None, cerrLogger = None, attributes = []\<rparr>, reg_drop_all r, w)"

definition MessageLog_delete :: "log_state \<Rightarrow> sink_world registry \<times> sink_world" where
  "MessageLog_delete st = (case st of (ml, r, w) \<Rightarrow> (reg_drop_all r, w))"

text \<open>\<open>logger_attribute_maps[name].update(...)\<close>\<close>

definition attribute_at :: "string \<Rightarrow> message_log \<Rightarrow> log_attribute" where
  "attribute_at name ml = (case map_of (attributes ml) name of None \<Rightarrow> MessageLogAttribute | Some a \<Rightarrow> a)"

definition update_attribute :: "string \<Rightarrow> string \<Rightarrow> u64 \<Rightarrow> u64 \<Rightarrow> bool \<Rightarrow> message_log \<Rightarrow> message_log" where
  "update_attribute name fileName msize mfiles flush ml =
     ml\<lparr>attributes := AList.update name (attribute_update fileName msize mfiles flush (attribute_at name ml)) (attributes ml)\<rparr>"

definition global_level :: "log_level \<Rightarrow> log_state \<Rightarrow> log_state" where
  "global_level l st = (case st of (ml, r, w) \<Rightarrow> (ml, reg_set_level (spd_level l) r, w))"

text \<open>The initialisations; an exception of spdlog leaves what was done before it.\<close>

definition init_single_rotating_logger ::
  "string \<Rightarrow> string \<Rightarrow> u64 \<Rightarrow> u64 \<Rightarrow> bool \<Rightarrow> log_state \<Rightarrow> spd_error option \<times> log_state" where
  "init_single_rotating_logger fileName loggerName max_mb mfiles flush st =
     (let (ml, r, w) = st;
          ml1 = update_attribute loggerName (join_msg fileName) (mb_to_bytes max_mb) mfiles flush ml
      in case rotating_logger loggerName (join_msg fileName) (unat (mb_to_bytes max_mb)) (unat mfiles) False ''log'' (r, w) of
           (Inl e, r1, w1) \<Rightarrow> (Some e, ml1, r1, w1)
         | (Inr a, r1, w1) \<Rightarrow> (None, global_level ML_trace (ml1\<lparr>msgLogger := Some a\<rparr>, r1, w1)))"

definition init_rotating_logger ::
  "string \<Rightarrow> string \<Rightarrow> u64 \<Rightarrow> u64 \<Rightarrow> bool \<Rightarrow> log_state \<Rightarrow> spd_error option \<times> log_state" where
  "init_rotating_logger fileName loggerName max_mb mfiles flush st =
     (let (ml, r, w) = st;
          msg_logger = (if loggerName = [] then MSG_LOGGER else join_msg loggerName);
          err_logger = (if loggerName = [] then ERR_LOGGER else join_err loggerName);
          ml1 = update_attribute err_logger fileName (mb_to_bytes max_mb) mfiles flush
                  (update_attribute msg_logger fileName (mb_to_bytes max_mb) mfiles flush (ml\<lparr>singleMsgFile := False\<rparr>))
      in case rotating_logger msg_logger fileName (unat (mb_to_bytes max_mb)) (unat mfiles) flush ''msg'' (r, w) of
           (Inl e, r1, w1) \<Rightarrow> (Some e, ml1, r1, w1)
         | (Inr m, r1, w1) \<Rightarrow>
             let ml2 = ml1\<lparr>msgLogger := Some m\<rparr>
             in case rotating_logger err_logger fileName (unat (mb_to_bytes max_mb)) (unat mfiles) flush ''err'' (r1, w1) of
                  (Inl e, r2, w2) \<Rightarrow> (Some e, ml2, r2, w2)
                | (Inr x, r2, w2) \<Rightarrow>
                    let ml3 = ml2\<lparr>errLogger := Some x\<rparr>
                    in case stderr_logger ''console'' r2 of
                         (Inl e, r3) \<Rightarrow> (Some e, ml3, r3, w2)
                       | (Inr c, r3) \<Rightarrow> (None, global_level ML_trace (ml3\<lparr>cerrLogger := Some c\<rparr>, r3, w2)))"

definition logger_set_level :: "nat \<Rightarrow> log_level \<Rightarrow> log_state \<Rightarrow> log_state" where
  "logger_set_level a l st =
     (case st of (ml, r, w) \<Rightarrow> (ml, r\<lparr>objs := (objs r)[a := rl_set_level (spd_level l) (objs r ! a)]\<rparr>, w))"

definition set_MsgLevel :: "log_level \<Rightarrow> log_state \<Rightarrow> log_state" where
  "set_MsgLevel l st = (case msgLogger (fst st) of None \<Rightarrow> st | Some a \<Rightarrow> logger_set_level a l st)"

definition set_ErrLevel :: "log_level \<Rightarrow> log_state \<Rightarrow> log_state" where
  "set_ErrLevel l st = (case errLogger (fst st) of None \<Rightarrow> st | Some a \<Rightarrow> logger_set_level a l st)"

definition set_ConsoleLevel :: "log_level \<Rightarrow> log_state \<Rightarrow> log_state option" where
  "set_ConsoleLevel l st = map_option (\<lambda>a. logger_set_level a l st) (cerrLogger (fst st))"

definition getLogger :: "log_level \<Rightarrow> message_log \<Rightarrow> nat option" where
  "getLogger l ml =
     (case l of
        ML_fatal \<Rightarrow> (if singleMsgFile ml then msgLogger ml else errLogger ml)
      | ML_error \<Rightarrow> (if singleMsgFile ml then msgLogger ml else errLogger ml)
      | ML_warn \<Rightarrow> (if singleMsgFile ml then msgLogger ml else errLogger ml)
      | ML_notice \<Rightarrow> msgLogger ml
      | ML_info \<Rightarrow> msgLogger ml
      | ML_debug \<Rightarrow> msgLogger ml
      | ML_trace \<Rightarrow> msgLogger ml)"

definition defaultMsgAttri :: "message_log \<Rightarrow> log_attribute" where
  "defaultMsgAttri ml = attribute_at MSG_LOGGER ml"

definition defaultErrAttri :: "message_log \<Rightarrow> log_attribute" where
  "defaultErrAttri ml = (if singleMsgFile ml then attribute_at MSG_LOGGER ml else attribute_at ERR_LOGGER ml)"

text \<open>\<open>get(level) << ...\<close>: the line logger of the level with what is streamed to it. The loggers are synchronous, the
  mode in which \<open>MessageLog\<close> creates them unless the program has changed it.\<close>

definition message_log_get ::
  "env \<Rightarrow> log_level \<Rightarrow> writer_op list \<Rightarrow> log_state \<Rightarrow> (outcome \<times> log_state) option" where
  "message_log_get en l fs st =
     (let (ml, r, w) = st
      in map_option (\<lambda>a.
           let lg = logger_at r a;
               (res, w') =
                 (case l of
                    ML_fatal \<Rightarrow> logger_critical_stream en fs lg w
                  | ML_error \<Rightarrow> logger_error_stream en fs lg w
                  | ML_warn \<Rightarrow> logger_warn_stream en fs lg w
                  | ML_notice \<Rightarrow> logger_notice_stream en fs lg w
                  | ML_info \<Rightarrow> logger_info_stream en fs lg w
                  | ML_debug \<Rightarrow> logger_debug_stream en fs lg w
                  | ML_trace \<Rightarrow> logger_trace_stream en fs lg w)
           in (res, ml, r, w')) (getLogger l ml))"

section \<open>Routing\<close>

lemma reg_create_InrD:
  assumes "reg_create n s r = (Inr a, r')"
  shows "a = length (objs r)" and "objs r' = objs r @ [created n s r]" and "loggers r' = loggers r @ [(n, a)]"
  using assms by (auto simp: reg_create_eq Let_def split: if_splits)

lemma rotating_file_sink_names:
  "rotating_file_sink f suffix msize mfiles flush fs = Inr (s, fs') \<Longrightarrow> base_filename s = f \<and> extension s = suffix"
  by (auto simp: rotating_file_sink_def sbind_Inr_iff split: prod.splits option.splits)

lemma rotating_logger_InrD:
  assumes "rotating_logger n f msize mfiles flush suffix (r, w) = (Inr a, r', w')"
  shows "\<exists>s fs. reg_create n [rot_at (length (sw_rot w))] r = (Inr a, r') \<and> w' = w\<lparr>sw_files := fs, sw_rot := sw_rot w @ [s]\<rparr>
    \<and> base_filename s = f \<and> extension s = suffix"
  using assms by (auto simp: rotating_logger_def Let_def split: sum.splits prod.splits dest: rotating_file_sink_names)

lemma ll_put_all_wr:
  "ll_enabled l \<Longrightarrow> ll_put_all (map wr ts) l = (None, l\<lparr>ll_msg := (ll_msg l)\<lparr>raw := raw (ll_msg l) @ concat ts\<rparr>\<rparr>)"
  by (induction ts arbitrary: l) (simp_all add: ll_put_def wr_def)

text \<open>What a call with a stream of texts does to the only sink of a logger.\<close>

definition line_msg :: "env \<Rightarrow> 'w logger \<Rightarrow> level_enum \<Rightarrow> string \<Rightarrow> log_msg" where
  "line_msg en lg l t = (call_msg en lg l t)\<lparr>formatted := call_line en lg l t\<rparr>"

lemma stream_call:
  assumes "should_log l lg" and "lg_sinks lg = [s]"
  shows "log_if_enabled_stream en l (map wr ts) lg w =
    (let (e, w') = sk_log s (line_msg en lg l (concat ts)) w in (if e = None then Done else Terminates, w'))"
proof -
  let ?l = "\<lparr>ll_msg = (log_msg_of_level (env_time0 en) (env_tid0 en) l)\<lparr>raw := concat ts\<rparr>, ll_enabled = True\<rparr>"
  have "ll_put_all (map wr ts) (line_logger_new en l (should_log l lg)) = (None, ?l)"
    using assms(1) by (simp add: line_logger_new_def ll_put_all_wr log_msg_of_level_def)
  moreover have "line_logger_delete en lg ?l w = logger_log_msg en lg (call_msg en lg l (concat ts)) w"
    by (rule finish_enabled) simp_all
  moreover have "logger_log_msg en lg (call_msg en lg l (concat ts)) w = sinks_log [s] (line_msg en lg l (concat ts)) w"
    using assms(2) by (simp add: logger_log_msg_def pattern_format_text line_msg_def call_line_def call_msg_def)
  ultimately show ?thesis
    by (auto simp: log_if_enabled_stream_def finish_call_def Let_def split: prod.splits option.splits)
qed

lemma message_log_get_eq:
  "message_log_get en l fs (ml, r, w) =
     map_option (\<lambda>a. let (res, w') = log_if_enabled_stream en (spd_level l) fs (logger_at r a) w in (res, ml, r, w')) (getLogger l ml)"
  by (cases l) (simp_all add: message_log_get_def level_methods_stream Let_def)

text \<open>After the initialisation with two files: the message logger is the next object, with the level \<open>trace\<close>, and
  writes to the next file object; the error logger and its file object follow.\<close>

definition severe :: "log_level \<Rightarrow> bool" where
  "severe l \<longleftrightarrow> l = ML_warn \<or> l = ML_error \<or> l = ML_fatal"

lemma init_rotating_loggerD:
  assumes "init_rotating_logger f n mb mfiles flush (ml0, r0, w0) = (None, ml, r, w)"
  shows "getLogger l ml = Some (length (objs r0) + of_bool (severe l))"
    and "lg_sinks (logger_at r (length (objs r0) + of_bool b)) = [rot_at (length (sw_rot w0) + of_bool b)]"
    and "lg_level (logger_at r (length (objs r0) + of_bool b)) = L_trace"
    and "base_filename (sw_rot w ! (length (sw_rot w0) + of_bool b)) = f"
    and "extension (sw_rot w ! (length (sw_rot w0) + of_bool b)) = (if b then ''err'' else ''msg'')"
proof -
  obtain nm ne r1 w1 r2 w2 r3 ml1 m x c where i:
    "rotating_logger nm f (unat (mb_to_bytes mb)) (unat mfiles) flush ''msg'' (r0, w0) = (Inr m, r1, w1)"
    "rotating_logger ne f (unat (mb_to_bytes mb)) (unat mfiles) flush ''err'' (r1, w1) = (Inr x, r2, w2)"
    "reg_create ''console'' [stderr_sink] r2 = (Inr c, r3)"
    "r = reg_set_level L_trace r3" "w = w2" "msgLogger ml = Some m" "errLogger ml = Some x" "\<not> singleMsgFile ml"
    using assms
    by (auto simp: init_rotating_logger_def Let_def global_level_def stderr_logger_def update_attribute_def
        split: sum.splits prod.splits)
  obtain s1 fs1 where a: "reg_create nm [rot_at (length (sw_rot w0))] r0 = (Inr m, r1)"
    "w1 = w0\<lparr>sw_files := fs1, sw_rot := sw_rot w0 @ [s1]\<rparr>" "base_filename s1 = f" "extension s1 = ''msg''"
    using rotating_logger_InrD [OF i(1)] by blast
  obtain s2 fs2 where b: "reg_create ne [rot_at (length (sw_rot w1))] r1 = (Inr x, r2)"
    "w2 = w1\<lparr>sw_files := fs2, sw_rot := sw_rot w1 @ [s2]\<rparr>" "base_filename s2 = f" "extension s2 = ''err''"
    using rotating_logger_InrD [OF i(2)] by blast
  note d = reg_create_InrD [OF a(1)] reg_create_InrD [OF b(1)] reg_create_InrD [OF i(3)]
  have o3: "objs r3 = objs r0 @ [created nm [rot_at (length (sw_rot w0))] r0, created ne [rot_at (length (sw_rot w1))] r1,
      created ''console'' [stderr_sink] r2]" "(nm, length (objs r0)) \<in> set (loggers r3)" "(ne, Suc (length (objs r0))) \<in> set (loggers r3)"
    using d by simp_all
  have at: "logger_at r (length (objs r0)) = rl_logger (rl_set_level L_trace (created nm [rot_at (length (sw_rot w0))] r0))"
    "logger_at r (Suc (length (objs r0))) = rl_logger (rl_set_level L_trace (created ne [rot_at (Suc (length (sw_rot w0)))] r1))"
    using logger_at_each [OF _ o3(2), of "rl_set_level L_trace"] logger_at_each [OF _ o3(3), of "rl_set_level L_trace"] a(2)
    by (simp_all add: i(4) reg_set_level_def logger_at_def o3(1) nth_append)
  show "getLogger l ml = Some (length (objs r0) + of_bool (severe l))"
    using i(6-8) d(1,2,4) by (cases l) (simp_all add: getLogger_def severe_def)
  show "lg_sinks (logger_at r (length (objs r0) + of_bool b)) = [rot_at (length (sw_rot w0) + of_bool b)]"
    "lg_level (logger_at r (length (objs r0) + of_bool b)) = L_trace" for b
    using at by (cases b; simp add: rl_set_level_def set_level_def created_def)+
  show "base_filename (sw_rot w ! (length (sw_rot w0) + of_bool b)) = f"
    "extension (sw_rot w ! (length (sw_rot w0) + of_bool b)) = (if b then ''err'' else ''msg'')" for b
    using a b i(5) by (cases b; simp add: nth_append)+
qed


definition empty_world :: sink_world where
  "empty_world =
     \<lparr>sw_files = empty_fs, sw_rot = [], sw_daily = [], sw_out = \<lparr>os_text = [], os_flushed = 0\<rparr>,
      sw_err = \<lparr>os_text = [], os_flushed = 0\<rparr>, sw_syslog = [], sw_now = 0, sw_off = 0\<rparr>"

lemma open_new_rotating:
  "denied fs (rot_filename f 0 suffix) = 0 \<Longrightarrow> files fs (rot_filename f 0 suffix) = None \<Longrightarrow>
   rotating_file_sink f suffix msize mfiles flush fs =
     Inr (\<lparr>base_filename = f, extension = suffix, max_size = msize, max_files = mfiles, current_size = 0,
           rot_helper = \<lparr>fd = Some (rot_filename f 0 suffix), fh_filename = rot_filename f 0 suffix, force_flush = flush\<rparr>\<rparr>,
          fs\<lparr>denied := (denied fs)(rot_filename f 0 suffix := 0), files := (files fs)(rot_filename f 0 suffix \<mapsto> [])\<rparr>)"
  by (simp add: rotating_file_sink_def fh_open_def file_helper_new_def fh_close_def fh_size_def try_open_result open_tries_def Let_def)

lemma sample_init:
  "\<exists>ml r w. init_rotating_logger ''log'' [] 1 2 False (MessageLog (registry_new 0) empty_world) = (None, ml, r, w)"
proof -
  have "rot_filename ''log'' 0 ''err'' \<noteq> rot_filename ''log'' 0 ''msg''"
    by (simp add: rot_filename_eq)
  then show ?thesis
    by (simp add: init_rotating_logger_def MessageLog_def registry_new_def reg_drop_all_def rotating_logger_def open_new_rotating
        empty_world_def empty_fs_def reg_create_eq bad_queue_def stderr_logger_def MSG_LOGGER_def ERR_LOGGER_def Let_def
        global_level_def)
qed


text \<open>The attributes that \<open>init_rotating_logger\<close> records are the defaults but for the file name, whatever sizes it was
  called with.\<close>

lemma attributes_keep_defaults:
  "attribute_at name (update_attribute name f msize mfiles flush ml) = (attribute_at name ml)\<lparr>at_file_name := f\<rparr>"
  by (simp add: update_attribute_def attribute_update_def attribute_at_def update_conv)

lemma single_ignores_flush:
  "init_single_rotating_logger f n mb mfiles True st = init_single_rotating_logger f n mb mfiles False st"
  by (simp add: init_single_rotating_logger_def update_attribute_def attribute_update_def)

lemma console_level_needs_console: "cerrLogger ml = None \<Longrightarrow> set_ConsoleLevel l (ml, r, w) = None"
  by (simp add: set_ConsoleLevel_def)

end
