(* ===== verification/MsLog.thy ===== *)
theory MsLog
  imports Prelude "HOL-Library.Monad_Syntax" "HOL-Library.Multiset"
begin

text \<open>
  The logger of the process demonstration, \<open>MessageLog\<close> of \<open>src/ms_process/log\<close>: a log statement takes a \<open>Record\<close>, a counted
  reference to an object with a stream buffer of 4095 characters, streams its text into it, and the last
  reference to go writes the rest of the text and puts the object into a pool for reuse.

  The objects live in a heap by address; the pool is the linked list from \<open>cache\<close> through \<open>next\<close>. An
  \<open>Advise\<close> is the stream it writes to, by number; number 0 is \<open>std::cout\<close>. The use of a null pointer is the result
  \<open>None\<close> of an operation. The lock makes the operations of the pool atomic; the counter of references, which the
  code changes without a lock, is for records that one thread uses.
\<close>

section \<open>Objects and their buffers\<close>

record ms_object =
  next_obj :: "nat option"
  useRef :: int
  obj_advise :: "nat option"
  pending :: string

record ms_state =
  heap :: "ms_object list"
  cache :: "nat option"
  outs :: "nat \<Rightarrow> string"

definition Object :: ms_object where
  "Object = \<lparr>next_obj = None, useRef = 1, obj_advise = None, pending = []\<rparr>"

definition upd_object :: "nat \<Rightarrow> (ms_object \<Rightarrow> ms_object) \<Rightarrow> ms_state \<Rightarrow> ms_state" where
  "upd_object a f s = s\<lparr>heap := (heap s)[a := f (heap s ! a)]\<rparr>"

text \<open>\<open>ostream << message; ostream.flush()\<close> for a C string.\<close>

definition logMessage :: "nat \<Rightarrow> string \<Rightarrow> ms_state \<Rightarrow> ms_state" where
  "logMessage st message s = s\<lparr>outs := (outs s)(st := outs s st @ takeWhile (\<lambda>c. c \<noteq> CHR 0x00) message)\<rparr>"

text \<open>The size that \<open>setp\<close> gives to the put area; one more byte is left for the terminating zero.\<close>

definition put_area :: nat where "put_area = 4095"

text \<open>\<open>advise->logMessage(pbase())\<close> and the reset of the put pointer.\<close>

definition log_pending :: "nat \<Rightarrow> ms_state \<Rightarrow> ms_state option" where
  "log_pending a s =
     map_option (\<lambda>st. upd_object a (\<lambda>ob. ob\<lparr>pending := []\<rparr>) (logMessage st (pending (heap s ! a)) s)) (obj_advise (heap s ! a))"

text \<open>\<open>overflow(c)\<close> for a character.\<close>

definition overflow :: "nat \<Rightarrow> char \<Rightarrow> ms_state \<Rightarrow> ms_state option" where
  "overflow a c s = map_option (upd_object a (\<lambda>ob. ob\<lparr>pending := [c]\<rparr>)) (log_pending a s)"

text \<open>Characters are stored while there is room in the put area; then the stream calls \<open>overflow\<close>.\<close>

definition sputc :: "nat \<Rightarrow> char \<Rightarrow> ms_state \<Rightarrow> ms_state option" where
  "sputc a c s =
     (if length (pending (heap s ! a)) < put_area then Some (upd_object a (\<lambda>ob. ob\<lparr>pending := pending ob @ [c]\<rparr>) s)
      else overflow a c s)"

fun sputn :: "nat \<Rightarrow> string \<Rightarrow> ms_state \<Rightarrow> ms_state option" where
  "sputn a [] s = Some s"
| "sputn a (c # cs) s = Option.bind (sputc a c s) (sputn a cs)"

section \<open>The pool and the references\<close>

definition Global_put :: "nat \<Rightarrow> ms_state \<Rightarrow> ms_state" where
  "Global_put a s = (upd_object a (\<lambda>ob. ob\<lparr>next_obj := cache s\<rparr>) s)\<lparr>cache := Some a\<rparr>"

text \<open>\<open>alloc\<close>: whether \<open>new\<close> succeeds.\<close>

definition Global_get :: "bool \<Rightarrow> ms_state \<Rightarrow> nat option \<times> ms_state" where
  "Global_get alloc s =
     (case cache s of
        Some a \<Rightarrow> (Some a, upd_object a (\<lambda>ob. ob\<lparr>useRef := useRef ob + 1\<rparr>) (s\<lparr>cache := next_obj (heap s ! a)\<rparr>))
      | None \<Rightarrow> if alloc then (Some (length (heap s)), s\<lparr>heap := heap s @ [Object]\<rparr>) else (None, s))"

definition Object_get :: "bool \<Rightarrow> nat \<Rightarrow> ms_state \<Rightarrow> nat option \<times> ms_state" where
  "Object_get alloc st s =
     (case Global_get alloc s of
        (None, s1) \<Rightarrow> (None, s1)
      | (Some a, s1) \<Rightarrow> (Some a, upd_object a (\<lambda>ob. ob\<lparr>obj_advise := Some st\<rparr>) s1))"

definition release :: "nat \<Rightarrow> ms_state \<Rightarrow> ms_state option" where
  "release a s =
     Option.bind (if length (pending (heap s ! a)) > 0 then log_pending a s else Some s) (\<lambda>s1.
       Some (Global_put a (upd_object a (\<lambda>ob. ob\<lparr>obj_advise := None\<rparr>) s1)))"

definition ref :: "nat \<Rightarrow> ms_state \<Rightarrow> ms_state" where
  "ref a s = upd_object a (\<lambda>ob. ob\<lparr>useRef := useRef ob + 1\<rparr>) s"

definition unref :: "nat \<Rightarrow> ms_state \<Rightarrow> ms_state option" where
  "unref a s =
     (let s1 = upd_object a (\<lambda>ob. ob\<lparr>useRef := useRef ob - 1\<rparr>) s
      in if useRef (heap s1 ! a) = 0 then release a s1 else Some s1)"

text \<open>The destructor of the pool deletes the objects of the list; the result is the list of their addresses.\<close>

partial_function (option) Global_delete :: "ms_state \<Rightarrow> nat list option" where
  "Global_delete s =
     (case cache s of
        None \<Rightarrow> Some []
      | Some a \<Rightarrow> Option.bind (Global_delete (s\<lparr>cache := next_obj (heap s ! a)\<rparr>)) (\<lambda>as. Some (a # as)))"

section \<open>Records\<close>

text \<open>A record is the pointer to its object.\<close>

definition Record :: "bool \<Rightarrow> nat \<Rightarrow> ms_state \<Rightarrow> nat option \<times> ms_state" where
  "Record alloc st s = Object_get alloc st s"

definition Record_copy :: "nat option \<Rightarrow> ms_state \<Rightarrow> nat option \<times> ms_state" where
  "Record_copy rhs s = (rhs, case rhs of None \<Rightarrow> s | Some a \<Rightarrow> ref a s)"

definition Record_delete :: "nat option \<Rightarrow> ms_state \<Rightarrow> ms_state option" where
  "Record_delete r s = (case r of None \<Rightarrow> Some s | Some a \<Rightarrow> unref a s)"

definition Record_assign :: "nat option \<Rightarrow> nat option \<Rightarrow> ms_state \<Rightarrow> (nat option \<times> ms_state) option" where
  "Record_assign lhs rhs s =
     (let s1 = (case rhs of None \<Rightarrow> s | Some a \<Rightarrow> ref a s)
      in Option.bind (case lhs of None \<Rightarrow> Some s1 | Some a \<Rightarrow> unref a s1) (\<lambda>s2. Some (rhs, s2)))"

text \<open>\<open>stream() << text\<close>\<close>

definition Record_write :: "nat option \<Rightarrow> string \<Rightarrow> ms_state \<Rightarrow> ms_state option" where
  "Record_write r t s =
     (case r of None \<Rightarrow> Some (s\<lparr>outs := (outs s)(0 := outs s 0 @ t)\<rparr>) | Some a \<Rightarrow> sputn a t s)"

section \<open>The log\<close>

record ms_log =
  severity :: int
  log_advise :: nat

definition FATAL :: int where "FATAL = 0"
definition ERROR :: int where "ERROR = 1"
definition WARN :: int where "WARN = 2"
definition INFO :: int where "INFO = 3"
definition DEBUG :: int where "DEBUG = 4"

definition ms_log_new :: "nat \<Rightarrow> ms_log" where
  "ms_log_new st = \<lparr>severity = WARN, log_advise = st\<rparr>"

definition setSeverity :: "int \<Rightarrow> ms_log \<Rightarrow> ms_log" where
  "setSeverity v l = l\<lparr>severity := v\<rparr>"

text \<open>\<open>MESSAGE_LOG(log, severity) << t1 << t2 ...;\<close> with the temporary record destroyed at its end.\<close>

fun write_all :: "nat option \<Rightarrow> string list \<Rightarrow> ms_state \<Rightarrow> ms_state option" where
  "write_all r [] s = Some s"
| "write_all r (t # ts) s = Option.bind (Record_write r t s) (write_all r ts)"

definition message_log_stmt :: "bool \<Rightarrow> ms_log \<Rightarrow> int \<Rightarrow> string list \<Rightarrow> ms_state \<Rightarrow> ms_state option" where
  "message_log_stmt alloc l sev ts s =
     (if severity l \<ge> sev
      then (let (r, s1) = Record alloc (log_advise l) s in Option.bind (write_all r ts s1) (Record_delete r))
      else Some s)"

text \<open>\<open>msForMessageLog<line>(ms)\<close>: \<open>ts\<close> is the static time stamp of the line, \<open>clock\<close> the monotonic clock, both in seconds and
  nanoseconds. The elapsed time is computed in \<open>time_t\<close> and cut to an unsigned int.\<close>

definition msForMessageLog :: "u32 \<Rightarrow> int \<times> int \<Rightarrow> int \<times> int \<Rightarrow> bool \<times> int \<times> int" where
  "msForMessageLog ms clock ts =
     (let elapsed = (word_of_int ((fst clock - fst ts) * 1000 + c_div (snd clock - snd ts) 1000000) :: u32)
      in if elapsed < ms then (False, ts) else (True, clock))"

section \<open>Writing to an object\<close>

abbreviation "no_zero t \<equiv> CHR 0x00 \<notin> set t"

lemma takeWhile_no_zero: "no_zero t \<Longrightarrow> takeWhile (\<lambda>c. c \<noteq> CHR 0x00) t = t"
  by (auto simp: takeWhile_eq_all_conv)

text \<open>A state in which object \<open>a\<close> has other pending text and its stream \<open>st\<close> another contents.\<close>

definition with_text :: "nat \<Rightarrow> string \<Rightarrow> nat \<Rightarrow> string \<Rightarrow> ms_state \<Rightarrow> ms_state" where
  "with_text a p st w s = s\<lparr>heap := (heap s)[a := (heap s ! a)\<lparr>pending := p\<rparr>], outs := (outs s)(st := w)\<rparr>"

lemma with_text_twice [simp]:
  "a < length (heap s) \<Longrightarrow> with_text a p' st w' (with_text a p st w s) = with_text a p' st w' s"
  by (simp add: with_text_def)

lemma with_text_same: "a < length (heap s) \<Longrightarrow> with_text a (pending (heap s ! a)) st (outs s st) s = s"
  by (simp add: with_text_def)

lemma with_text_sel [simp]:
  "a < length (heap s) \<Longrightarrow> heap (with_text a p st w s) ! a = (heap s ! a)\<lparr>pending := p\<rparr>"
  "outs (with_text a p st w s) = (outs s)(st := w)" "cache (with_text a p st w s) = cache s"
  "length (heap (with_text a p st w s)) = length (heap s)"
  "heap (with_text a p st w s) = (heap s)[a := (heap s ! a)\<lparr>pending := p\<rparr>]"
  by (simp_all add: with_text_def)

lemma log_pending_eq:
  assumes "a < length (heap s)" and "obj_advise (heap s ! a) = Some st"
  shows "log_pending a s = Some (with_text a [] st (outs s st @ takeWhile (\<lambda>c. c \<noteq> CHR 0x00) (pending (heap s ! a))) s)"
  using assms by (simp add: log_pending_def logMessage_def upd_object_def with_text_def)

lemma sputc_eq:
  assumes "a < length (heap s)" and "obj_advise (heap s ! a) = Some st"
  shows "sputc a c s = Some (let p = pending (heap s ! a)
    in if length p < put_area then with_text a (p @ [c]) st (outs s st) s
       else with_text a [c] st (outs s st @ takeWhile (\<lambda>c. c \<noteq> CHR 0x00) p) s)"
  using assms log_pending_eq [OF assms]
  by (simp add: sputc_def overflow_def upd_object_def with_text_def Let_def)

text \<open>Text goes to the buffer, and through it to the stream, in order; the buffer never overflows.\<close>

lemma sputn_text:
  assumes "a < length (heap s)" and "obj_advise (heap s ! a) = Some st" and "length (pending (heap s ! a)) \<le> put_area"
  shows "\<exists>p w. sputn a t s = Some (with_text a p st w s) \<and> length p \<le> put_area
    \<and> (no_zero (pending (heap s ! a)) \<and> no_zero t \<longrightarrow> w @ p = outs s st @ pending (heap s ! a) @ t \<and> no_zero p)"
  using assms
proof (induction t arbitrary: s)
  case Nil
  then show ?case by (intro exI [of _ "pending (heap s ! a)"] exI [of _ "outs s st"]) (simp add: with_text_same)
next
  case (Cons c t)
  let ?p = "pending (heap s ! a)"
  define p1 where "p1 = (if length ?p < put_area then ?p @ [c] else [c])"
  define w1 where "w1 = (if length ?p < put_area then outs s st else outs s st @ takeWhile (\<lambda>c. c \<noteq> CHR 0x00) ?p)"
  let ?s1 = "with_text a p1 st w1 s"
  have c: "sputc a c s = Some ?s1" using sputc_eq [OF Cons.prems(1,2)] by (simp add: p1_def w1_def Let_def)
  have p1: "length p1 \<le> put_area" "no_zero ?p \<and> no_zero (c # t) \<longrightarrow> no_zero p1 \<and> w1 @ p1 = outs s st @ ?p @ [c]"
    using Cons.prems(3) by (auto simp: p1_def w1_def put_area_def takeWhile_no_zero)
  obtain p w where "sputn a t ?s1 = Some (with_text a p st w ?s1)" "length p \<le> put_area"
    "no_zero p1 \<and> no_zero t \<longrightarrow> w @ p = w1 @ p1 @ t \<and> no_zero p"
    using Cons.IH [of ?s1] Cons.prems p1(1) by auto
  then show ?case using c p1(2) Cons.prems(1) by (intro exI [of _ p] exI [of _ w]) auto
qed

lemma write_all_text:
  assumes "a < length (heap s)" and "obj_advise (heap s ! a) = Some st" and "length (pending (heap s ! a)) \<le> put_area"
  shows "\<exists>p w. write_all (Some a) ts s = Some (with_text a p st w s) \<and> length p \<le> put_area
    \<and> (no_zero (pending (heap s ! a)) \<and> no_zero (concat ts) \<longrightarrow> w @ p = outs s st @ pending (heap s ! a) @ concat ts \<and> no_zero p)"
  using assms
proof (induction ts arbitrary: s)
  case Nil
  then show ?case by (intro exI [of _ "pending (heap s ! a)"] exI [of _ "outs s st"]) (simp add: with_text_same)
next
  case (Cons t ts)
  let ?p = "pending (heap s ! a)"
  obtain p1 w1 where 1: "sputn a t s = Some (with_text a p1 st w1 s)" "length p1 \<le> put_area"
    "no_zero ?p \<and> no_zero t \<longrightarrow> w1 @ p1 = outs s st @ ?p @ t \<and> no_zero p1"
    using sputn_text [OF Cons.prems, of t] by blast
  obtain p w where "write_all (Some a) ts (with_text a p1 st w1 s) = Some (with_text a p st w (with_text a p1 st w1 s))"
    "length p \<le> put_area" "no_zero p1 \<and> no_zero (concat ts) \<longrightarrow> w @ p = w1 @ p1 @ concat ts \<and> no_zero p"
    using Cons.IH [of "with_text a p1 st w1 s"] Cons.prems 1(2) by auto
  then show ?case using 1 Cons.prems(1) by (intro exI [of _ p] exI [of _ w]) (auto simp: Record_write_def)
qed

section \<open>The pool\<close>

text \<open>The list that starts at \<open>c\<close>.\<close>

fun pool_chain :: "ms_object list \<Rightarrow> nat option \<Rightarrow> nat list \<Rightarrow> bool" where
  "pool_chain h c [] \<longleftrightarrow> c = None"
| "pool_chain h c (a # as) \<longleftrightarrow> c = Some a \<and> a < length h \<and> pool_chain h (next_obj (h ! a)) as"

lemma pool_chain_frame: "a \<notin> set cs \<Longrightarrow> pool_chain (h[a := ob]) c cs = pool_chain h c cs"
  by (induction cs arbitrary: c) auto

lemma pool_chain_append: "pool_chain h c cs \<Longrightarrow> pool_chain (h @ xs) c cs"
  by (induction cs arbitrary: c) (auto simp: nth_append)

lemma pool_chain_length: "pool_chain h c cs \<Longrightarrow> set cs \<subseteq> {..<length h}"
  by (induction cs arbitrary: c) auto

text \<open>A free object is clean; a live one counts the records that refer to it, \<open>ptrs\<close>, and has a stream.\<close>

definition free_ok :: "ms_object \<Rightarrow> bool" where
  "free_ok ob \<longleftrightarrow> useRef ob = 0 \<and> pending ob = [] \<and> obj_advise ob = None"

definition live_ok :: "nat \<Rightarrow> ms_object \<Rightarrow> bool" where
  "live_ok n ob \<longleftrightarrow> n > 0 \<and> useRef ob = int n \<and> obj_advise ob \<noteq> None \<and> length (pending ob) \<le> put_area"

definition pool :: "nat list \<Rightarrow> nat multiset \<Rightarrow> ms_state \<Rightarrow> bool" where
  "pool cs ptrs s \<longleftrightarrow> pool_chain (heap s) (cache s) cs \<and> distinct cs \<and> set_mset ptrs \<subseteq> {..<length (heap s)}
     \<and> (\<forall>a < length (heap s). if a \<in> set cs then a \<notin># ptrs \<and> free_ok (heap s ! a) else live_ok (count ptrs a) (heap s ! a))"

lemma pool_live:
  assumes "pool cs ptrs s" and "a \<in># ptrs"
  shows "a < length (heap s)" and "a \<notin> set cs" and "live_ok (count ptrs a) (heap s ! a)"
    and "\<exists>st. obj_advise (heap s ! a) = Some st" and "length (pending (heap s ! a)) \<le> put_area"
proof -
  show l: "a < length (heap s)" using assms by (auto simp: pool_def)
  show "a \<notin> set cs" "live_ok (count ptrs a) (heap s ! a)" using assms l by (auto simp: pool_def split: if_splits)
  then show "\<exists>st. obj_advise (heap s ! a) = Some st" "length (pending (heap s ! a)) \<le> put_area" by (auto simp: live_ok_def)
qed

text \<open>A live object may change, together with the records that refer to it.\<close>

lemma pool_update:
  assumes "pool cs ptrs s" and "a < length (heap s)" and "a \<notin> set cs" and "live_ok (count ptrs' a) ob"
    and "\<And>b. b \<noteq> a \<Longrightarrow> count ptrs' b = count ptrs b"
    and "heap s' = (heap s)[a := ob]" and "cache s' = cache s"
  shows "pool cs ptrs' s'"
proof -
  have "b \<in># ptrs' \<longleftrightarrow> b \<in># ptrs" if "b \<noteq> a" for b using assms(5) [OF that] by (metis not_in_iff)
  then have "set_mset ptrs' \<subseteq> {..<length (heap s)}" using assms(1,2) by (fastforce simp: pool_def)
  moreover have "if b \<in> set cs then b \<notin># ptrs' \<and> free_ok (heap s' ! b) else live_ok (count ptrs' b) (heap s' ! b)"
    if "b < length (heap s)" for b
    using assms that \<open>\<And>b. b \<noteq> a \<Longrightarrow> b \<in># ptrs' \<longleftrightarrow> b \<in># ptrs\<close> by (cases "b = a") (auto simp: pool_def)
  moreover have "pool_chain (heap s') (cache s') cs" "distinct cs" "length (heap s') = length (heap s)"
    using assms(1,3,6,7) by (simp_all add: pool_def pool_chain_frame)
  ultimately show ?thesis unfolding pool_def by metis
qed

lemma ref_pool:
  assumes "pool cs ptrs s" and "a \<in># ptrs"
  shows "pool cs (add_mset a ptrs) (ref a s)"
  using pool_live [OF assms]
  by (intro pool_update [OF assms(1), where ob = "(heap s ! a)\<lparr>useRef := useRef (heap s ! a) + 1\<rparr>"])
    (auto simp: ref_def upd_object_def live_ok_def)

lemma write_pool:
  assumes "pool cs ptrs s" and "a \<in># ptrs"
  shows "\<exists>s'. Record_write (Some a) t s = Some s' \<and> pool cs ptrs s'"
proof -
  note l = pool_live [OF assms]
  obtain st where st: "obj_advise (heap s ! a) = Some st" using l(4) by blast
  obtain p w where p: "sputn a t s = Some (with_text a p st w s)" "length p \<le> put_area"
    using sputn_text [OF l(1) st l(5)] by blast
  have "pool cs ptrs (with_text a p st w s)"
    using l(3) p(2) by (intro pool_update [OF assms(1) l(1,2)]) (auto simp: live_ok_def with_text_def)
  then show ?thesis using p(1) by (simp add: Record_write_def)
qed

text \<open>A live object that loses its last reference goes to the pool, after its text has been written.\<close>

lemma release_eq:
  assumes "a < length (heap s)" and "obj_advise (heap s ! a) = Some st"
  shows "release a s = Some
    (s\<lparr>heap := (heap s)[a := (heap s ! a)\<lparr>pending := [], obj_advise := None, next_obj := cache s\<rparr>], cache := Some a,
       outs := (outs s)(st := outs s st @ takeWhile (\<lambda>c. c \<noteq> CHR 0x00) (pending (heap s ! a)))\<rparr>)"
proof (cases "pending (heap s ! a) = []")
  case True
  then have "(heap s ! a)\<lparr>pending := [], obj_advise := None, next_obj := cache s\<rparr> = (heap s ! a)\<lparr>obj_advise := None, next_obj := cache s\<rparr>"
    by simp
  then show ?thesis using True assms by (simp only: release_def Global_put_def upd_object_def) simp
next
  case False
  then show ?thesis
    using assms log_pending_eq [OF assms] by (simp add: release_def Global_put_def upd_object_def with_text_def)
qed

lemma unref_pool:
  assumes "pool cs ptrs s" and "a \<in># ptrs"
  shows "\<exists>s' cs'. unref a s = Some s' \<and> pool cs' (ptrs - {#a#}) s'"
proof -
  note l = pool_live [OF assms]
  obtain st where st: "obj_advise (heap s ! a) = Some st" using l(4) by blast
  let ?s1 = "upd_object a (\<lambda>ob. ob\<lparr>useRef := useRef ob - 1\<rparr>) s"
  have u: "useRef (heap ?s1 ! a) = int (count ptrs a) - 1" "count ptrs a > 0"
    using l(1,3) assms(2) by (simp_all add: upd_object_def live_ok_def)
  show ?thesis
  proof (cases "count ptrs a = 1")
    case True
    let ?ob = "(heap s ! a)\<lparr>useRef := 0, pending := [], obj_advise := None, next_obj := cache s\<rparr>"
    obtain s' where s': "unref a s = Some s'" "heap s' = (heap s)[a := ?ob]" "cache s' = Some a"
      using release_eq [of a ?s1 st] l(1,3) st True by (auto simp: unref_def Let_def upd_object_def live_ok_def)
    have "a \<notin># ptrs - {#a#}" using True by (simp add: not_in_iff)
    moreover have "b \<in># ptrs - {#a#} \<longleftrightarrow> b \<in># ptrs" "count (ptrs - {#a#}) b = count ptrs b" if "b \<noteq> a" for b
      using that by (simp_all add: in_diff_count)
    moreover have "pool_chain (heap s') (cache s') (a # cs)"
      using assms(1) s'(2,3) l(1,2) by (simp add: pool_def pool_chain_frame)
    moreover have "set_mset (ptrs - {#a#}) \<subseteq> {..<length (heap s)}"
      using assms(1) in_diffD [of _ ptrs "{#a#}"] by (auto simp: pool_def)
    ultimately have "pool (a # cs) (ptrs - {#a#}) s'"
      using assms(1) s'(2) l(1,2) by (auto simp: pool_def free_ok_def nth_list_update)
    then show ?thesis using s'(1) by blast
  next
    case False
    then have "unref a s = Some ?s1" using u by (simp add: unref_def Let_def)
    moreover have "pool cs (ptrs - {#a#}) ?s1"
      using l(3) False u(2) by (intro pool_update [OF assms(1) l(1,2)]) (auto simp: upd_object_def live_ok_def Suc_lessI)
    ultimately show ?thesis by blast
  qed
qed

text \<open>A new record reuses the first free object or allocates one.\<close>

lemma Record_pool:
  assumes "pool cs ptrs s" and "Record alloc st s = (r, s')"
  shows "case r of None \<Rightarrow> s' = s
    | Some a \<Rightarrow> \<exists>cs'. pool cs' (add_mset a ptrs) s' \<and> a \<notin># ptrs \<and> obj_advise (heap s' ! a) = Some st
        \<and> pending (heap s' ! a) = [] \<and> useRef (heap s' ! a) = 1 \<and> outs s' = outs s"
proof (cases "cache s")
  case None
  then have cs: "cs = []" using assms(1) by (cases cs) (simp_all add: pool_def)
  show ?thesis
  proof (cases alloc)
    case True
    let ?a = "length (heap s)"
    have s': "r = Some ?a" "s' = s\<lparr>heap := heap s @ [Object\<lparr>obj_advise := Some st\<rparr>]\<rparr>"
      using assms(2) None True by (auto simp: Record_def Object_get_def Global_get_def upd_object_def)
    have n: "?a \<notin># ptrs" using assms(1) by (auto simp: pool_def)
    have "pool [] (add_mset ?a ptrs) s'"
      using assms(1) cs None n s'(2)
      by (auto simp: pool_def nth_append live_ok_def Object_def put_area_def less_Suc_eq not_in_iff)
    then show ?thesis using s' n by (auto simp: Object_def nth_append)
  next
    case False
    then show ?thesis using assms(2) None by (simp add: Record_def Object_get_def Global_get_def split: prod.splits)
  qed
next
  case (Some a)
  then obtain cs' where cs: "cs = a # cs'" "a < length (heap s)" "pool_chain (heap s) (next_obj (heap s ! a)) cs'" "distinct (a # cs')"
    using assms(1) by (cases cs) (auto simp: pool_def)
  let ?ob = "(heap s ! a)\<lparr>useRef := 1, obj_advise := Some st\<rparr>"
  have f: "a \<notin># ptrs" "free_ok (heap s ! a)" using assms(1) cs(1,2) by (auto simp: pool_def)
  have s': "r = Some a" "s' = s\<lparr>cache := next_obj (heap s ! a), heap := (heap s)[a := ?ob]\<rparr>"
    using assms(2) Some cs(2) f(2)
    by (auto simp: Record_def Object_get_def Global_get_def upd_object_def free_ok_def)
  have "pool cs' (add_mset a ptrs) s'"
    using assms(1) cs f s'(2)
    by (auto simp: pool_def pool_chain_frame nth_list_update live_ok_def free_ok_def not_in_iff)
  then show ?thesis using s' f cs(2) by (auto simp: free_ok_def)
qed

section \<open>Programs that log\<close>

text \<open>The references of a record, and the operations of a program on its records. \<open>ptrs\<close> are the objects its
  records refer to; the next state is \<open>None\<close> when an operation uses a null pointer.\<close>

definition refs :: "nat option \<Rightarrow> nat multiset" where
  "refs r = (case r of None \<Rightarrow> {#} | Some a \<Rightarrow> {#a#})"

inductive ms_step :: "ms_state \<Rightarrow> nat multiset \<Rightarrow> ms_state option \<Rightarrow> nat multiset \<Rightarrow> bool" where
  new_record: "Record alloc st s = (r, s') \<Longrightarrow> ms_step s P (Some s') (P + refs r)"
| copy_record: "refs r \<subseteq># P \<Longrightarrow> Record_copy r s = (r', s') \<Longrightarrow> ms_step s P (Some s') (P + refs r')"
| delete_record: "refs r \<subseteq># P \<Longrightarrow> ms_step s P (Record_delete r s) (P - refs r)"
| assign_record: "refs lhs \<subseteq># P \<Longrightarrow> refs rhs \<subseteq># P \<Longrightarrow>
    ms_step s P (map_option snd (Record_assign lhs rhs s)) (P + refs rhs - refs lhs)"
| write_record: "refs r \<subseteq># P \<Longrightarrow> ms_step s P (Record_write r t s) P"

inductive ms_reachable :: "(nat \<Rightarrow> string) \<Rightarrow> ms_state \<Rightarrow> nat multiset \<Rightarrow> bool" for out0 where
  start: "ms_reachable out0 \<lparr>heap = [], cache = None, outs = out0\<rparr> {#}"
| step: "ms_reachable out0 s P \<Longrightarrow> ms_step s P (Some s') P' \<Longrightarrow> ms_reachable out0 s' P'"

lemma refs_simps [simp]: "refs None = {#}" "refs (Some a) = {#a#}"
  by (simp_all add: refs_def)

lemma new_pool:
  assumes "pool cs P s" and "Record alloc st s = (r, s')"
  shows "\<exists>cs'. pool cs' (P + refs r) s'"
proof (cases r)
  case None
  then show ?thesis using Record_pool [OF assms] assms(1) by auto
next
  case (Some a)
  then obtain cs' where "pool cs' (add_mset a P) s'" using Record_pool [OF assms] by auto
  then show ?thesis using Some by auto
qed

lemma copy_pool:
  assumes "pool cs P s" and "refs r \<subseteq># P"
  shows "pool cs (P + refs r) (case r of None \<Rightarrow> s | Some a \<Rightarrow> ref a s)"
  using assms ref_pool [OF assms(1)] by (cases r) simp_all

lemma delete_pool:
  assumes "pool cs P s" and "refs r \<subseteq># P"
  shows "\<exists>s' cs'. Record_delete r s = Some s' \<and> pool cs' (P - refs r) s'"
proof (cases r)
  case None
  then show ?thesis using assms(1) by (auto simp: Record_delete_def)
next
  case (Some a)
  then show ?thesis using unref_pool [OF assms(1), of a] assms(2) by (simp add: Record_delete_def)
qed

lemma step_pool:
  assumes "ms_step s P res P'" and "pool cs P s"
  shows "\<exists>s' cs'. res = Some s' \<and> pool cs' P' s'"
  using assms(1)
proof cases
  case (new_record alloc st r s')
  then show ?thesis using new_pool [OF assms(2) new_record(3)] by simp
next
  case (copy_record r r' s')
  have "r' = r" "s' = (case r of None \<Rightarrow> s | Some a \<Rightarrow> ref a s)"
    using copy_record(4) unfolding Record_copy_def prod.inject by (elim conjE, simp)+
  then have "pool cs P' s'" using copy_pool [OF assms(2) copy_record(3)] copy_record(2) by (simp only:)
  then show ?thesis using copy_record(1) by (intro exI [of _ s'] exI [of _ cs] conjI)
next
  case (delete_record r)
  then show ?thesis using delete_pool [OF assms(2) delete_record(3)] by simp
next
  case (assign_record lhs rhs)
  let ?s1 = "case rhs of None \<Rightarrow> s | Some a \<Rightarrow> ref a s"
  have p: "pool cs (P + refs rhs) ?s1" by (rule copy_pool [OF assms(2) assign_record(4)])
  have "refs lhs \<subseteq># P + refs rhs" using assign_record(3) by (rule subset_mset.order_trans) simp
  then obtain s' cs' where "Record_delete lhs ?s1 = Some s'" "pool cs' (P + refs rhs - refs lhs) s'"
    using delete_pool [OF p] by blast
  then show ?thesis using assign_record(1,2)
    by (intro exI [of _ s'] exI [of _ cs'] conjI) (simp_all add: Record_assign_def Record_delete_def Let_def)
next
  case (write_record r t)
  show ?thesis
  proof (cases r)
    case None
    then have "res = Some (s\<lparr>outs := (outs s)(0 := outs s 0 @ t)\<rparr>)" using write_record(1) by (simp add: Record_write_def)
    moreover have "pool cs P' (s\<lparr>outs := (outs s)(0 := outs s 0 @ t)\<rparr>)" using assms(2) write_record(2) by (simp add: pool_def)
    ultimately show ?thesis by (intro exI conjI)
  next
    case (Some a)
    then show ?thesis using write_pool [OF assms(2), of a t] write_record by auto
  qed
qed

lemma reachable_pool: "ms_reachable out0 s P \<Longrightarrow> \<exists>cs. pool cs P s"
proof (induction rule: ms_reachable.induct)
  case start
  show ?case by (intro exI [of _ "[]"]) (simp add: pool_def)
next
  case (step s P s' P')
  then show ?case using step_pool [OF step(2)] by auto
qed

lemma Global_delete_chain:
  "pool_chain (heap s) (cache s) cs \<Longrightarrow> Global_delete s = Some cs"
proof (induction cs arbitrary: s)
  case Nil
  then show ?case by (subst Global_delete.simps) simp
next
  case (Cons a cs)
  then show ?case using Cons.IH [of "s\<lparr>cache := next_obj (heap s ! a)\<rparr>"] by (subst Global_delete.simps) simp
qed

text \<open>C10: However a program creates, copies, assigns, writes and destroys its records, no operation uses a null
  pointer, the counter of an object that is in use is the number of records that refer to it, its text fits
  the buffer, and the pool holds exactly the other objects, each once - so its destructor ends and deletes each of
  them exactly once.\<close>

theorem ms_pool_sound:
  assumes "ms_reachable out0 s P"
  shows "(\<forall>res P'. ms_step s P res P' \<longrightarrow> res \<noteq> None)
    \<and> (\<forall>a. a \<in># P \<longrightarrow> a < length (heap s) \<and> useRef (heap s ! a) = int (count P a) \<and> length (pending (heap s ! a)) \<le> 4095)
    \<and> (\<exists>cs. Global_delete s = Some cs \<and> distinct cs \<and> set cs = {a. a < length (heap s) \<and> a \<notin># P})"
proof -
  obtain cs where p: "pool cs P s" using reachable_pool [OF assms] by blast
  have "res \<noteq> None" if "ms_step s P res P'" for res P' using step_pool [OF that p] by auto
  moreover have "a < length (heap s) \<and> useRef (heap s ! a) = int (count P a) \<and> length (pending (heap s ! a)) \<le> 4095"
    if "a \<in># P" for a
    using pool_live [OF p that] by (simp add: live_ok_def put_area_def)
  moreover have "Global_delete s = Some cs" using p by (intro Global_delete_chain) (simp add: pool_def)
  moreover have "set cs = {a. a < length (heap s) \<and> a \<notin># P}"
  proof (intro set_eqI iffI)
    fix a
    assume "a \<in> set cs"
    then show "a \<in> {a. a < length (heap s) \<and> a \<notin># P}" using p pool_chain_length [of "heap s" "cache s" cs] by (auto simp: pool_def)
  next
    fix a
    assume "a \<in> {a. a < length (heap s) \<and> a \<notin># P}"
    then show "a \<in> set cs" using p by (auto simp: pool_def live_ok_def split: if_splits)
  qed
  ultimately show ?thesis using p by (auto simp: pool_def)
qed

theorem ms_pool_sound_witness:
  "\<exists>s cs. ms_reachable (\<lambda>_. []) s {#0, 0#} \<and> useRef (heap s ! 0) = 2 \<and> Global_delete s = Some cs \<and> cs = []"
proof -
  let ?s1 = "\<lparr>heap = [Object\<lparr>obj_advise := Some 1\<rparr>], cache = None, outs = \<lambda>_. []\<rparr>"
  have "ms_step \<lparr>heap = [], cache = None, outs = \<lambda>_. []\<rparr> {#} (Some ?s1) ({#} + refs (Some 0))"
    by (rule new_record [where alloc = True and st = 1]) (simp add: Record_def Object_get_def Global_get_def upd_object_def)
  from ms_reachable.step [OF ms_reachable.start this] have "ms_reachable (\<lambda>_. []) ?s1 {#0#}" by simp
  from ms_reachable.step [OF this copy_record [where r = "Some 0" and s' = "ref 0 ?s1"]]
  have r: "ms_reachable (\<lambda>_. []) (ref 0 ?s1) {#0, 0#}" by (simp add: Record_copy_def)
  obtain cs where "Global_delete (ref 0 ?s1) = Some cs" "set cs = {a. a < length (heap (ref 0 ?s1)) \<and> a \<notin># {#0, 0#}}"
    using ms_pool_sound [OF r] by (elim exE conjE)
  moreover from this(2) have "set cs = {}" by (auto simp: ref_def upd_object_def)
  moreover have "useRef (heap (ref 0 ?s1) ! 0) = 2" using ms_pool_sound [OF r] by simp
  ultimately show ?thesis using r by (intro exI [of _ "ref 0 ?s1"] exI [of _ cs] conjI) simp_all
qed

text \<open>A record that is written to and destroyed: its text reaches the stream.\<close>

lemma unref_last:
  assumes "a < length (heap s)" and "useRef (heap s ! a) = 1" and "obj_advise (heap s ! a) = Some st" and "no_zero (pending (heap s ! a))"
  shows "\<exists>s'. unref a s = Some s' \<and> outs s' = (outs s)(st := outs s st @ pending (heap s ! a))"
  using assms release_eq [of a "upd_object a (\<lambda>ob. ob\<lparr>useRef := useRef ob - 1\<rparr>) s" st]
  by (simp add: unref_def upd_object_def Let_def takeWhile_no_zero)

lemma write_all_reachable:
  "ms_reachable out0 s P \<Longrightarrow> refs r \<subseteq># P \<Longrightarrow> write_all r ts s = Some s' \<Longrightarrow> ms_reachable out0 s' P"
proof (induction ts arbitrary: s)
  case (Cons t ts)
  then obtain s1 where "Record_write r t s = Some s1" "write_all r ts s1 = Some s'" by (auto simp: Option.bind_eq_Some_conv)
  then show ?case using Cons.IH [of s1] Cons.prems(1,2) ms_reachable.step [OF Cons.prems(1), of s1 P] write_record [OF Cons.prems(2), of s t]
    by simp
qed simp

text \<open>C17: In every reachable state a log statement whose severity is enabled appends exactly its text to the stream
  of the log, in one piece whatever its length and whatever other records hold, changes no other
  stream, and returns its object to the pool; a statement that is not enabled does nothing. The text must
  not contain a zero character.\<close>

theorem ms_statement_logged:
  assumes "ms_reachable out0 s P" and "no_zero (concat ts)"
  shows "\<exists>s'. message_log_stmt True l sev ts s = Some s' \<and> ms_reachable out0 s' P
    \<and> outs s' = (if severity l \<ge> sev then (outs s)(log_advise l := outs s (log_advise l) @ concat ts) else outs s)"
proof (cases "severity l \<ge> sev")
  case True
  obtain cs where p: "pool cs P s" using reachable_pool [OF assms(1)] by blast
  obtain r s1 where rec: "Record True (log_advise l) s = (r, s1)" by fastforce
  obtain a where a: "r = Some a" using rec by (cases "cache s"; cases r) (simp_all add: Record_def Object_get_def Global_get_def)
  obtain cs1 where s1: "pool cs1 (add_mset a P) s1" "obj_advise (heap s1 ! a) = Some (log_advise l)" "pending (heap s1 ! a) = []"
    "useRef (heap s1 ! a) = 1" "outs s1 = outs s"
    using Record_pool [OF p rec] a by auto
  have r1: "ms_reachable out0 s1 (add_mset a P)"
    using ms_reachable.step [OF assms(1) new_record [OF rec]] a by simp
  have len: "a < length (heap s1)" using pool_live(1) [OF s1(1)] by simp
  obtain q w where w: "write_all (Some a) ts s1 = Some (with_text a q (log_advise l) w s1)" "w @ q = outs s (log_advise l) @ concat ts"
    "no_zero q"
    using write_all_text [OF len s1(2), of ts] s1(3,5) assms(2) by auto
  let ?s2 = "with_text a q (log_advise l) w s1"
  have r2: "ms_reachable out0 ?s2 (add_mset a P)" by (rule write_all_reachable [OF r1 _ w(1)]) simp
  obtain s' where s': "unref a ?s2 = Some s'" "outs s' = (outs ?s2)(log_advise l := outs ?s2 (log_advise l) @ q)"
    using unref_last [of a ?s2 "log_advise l"] len s1(2,4) w(3) by auto
  have "ms_step ?s2 (add_mset a P) (Some s') P"
    using delete_record [of "Some a" "add_mset a P" ?s2] s'(1) by (simp add: Record_delete_def)
  then have "ms_reachable out0 s' P" by (rule ms_reachable.step [OF r2])
  moreover have "message_log_stmt True l sev ts s = Some s'"
    using True rec a w(1) s'(1) by (simp add: message_log_stmt_def Record_delete_def)
  ultimately show ?thesis using True s'(2) w(2) s1(5) by auto
next
  case False
  then show ?thesis using assms(1) by (simp add: message_log_stmt_def)
qed

theorem ms_statement_logged_witness:
  "\<exists>s'. message_log_stmt True (ms_log_new 1) ERROR [''disk '', ''full''] \<lparr>heap = [], cache = None, outs = \<lambda>_. []\<rparr> = Some s'
     \<and> outs s' 1 = ''disk full''"
  using ms_statement_logged [OF ms_reachable.start, of "[''disk '', ''full'']" "ms_log_new 1" ERROR "\<lambda>_. []"]
  by (auto simp: ms_log_new_def WARN_def ERROR_def)

text \<open>Text after a zero character is lost.\<close>

lemma zero_cuts_text:
  "\<exists>s'. message_log_stmt True (ms_log_new 1) ERROR [''a'' @ [CHR 0x00] @ ''b''] \<lparr>heap = [], cache = None, outs = \<lambda>_. []\<rparr> = Some s'
     \<and> outs s' 1 = ''a''"
  by (simp add: message_log_stmt_def ms_log_new_def WARN_def ERROR_def Record_def Object_get_def Global_get_def upd_object_def
      Record_write_def sputc_def put_area_def Object_def Record_delete_def unref_def release_def log_pending_def logMessage_def
      Global_put_def Let_def)

text \<open>The rate limiter lets a statement through at most once in \<open>ms\<close> milliseconds of a clock that does not go back, for
  intervals that fit an unsigned int.\<close>

lemma msForMessageLog_spec:
  assumes "0 \<le> e" and "e < 2 ^ 32" and "e = (fst clock - fst ts) * 1000 + c_div (snd clock - snd ts) 1000000"
  shows "msForMessageLog ms clock ts = (if e < uint ms then (False, ts) else (True, clock))"
proof -
  have "uint (word_of_int e :: u32) = e" using assms(1,2) by (simp add: uint_word_of_int)
  then show ?thesis using assms(3) by (simp add: msForMessageLog_def word_less_def)
qed

end
