(* ===== verification/MsProcess.thy ===== *)
theory MsProcess
  imports Prelude
begin

text \<open>
  The process demonstration, \<open>src/ms_process/daemonize.cc\<close> and \<open>mp_process.cc\<close>: turning the process into a daemon,
  starting ten children and collecting those that end.

  The results of the system calls are an environment. A process has a table of descriptors, in which \<open>open\<close> takes
  the lowest free one.
\<close>

section \<open>daemon\<close>

datatype ofile = Dev_null | Other_file nat

record proc =
  fds :: "ofile option list"
  cwd :: string
  session_leader :: bool

datatype fork_result = Fork_error | Fork_parent | Fork_child

record sys_env =
  chdir_ok :: bool
  open_ok :: bool
  dup_ok :: "nat \<Rightarrow> bool"
  fork_res :: fork_result
  setsid_ok :: bool

datatype daemon_result = Returns int | Exits

fun lowest_free :: "ofile option list \<Rightarrow> nat" where
  "lowest_free [] = 0"
| "lowest_free (None # t) = 0"
| "lowest_free (Some f # t) = Suc (lowest_free t)"

definition set_fd :: "nat \<Rightarrow> ofile option \<Rightarrow> proc \<Rightarrow> proc" where
  "set_fd i f p = p\<lparr>fds := (fds p @ replicate (Suc i - length (fds p)) None)[i := f]\<rparr>"

definition get_fd :: "nat \<Rightarrow> proc \<Rightarrow> ofile option" where
  "get_fd i p = (if i < length (fds p) then fds p ! i else None)"

definition dup2 :: "nat \<Rightarrow> nat \<Rightarrow> proc \<Rightarrow> proc" where
  "dup2 fd target p = set_fd target (get_fd fd p) p"

text \<open>\<open>dup2(fd, 0) < 0 || dup2(fd, 1) < 0 || dup2(fd, 2) < 0\<close>: whether one failed, and the process.\<close>

fun dup_all :: "sys_env \<Rightarrow> nat \<Rightarrow> nat list \<Rightarrow> proc \<Rightarrow> bool \<times> proc" where
  "dup_all en fd [] p = (False, p)"
| "dup_all en fd (t # ts) p = (if dup_ok en t then dup_all en fd ts (dup2 fd t p) else (True, p))"

definition redirect :: "sys_env \<Rightarrow> proc \<Rightarrow> bool \<times> proc" where
  "redirect en p =
     (if \<not> open_ok en then (False, p)
      else
        let fd = lowest_free (fds p);
            (failed, p2) = dup_all en fd [0, 1, 2] (set_fd fd (Some Dev_null) p)
        in (\<not> failed, set_fd fd None p2))"

definition daemon :: "bool \<Rightarrow> bool \<Rightarrow> sys_env \<Rightarrow> proc \<Rightarrow> daemon_result \<times> proc" where
  "daemon nochdir noclose en p =
     (if \<not> nochdir \<and> \<not> chdir_ok en then (Returns (- 1), p)
      else
        let p1 = (if nochdir then p else p\<lparr>cwd := ''/''\<rparr>);
            (ok, p2) = (if noclose then (True, p1) else redirect en p1)
        in if \<not> ok then (Returns (- 1), p2)
           else (case fork_res en of
                   Fork_error \<Rightarrow> (Returns (- 1), p2)
                 | Fork_parent \<Rightarrow> (Exits, p2)
                 | Fork_child \<Rightarrow> if setsid_ok en then (Returns 0, p2\<lparr>session_leader := True\<rparr>) else (Returns (- 1), p2)))"

section \<open>Children\<close>

text \<open>The handler of \<open>SIGCHLD\<close>: the results of \<open>waitpid\<close> until one is not positive; the children it collected, in order, and
  the new count.\<close>

fun sig_chld :: "int list \<Rightarrow> nat \<Rightarrow> int list \<times> nat" where
  "sig_chld [] scount = ([], scount)"
| "sig_chld (childpid # rs) scount =
     (if childpid > 0 then (let (cs, n) = sig_chld rs (scount + 1) in (childpid # cs, n)) else ([], scount))"

text \<open>The loop of \<open>main\<close> that starts the children: how many a process has started, and whether it became one.\<close>

fun fork_loop :: "nat \<Rightarrow> fork_result list \<Rightarrow> nat \<Rightarrow> nat \<times> bool" where
  "fork_loop 0 rs n = (n, False)"
| "fork_loop (Suc i) [] n = (n, False)"
| "fork_loop (Suc i) (Fork_error # rs) n = (n, False)"
| "fork_loop (Suc i) (Fork_child # rs) n = (n, True)"
| "fork_loop (Suc i) (Fork_parent # rs) n = fork_loop i rs (n + 1)"

section \<open>What the daemon has open\<close>

lemma get_set_fd: "get_fd j (set_fd i f p) = (if j = i then f else get_fd j p)"
  by (auto simp: get_fd_def set_fd_def nth_append nth_list_update)

lemma get_fd_upd [simp]: "get_fd i (p\<lparr>cwd := c\<rparr>) = get_fd i p" "get_fd i (p\<lparr>session_leader := b\<rparr>) = get_fd i p"
  by (simp_all add: get_fd_def)

lemma set_fd_rest [simp]: "cwd (set_fd i f p) = cwd p" "session_leader (set_fd i f p) = session_leader p"
  by (simp_all add: set_fd_def)

text \<open>C39: When all system calls succeed, the child that \<open>daemon\<close> returns in leads a session of its own in the root directory,
  its other descriptors are as before, and its standard descriptors are \<open>/dev/null\<close> - unless one of them
  was closed at the start: the lowest such descriptor is closed again.\<close>

theorem daemon_descriptors:
  assumes "chdir_ok en" and "open_ok en" and "dup_ok en 0" and "dup_ok en 1" and "dup_ok en 2" and "fork_res en = Fork_child"
    and "setsid_ok en"
  shows "\<exists>p'. daemon False False en p = (Returns 0, p') \<and> cwd p' = ''/'' \<and> session_leader p'
    \<and> (\<forall>i. get_fd i p' = (if i = lowest_free (fds p) then None else if i < 3 then Some Dev_null else get_fd i p))"
proof -
  let ?fd = "lowest_free (fds p)"
  let ?p1 = "set_fd ?fd (Some Dev_null) (p\<lparr>cwd := ''/''\<rparr>)"
  let ?p2 = "dup2 ?fd 2 (dup2 ?fd 1 (dup2 ?fd 0 ?p1))"
  have "get_fd i (set_fd ?fd None ?p2) = (if i = ?fd then None else if i < 3 then Some Dev_null else get_fd i p)" for i
    by (auto simp: dup2_def get_set_fd)
  moreover have "redirect en (p\<lparr>cwd := ''/''\<rparr>) = (True, set_fd ?fd None ?p2)"
    using assms(2-5) by (simp add: redirect_def Let_def)
  ultimately show ?thesis
    using assms(1,6,7)
    by (intro exI [of _ "(set_fd ?fd None ?p2)\<lparr>session_leader := True\<rparr>"])
      (simp add: daemon_def Let_def, simp add: dup2_def)
qed

theorem daemon_descriptors_witness:
  "\<exists>p'. daemon False False \<lparr>chdir_ok = True, open_ok = True, dup_ok = \<lambda>_. True, fork_res = Fork_child, setsid_ok = True\<rparr>
       \<lparr>fds = [None, Some (Other_file 1), Some (Other_file 2)], cwd = ''/home'', session_leader = False\<rparr> = (Returns 0, p')
     \<and> get_fd 0 p' = None \<and> get_fd 1 p' = Some Dev_null"
  using daemon_descriptors [of "\<lparr>chdir_ok = True, open_ok = True, dup_ok = \<lambda>_. True, fork_res = Fork_child, setsid_ok = True\<rparr>"
      "\<lparr>fds = [None, Some (Other_file 1), Some (Other_file 2)], cwd = ''/home'', session_leader = False\<rparr>"]
  by auto

text \<open>The handler collects every child that has ended and counts it.\<close>

lemma sig_chld_collects:
  "sig_chld (map int (map Suc pids) @ r # rs) n = (map int (map Suc pids), n + length pids)" if "r \<le> 0"
  using that by (induction pids arbitrary: n) simp_all

lemma fork_loop_bound: "fst (fork_loop i rs n) \<le> n + i"
  by (induction i rs n rule: fork_loop.induct) auto

end
