(* ===== verification/Spec2Isabelle.thy ===== *)
theory Spec2Isabelle
  imports Crc32 HashKit Queues EcStream EcDate EcData EcLoop EcTimer EcTcp EcHttp MpmcQueue FmtArgs FmtDouble FmtReport SpdMessageLog MsLog MsProcess
begin

text \<open>
  A verification library for the C++ code of this repository: the utilities under \<open>src/common\<close> (CRC-32, the hash
  functions of hashkit, and the logging library spdlog with the formatting library it bundles), the event
  library \<open>src/libeventc++11\<close> (called ec here), and the process demonstration \<open>src/ms_process\<close> with its own logger.

  \<^bold>\<open>Parts and theories.\<close>

  \<^item> \<open>Prelude\<close>: byte and word types, little-endian bytes, ring arithmetic, and sequencing in the sum type
    (\<open>sbind\<close>); \<open>ByteHash\<close>: the general facts on hashes that fold over the bytes of a key.
  \<^item> \<open>Crc32\<close>: \<open>src/common/crc32.hpp\<close>. The table-driven checksum is the bitwise CRC of its polynomial, for all
    buffers, and detects every burst error of up to four bytes.
  \<^item> \<open>HashKit\<close>: \<open>src/common/hashkit/*.cc\<close>. Every hash function on the bytes of a key with the machine
    arithmetic of the code; which of them are the standard checksums, and which see every
    change of a single byte.
  \<^item> \<open>Queues\<close>: \<open>safeQueue.h\<close>, \<open>singleQueue.h\<close>, \<open>extendableSingleQueue.h\<close>. The locale \<open>bounded_fifo\<close> is the contract
    of a bounded queue; the ring of \<open>SingleQueue\<close> interprets it and the extendable queue is proved over that. A
    step relation interleaves a writer and a reader access by access.
  \<^item> \<open>EcStream\<close>: \<open>stream.h\<close>. Writers and readers of scalars, strings and containers; the locale \<open>stream_codec\<close>
    states that a reader undoes a writer, and the containers inherit it from their elements. Reads stay
    in the buffer for every input, with the exception of a length that wraps.
  \<^item> \<open>EcDate\<close>: \<open>date.h\<close>, \<open>date.cpp\<close>. \<open>Date\<close> and \<open>Time\<close> over the calendar functions of the C library in a zone of fixed
    offset.
  \<^item> \<open>EcData\<close>, \<open>EcLoop\<close>, \<open>EcTimer\<close>: \<open>data.h\<close>, \<open>async.h\<close>, \<open>loop.h\<close>, \<open>loop.cpp\<close>, \<open>timer.h\<close>, \<open>timer.cpp\<close>. Loops with their registry,
    the messages between them, frames, stop, and timers. The registry is an invariant of the reachable states.
  \<^item> \<open>EcTcp\<close>: \<open>tcpSocket\<close>, \<open>tcpSession\<close>, \<open>tcpServerDispatcher\<close>, \<open>tcpServer\<close>, \<open>tcpClient\<close> (\<open>.h\<close> and \<open>.cpp\<close>). Sockets that close when
    their data is sent, sessions, and the server whose dispatchers are loops of \<open>EcLoop\<close>: an accepted connection
    is proved to become a session of the right dispatcher through the posted messages and the frame of its loop.
  \<^item> \<open>EcHttp\<close>: \<open>httpServer\<close>, \<open>httpRequest\<close>. The table of handlers and the reply to a request.
  \<^item> \<open>MpmcQueue\<close>: \<open>details/mpmc_bounded_q.h\<close> of spdlog, for one thread (a refinement of a bounded list) and
    as an interleaving of the atomic accesses of any number of threads.
  \<^item> \<open>FmtWriter\<close>, \<open>FmtFormat\<close>: \<open>details/format.h\<close>, \<open>format.cc\<close>. The growing buffer, integers and strings with their
    field specifications, and the interpreter of format strings.
  \<^item> \<open>FmtArgs\<close>: the argument lists of \<open>format.h\<close>. The packed representation is proved to be the list that \<open>FmtFormat\<close> works on.
  \<^item> \<open>FmtDouble\<close>: \<open>write_double\<close> of \<open>format.h\<close>. Floating-point output over \<open>snprintf\<close> as a parameter, on a buffer with its storage.
    The loop that enlarges the buffer is proved to end, and the field to be the sign and the digits with their padding.
  \<^item> \<open>FmtPrintf\<close>: \<open>PrintfFormatter\<close> of \<open>format.cc\<close>, against a definition of the conversions taken from the C standard.
  \<^item> \<open>FmtReport\<close>: \<open>format.cc\<close>. Printing, the texts of system errors, and the stream buffer \<open>FormatBuf\<close>.
  \<^item> \<open>SpdPattern\<close>: \<open>common.h\<close>, \<open>details/log_msg.h\<close>, \<open>details/pattern_formatter_impl.h\<close>. Levels, messages, and the compiler of
    patterns with every flag.
  \<^item> \<open>SpdFile\<close>: \<open>details/file_helper.h\<close>, \<open>sinks/file_sinks.h\<close>. The file helper and the simple, rotating and daily
    sinks over a file system whose operations may fail.
  \<^item> \<open>SpdLogger\<close>: \<open>details/logger_impl.h\<close>, \<open>details/line_logger.h\<close>, \<open>sinks/*.h\<close>. Log calls with the destructor that
    writes the line; the locale \<open>text_sink\<close> is the contract of a sink, interpreted on the stream and the file sink.
  \<^item> \<open>SpdAsync\<close>: \<open>details/async_log_helper.h\<close>, \<open>details/async_logger_impl.h\<close>. Calling threads, the bounded queue
    and the worker as a step relation; \<open>flush_sink\<close> extends \<open>text_sink\<close>, and what the worker writes is proved
    once in it.
  \<^item> \<open>SpdRegistry\<close>: \<open>details/registry.h\<close>, \<open>details/spdlog_impl.h\<close>, \<open>sinks/stdout_sinks.h\<close>, \<open>sinks/syslog_sink.h\<close>, \<open>sinks/dist_sink.h\<close>.
    The table of loggers with its settings, and the remaining sinks; the standard streams interpret \<open>text_sink\<close>.
  \<^item> \<open>SpdMessageLog\<close>: \<open>src/common/spdlog/src/MessageLog.h\<close> and \<open>.cpp\<close>. A message file and an error file behind one
    object; a message is followed through the registry, the logger and the rotating sink.
  \<^item> \<open>MsLog\<close>, \<open>MsProcess\<close>: \<open>src/ms_process/log/MessageLog.*\<close>, \<open>daemonize.cc\<close>, \<open>mp_process.cc\<close>. The pool of counted stream objects as an
    invariant of the reachable states; the daemon and its descriptors, and the children.

  \<^bold>\<open>How the parts interact.\<close> A log call formats its arguments with \<open>FmtFormat\<close> into a \<open>log_msg\<close>. A plain logger lays
  the message out with the pattern formatter and hands it to its sinks; an asynchronous one queues it in the
  queue of \<open>MpmcQueue\<close>, and the worker does the rest. The pattern formatter and the daily sink use the calendar of
  \<open>EcDate\<close>. The registry creates loggers with their sinks and hands its level and format to them; \<open>MessageLog\<close> of
  spdlog creates its loggers through it. A loop of ec keeps its messages in the queues of \<open>Queues\<close>, a timer is driven by
  a loop's events, and the dispatchers of a server are loops to which it posts its new connections.

  \<^bold>\<open>Conventions.\<close> Fixed-width arithmetic is on words wherever it can wrap, and on natural numbers or integers with a
  stated bound elsewhere. Exceptions and reads or writes outside memory are values (\<open>Inl\<close>, \<open>None\<close>, an
  error component). Memory that the code leaves uninitialised is a parameter (\<open>junk\<close> and the like). Functions
  that the code calls in libevent, the C library and the system are parameters, recorded calls with an environment of
  answers, or the small models named in the theories (files, calendar, descriptors). The retry loops of the queue are partial functions, for which the lemmas show that
  they return; all other functions are total, and no fuel is used. The loop that opens a file makes
  five attempts, as the code does.

  \<^bold>\<open>Not modelled.\<close> Floating-point fields inside format strings, wide characters, custom types and the Windows helpers of the formatting
  library; the Android sink, which does not compile with the levels of this version; the
  locale helpers \<open>src/common/spdlog/src/utils.h\<close>; the demonstration client \<open>src/http/libev_http_client.cc\<close>; the set-up of signals and
  streams and the endless loops in \<open>mp_process.cc\<close>; the template \<open>singleton.h\<close>; the Java project; examples, tests and
  documentation. Weak memory orders are not modelled: the interleavings are sequentially consistent. Locks make a call
  atomic.
\<close>

end
